(* ===== verification/C_Prelude.thy ===== *)
theory C_Prelude
  imports Main "HOL-Library.Word" "HOL-Library.Multiset"
begin

text \<open>
  What every component of the daemon shares: the fault type and the result type of C code
  that can go wrong, bounded memory accesses, the C string functions the sources call
  (\<open>strlen\<close>, \<open>strchr\<close>, \<open>strstr\<close>, \<open>strcasestr\<close>, \<open>strncasecmp\<close>, \<open>memcpy\<close>), the reading of
  multi-byte fields out of a packet, and the generic lemmas about them.

  A pointer into an object is modelled by the list of the bytes from the pointer to the end
  of the object.  A read or write past that list is the fault \<open>OobRead\<close> or \<open>OobWrite\<close>, which
  is what the bounds checks of \<open>uwebfilter.d/cbmc.sh\<close> look for.  The host is little-endian
  with a 32-bit \<open>int\<close> and 64-bit \<open>size_t\<close> and \<open>time_t\<close>.
\<close>

unbundle bit_operations_syntax

type_synonym byte = "8 word"
type_synonym u16 = "16 word"
type_synonym u32 = "32 word"
type_synonym u64 = "64 word"

text \<open>The collections of facts the component proofs use.\<close>

named_theorems result_simps \<open>rewrite rules of the result type\<close>
named_theorems mem_simps \<open>rewrite rules of bounded memory accesses\<close>

subsection \<open>Faults and results\<close>

datatype error =
    OobRead        \<comment> \<open>a read outside the object the pointer points into\<close>
  | OobWrite       \<comment> \<open>a write outside the object\<close>
  | NullDeref      \<comment> \<open>a NULL pointer is dereferenced\<close>
  | UseAfterFree   \<comment> \<open>an object that is not allocated is accessed\<close>
  | BadShift       \<comment> \<open>a shift by the width of the type or more\<close>
  | AssertFail     \<comment> \<open>\<open>assert\<close> fails\<close>
  | Exit           \<comment> \<open>\<open>exit\<close> is called\<close>

type_synonym 'a result = "error + 'a"

fun rbind :: "'a result \<Rightarrow> ('a \<Rightarrow> 'b result) \<Rightarrow> 'b result" where
  "rbind (Inl e) f = Inl e"
| "rbind (Inr x) f = f x"

fun rfold :: "('a \<Rightarrow> 's \<Rightarrow> 's result) \<Rightarrow> 'a list \<Rightarrow> 's \<Rightarrow> 's result" where
  "rfold f [] s = Inr s"
| "rfold f (x # xs) s = rbind (f x s) (rfold f xs)"

fun is_ok :: "'a result \<Rightarrow> bool" where
  "is_ok (Inl e) = False"
| "is_ok (Inr x) = True"

subsection \<open>Bounded memory\<close>

definition rd8 :: "byte list \<Rightarrow> nat \<Rightarrow> byte result" where
  "rd8 m i = (if i < length m then Inr (m ! i) else Inl OobRead)"

definition mem_read :: "byte list \<Rightarrow> nat \<Rightarrow> nat \<Rightarrow> byte list result" where
  "mem_read m off n = (if off + n \<le> length m then Inr (take n (drop off m)) else Inl OobRead)"

definition mem_write :: "byte list \<Rightarrow> nat \<Rightarrow> byte list \<Rightarrow> byte list result" where
  "mem_write m off bs =
     (if off + length bs \<le> length m
      then Inr (take off m @ bs @ drop (off + length bs) m) else Inl OobWrite)"

definition wr8 :: "byte list \<Rightarrow> nat \<Rightarrow> byte \<Rightarrow> byte list result" where
  "wr8 m i b = (if i < length m then Inr (m[i := b]) else Inl OobWrite)"

definition c_memcpy :: "byte list \<Rightarrow> nat \<Rightarrow> byte list \<Rightarrow> nat \<Rightarrow> nat \<Rightarrow> byte list result" where
  "c_memcpy dst doff src soff n = rbind (mem_read src soff n) (mem_write dst doff)"

definition be16 :: "byte \<Rightarrow> byte \<Rightarrow> u16" where
  "be16 b1 b2 = (ucast b1 * 256 + ucast b2 :: u16)"

definition le32 :: "byte \<Rightarrow> byte \<Rightarrow> byte \<Rightarrow> byte \<Rightarrow> u32" where
  "le32 a b c d = (ucast a + ucast b * 2 ^ 8 + ucast c * 2 ^ 16 + ucast d * 2 ^ 24 :: u32)"

definition rd16be :: "byte list \<Rightarrow> nat \<Rightarrow> u16 result" where
  "rd16be m i = rbind (rd8 m i) (\<lambda>a. rbind (rd8 m (i + 1)) (\<lambda>b. Inr (be16 a b)))"

definition rd32le :: "byte list \<Rightarrow> nat \<Rightarrow> u32 result" where
  "rd32le m i = rbind (rd8 m i) (\<lambda>a. rbind (rd8 m (i + 1)) (\<lambda>b.
     rbind (rd8 m (i + 2)) (\<lambda>c. rbind (rd8 m (i + 3)) (\<lambda>d. Inr (le32 a b c d)))))"

subsection \<open>C strings\<close>

definition bytes :: "string \<Rightarrow> byte list" where
  "bytes s = map (\<lambda>c. of_nat (of_char c)) s"

definition cstr :: "byte list \<Rightarrow> byte list" where
  "cstr p = takeWhile (\<lambda>b. b \<noteq> 0) p"

definition terminated :: "byte list \<Rightarrow> bool" where
  "terminated p \<longleftrightarrow> 0 \<in> set p"

definition c_strlen :: "byte list \<Rightarrow> nat result" where
  "c_strlen p = (if terminated p then Inr (length (cstr p)) else Inl OobRead)"

definition c_str :: "byte list \<Rightarrow> byte list result" where
  "c_str p = (if terminated p then Inr (cstr p) else Inl OobRead)"

fun c_strchr :: "byte \<Rightarrow> byte list \<Rightarrow> nat option result" where
  "c_strchr c [] = Inl OobRead"
| "c_strchr c (b # bs) =
     (if b = c then Inr (Some 0)
      else if b = 0 then Inr None
      else rbind (c_strchr c bs) (\<lambda>r. Inr (map_option Suc r)))"

fun c_prefix :: "(byte \<Rightarrow> byte \<Rightarrow> bool) \<Rightarrow> byte list \<Rightarrow> byte list \<Rightarrow> bool result" where
  "c_prefix eq [] p = Inr True"
| "c_prefix eq (c # cs) [] = Inl OobRead"
| "c_prefix eq (c # cs) (b # bs) = (if eq c b then c_prefix eq cs bs else Inr False)"

fun c_search :: "(byte \<Rightarrow> byte \<Rightarrow> bool) \<Rightarrow> byte list \<Rightarrow> byte list \<Rightarrow> nat option result" where
  "c_search eq needle [] = Inl OobRead"
| "c_search eq needle (b # bs) =
     rbind (c_prefix eq needle (b # bs)) (\<lambda>found.
       if found then Inr (Some 0)
       else if b = 0 then Inr None
       else rbind (c_search eq needle bs) (\<lambda>r. Inr (map_option Suc r)))"

definition c_tolower :: "byte \<Rightarrow> byte" where
  "c_tolower b = (if 65 \<le> b \<and> b \<le> 90 then b + 32 else b)"

definition caseless :: "byte \<Rightarrow> byte \<Rightarrow> bool" where
  "caseless a b \<longleftrightarrow> c_tolower a = c_tolower b"

definition c_strstr :: "byte list \<Rightarrow> byte list \<Rightarrow> nat option result" where
  "c_strstr p needle = c_search (=) needle p"

definition c_strcasestr :: "byte list \<Rightarrow> byte list \<Rightarrow> nat option result" where
  "c_strcasestr p needle = c_search caseless needle p"

text \<open>\<open>strncasecmp (p, s, n) == 0\<close> for a literal \<open>s\<close> of \<open>n\<close> characters.\<close>

definition c_strncasecmp_eq :: "byte list \<Rightarrow> byte list \<Rightarrow> bool result" where
  "c_strncasecmp_eq p s = c_prefix caseless s p"

text \<open>The value of an integer after conversion to a signed 64-bit type.\<close>

definition to_s64 :: "int \<Rightarrow> int" where
  "to_s64 i = (i + 2 ^ 63) mod 2 ^ 64 - 2 ^ 63"

text \<open>A C string with its terminator, as a library call or a literal provides it.\<close>

definition cmem :: "byte list \<Rightarrow> byte list" where
  "cmem s = s @ [0]"

text \<open>The conversions \<open>%u\<close>, \<open>%lu\<close> and \<open>%d\<close> of \<open>printf\<close>.\<close>

fun show_nat :: "nat \<Rightarrow> byte list" where
  "show_nat n = (if n < 10 then [of_nat (48 + n)] else show_nat (n div 10) @ [of_nat (48 + n mod 10)])"

declare show_nat.simps [simp del]

definition show_int :: "int \<Rightarrow> byte list" where
  "show_int i = (if i < 0 then 45 # show_nat (nat (- i)) else show_nat (nat i))"

text \<open>The value of an \<open>int\<close> assigned from a \<open>size_t\<close>.\<close>

definition int_of_size :: "nat \<Rightarrow> int" where
  "int_of_size n = sint (of_nat n :: u32)"

subsection \<open>Lemmas on results\<close>

lemma rbind_Inr_iff [result_simps]:
  "rbind m f = Inr y \<longleftrightarrow> (\<exists>x. m = Inr x \<and> f x = Inr y)"
  by (cases m) auto

lemma rbind_Inl_iff [result_simps]:
  "rbind m f = Inl e \<longleftrightarrow> m = Inl e \<or> (\<exists>x. m = Inr x \<and> f x = Inl e)"
  by (cases m) auto

lemma rbind_assoc: "rbind (rbind m f) g = rbind m (\<lambda>x. rbind (f x) g)"
  by (cases m) auto

lemma rbind_Inr_right [simp]: "rbind m Inr = m"
  by (cases m) auto

lemma rbind_cong [fundef_cong]:
  "m = m' \<Longrightarrow> (\<And>x. m' = Inr x \<Longrightarrow> f x = g x) \<Longrightarrow> rbind m f = rbind m' g"
  by (cases m') auto

lemma is_ok_iff: "is_ok m \<longleftrightarrow> (\<exists>x. m = Inr x)"
  by (cases m) auto

lemma rfold_append: "rfold f (xs @ ys) s = rbind (rfold f xs s) (rfold f ys)"
proof (induction xs arbitrary: s)
  case Nil
  then show ?case by simp
next
  case (Cons x xs)
  then show ?case by (cases "f x s") auto
qed

lemma rfold_invariant:
  assumes "rfold f xs s = Inr s'" and "I s"
    and "\<And>x s s'. x \<in> set xs \<Longrightarrow> I s \<Longrightarrow> f x s = Inr s' \<Longrightarrow> I s'"
  shows "I s'"
  using assms
proof (induction xs arbitrary: s)
  case Nil
  then show ?case by simp
next
  case (Cons x xs)
  from Cons.prems(1) obtain t where t: "f x s = Inr t" "rfold f xs t = Inr s'"
    by (auto simp: result_simps)
  from Cons.prems(2,3) t(1) have "I t" by auto
  with Cons.IH [OF t(2)] Cons.prems(3) show ?case by auto
qed

text \<open>A fault no step runs into is none of the loop.\<close>

lemma rfold_avoids:
  assumes "I s" and "\<And>x s s'. x \<in> set xs \<Longrightarrow> I s \<Longrightarrow> f x s = Inr s' \<Longrightarrow> I s'"
    and "\<And>x s. x \<in> set xs \<Longrightarrow> I s \<Longrightarrow> f x s \<noteq> Inl e"
  shows "rfold f xs s \<noteq> Inl e"
  using assms
proof (induction xs arbitrary: s)
  case Nil
  then show ?case by simp
next
  case (Cons x xs)
  show ?case
  proof (cases "f x s")
    case (Inl e')
    with Cons.prems(1,3) show ?thesis by auto
  next
    case (Inr t)
    with Cons.prems have "I t" by auto
    from Cons.IH [OF this] Cons.prems(2,3) Inr show ?thesis by auto
  qed
qed

lemma rfold_map_filter:
  assumes "\<And>x s. f x s = (case h x of None \<Rightarrow> Inr s | Some y \<Rightarrow> g y s)"
  shows "rfold f xs s = rfold g (List.map_filter h xs) s"
proof (induction xs arbitrary: s)
  case Nil
  then show ?case by (simp add: List.map_filter_def)
next
  case (Cons x xs)
  then show ?case by (cases "h x"; cases "f x s") (auto simp: assms List.map_filter_def)
qed

lemma rfold_total:
  assumes "I s" and "\<And>x s. x \<in> set xs \<Longrightarrow> I s \<Longrightarrow> \<exists>s'. f x s = Inr s' \<and> I s'"
  shows "\<exists>s'. rfold f xs s = Inr s' \<and> I s'"
  using assms
proof (induction xs arbitrary: s)
  case Nil
  then show ?case by simp
next
  case (Cons x xs)
  then obtain t where "f x s = Inr t" "I t" by (meson list.set_intros(1))
  with Cons.IH [of t] Cons.prems(2) show ?case by auto
qed

subsection \<open>Lemmas on memory\<close>

lemma rd8_ok [mem_simps]: "i < length m \<Longrightarrow> rd8 m i = Inr (m ! i)"
  by (simp add: rd8_def)

lemma rd8_Inr_iff [mem_simps]: "rd8 m i = Inr b \<longleftrightarrow> i < length m \<and> b = m ! i"
  by (auto simp: rd8_def)

lemma drop_head: "drop i q = x # r \<Longrightarrow> rd8 q i = Inr x"
  unfolding rd8_def by (metis drop_eq_Nil hd_drop_conv_nth leI list.discI list.sel(1))

lemma wr8_ok [mem_simps]: "i < length m \<Longrightarrow> wr8 m i b = Inr (m[i := b])"
  by (simp add: wr8_def)

lemma rd16be_ok [mem_simps]:
  "Suc i < length m \<Longrightarrow> rd16be m i = Inr (be16 (m ! i) (m ! Suc i))"
  by (simp add: rd16be_def rd8_ok)

lemma rd32le_ok [mem_simps]:
  "i + 3 < length m \<Longrightarrow> rd32le m i = Inr (le32 (m ! i) (m ! (i + 1)) (m ! (i + 2)) (m ! (i + 3)))"
  by (simp add: rd32le_def rd8_ok)

lemma mem_read_ok [mem_simps]:
  "off + n \<le> length m \<Longrightarrow> mem_read m off n = Inr (take n (drop off m))"
  by (simp add: mem_read_def)

lemma mem_write_ok [mem_simps]:
  "off + length bs \<le> length m \<Longrightarrow>
     mem_write m off bs = Inr (take off m @ bs @ drop (off + length bs) m)"
  by (simp add: mem_write_def)

lemma mem_write_length: "mem_write m off bs = Inr m' \<Longrightarrow> length m' = length m"
  by (auto simp: mem_write_def split: if_splits)

lemma mem_read_length: "mem_read m off n = Inr bs \<Longrightarrow> length bs = n"
  by (auto simp: mem_read_def split: if_splits)

lemma c_memcpy_length: "c_memcpy dst doff src soff n = Inr m \<Longrightarrow> length m = length dst"
  by (auto simp: c_memcpy_def result_simps dest: mem_write_length)

lemma c_memcpy_ok [mem_simps]:
  assumes "soff + n \<le> length src" and "doff + n \<le> length dst"
  shows "c_memcpy dst doff src soff n =
    Inr (take doff dst @ take n (drop soff src) @ drop (doff + n) dst)"
proof -
  have "length (take n (drop soff src)) = n" using assms(1) by simp
  then show ?thesis using assms by (simp add: c_memcpy_def mem_read_def mem_write_def)
qed

lemma byte_less_256 [simp]: "unat (b :: byte) < 256"
  using unsigned_less [of b] by simp

lemma unat_be16: "unat (be16 a b) = unat a * 256 + unat b"
proof -
  have "unat a * 256 + unat b < 65536" using byte_less_256 [of a] byte_less_256 [of b] by linarith
  then show ?thesis
    by (simp add: be16_def unat_word_ariths unsigned_ucast_eq take_bit_eq_mod)
qed

lemma byte_le_255: "unat (b :: byte) \<le> 255"
  using byte_less_256 [of b] by linarith

lemma unat_le32: "unat (le32 a b c d) = unat a + 256 * (unat b + 256 * (unat c + 256 * unat d))"
proof -
  have "unat a + 256 * (unat b + 256 * (unat c + 256 * unat d)) \<le> 255 + 256 * (255 + 256 * (255 + 256 * 255))"
    by (intro add_le_mono mult_le_mono byte_le_255) auto
  moreover have "le32 a b c d = of_nat (unat a + 256 * (unat b + 256 * (unat c + 256 * unat d)))"
    by (simp add: le32_def algebra_simps)
  ultimately show ?thesis by (simp add: unsigned_of_nat take_bit_nat_eq_self del: of_nat_add of_nat_mult)
qed

subsection \<open>Lemmas on C strings\<close>

lemma cstr_append_zero [simp]: "0 \<notin> set s \<Longrightarrow> cstr (s @ 0 # r) = s"
  unfolding cstr_def by (induction s) auto

lemma terminated_append_zero [simp]: "terminated (s @ 0 # r)"
  by (simp add: terminated_def)

lemma cstr_no_zero: "0 \<notin> set (cstr p)"
  by (auto simp: cstr_def dest: set_takeWhileD)

lemma length_cstr_le: "length (cstr p) \<le> length p"
  by (simp add: cstr_def length_takeWhile_le)

lemma terminated_split: "terminated p \<Longrightarrow> \<exists>r. p = cstr p @ 0 # r"
proof (induction p)
  case Nil
  then show ?case by (simp add: terminated_def)
next
  case (Cons b p)
  then show ?case by (cases "b = 0") (auto simp: terminated_def cstr_def)
qed

lemma length_cstr_less: "terminated p \<Longrightarrow> length (cstr p) < length p"
  using terminated_split [of p] by (metis length_append less_add_same_cancel1 length_greater_0_conv list.distinct(1))

lemma c_strlen_Inr [mem_simps]: "terminated p \<Longrightarrow> c_strlen p = Inr (length (cstr p))"
  by (simp add: c_strlen_def)

lemma c_str_Inr [mem_simps]: "terminated p \<Longrightarrow> c_str p = Inr (cstr p)"
  by (simp add: c_str_def)

lemma terminated_cmem [simp]: "terminated (cmem s)"
  by (simp add: cmem_def terminated_def)

lemma cstr_cmem [simp]: "0 \<notin> set s \<Longrightarrow> cstr (cmem s) = s"
  by (simp add: cmem_def)

lemma length_cmem [simp]: "length (cmem s) = Suc (length s)"
  by (simp add: cmem_def)

lemma length_cstr_cmem: "length (cstr (cmem s)) \<le> length s"
  using length_cstr_less [of "cmem s"] by simp

lemma take_cstr: "n \<le> length (cstr p) \<Longrightarrow> take n p = take n (cstr p)"
  by (induction p arbitrary: n) (auto simp: cstr_def take_Cons split: nat.splits)

lemma cstr_in_prefix: "0 \<notin> set s \<Longrightarrow> cstr (s @ r) = s @ cstr r"
  by (induction s) (auto simp: cstr_def)

lemma cstr_append_zeros [simp]: "0 \<notin> set s \<Longrightarrow> cstr (s @ replicate n 0) = s"
proof -
  assume z: "0 \<notin> set s"
  then have "cstr s = s" unfolding cstr_def takeWhile_eq_all_conv by metis
  with z show ?thesis by (cases n) simp_all
qed

lemma terminated_append_zeros: "0 \<notin> set s \<Longrightarrow> terminated (s @ replicate n 0) \<longleftrightarrow> 0 < n"
  by (auto simp: terminated_def)

text \<open>Copying the front of a string into a zeroed buffer.\<close>

lemma memcpy_zero_buffer:
  assumes "k \<le> n" and "k \<le> length s"
  shows "c_memcpy (replicate n 0) 0 (cmem s) 0 k = Inr (take k s @ replicate (n - k) 0)"
  using assms by (subst c_memcpy_ok) (auto simp: cmem_def)

lemma c_strchr_Some_bound: "c_strchr c p = Inr (Some i) \<Longrightarrow> i < length p"
  by (induction c p arbitrary: i rule: c_strchr.induct)
     (auto simp: result_simps split: if_splits)

lemma c_strchr_hit:
  "c \<notin> set u \<Longrightarrow> 0 \<notin> set u \<Longrightarrow> c_strchr c (u @ c # r) = Inr (Some (length u))"
  by (induction u) auto

lemma c_strchr_miss:
  "c \<noteq> 0 \<Longrightarrow> c \<notin> set u \<Longrightarrow> 0 \<notin> set u \<Longrightarrow> c_strchr c (u @ 0 # r) = Inr None"
  by (induction u) auto

subsection \<open>Lemmas on lists\<close>

lemma find_ex: "x \<in> set xs \<Longrightarrow> P x \<Longrightarrow> \<exists>y. find P xs = Some y \<and> y \<in> set xs \<and> P y"
  by (induction xs) auto

lemma filter_neq_remove1:
  "distinct (map f xs) \<Longrightarrow> x \<in> set xs \<Longrightarrow> filter (\<lambda>y. f y \<noteq> f x) xs = remove1 x xs"
proof (induction xs)
  case Nil
  then show ?case by simp
next
  case (Cons y xs)
  show ?case
  proof (cases "y = x")
    case True
    with Cons.prems(1) have "\<forall>z \<in> set xs. f z \<noteq> f x" by (metis distinct.simps(2) imageI list.set_map list.simps(9))
    with True show ?thesis by (simp add: filter_id_conv)
  next
    case False
    with Cons show ?thesis by force
  qed
qed

lemma distinct_map_inj: "distinct (map f xs) \<Longrightarrow> x \<in> set xs \<Longrightarrow> y \<in> set xs \<Longrightarrow> f x = f y \<Longrightarrow> x = y"
  by (auto simp: distinct_map inj_on_def)

lemma distinct_map_concat: "distinct (map f (concat xss)) \<Longrightarrow> ys \<in> set xss \<Longrightarrow> distinct (map f ys)"
  by (induction xss) auto

lemma distinct_map_mset: "mset xs = mset ys \<Longrightarrow> distinct (map f xs) = distinct (map f ys)"
  by (metis mset_map mset_eq_imp_distinct_iff)

lemma of_nat_pred: "0 < n \<Longrightarrow> (of_nat n :: 'a :: len word) - 1 = of_nat (n - 1)"
  by (cases n) auto

lemma concat_map_mem: "x \<in> set (concat (map f bs)) \<longleftrightarrow> (\<exists>j < length bs. x \<in> set (f (bs ! j)))"
  by (auto simp: set_conv_nth [of bs])

end
