(* ===== verification/Netfilter.thy ===== *)
theory Netfilter
  imports C_Prelude
begin

text \<open>
  The network side of the daemon (\<open>nfqueue.h\<close> and \<open>nfq_send_verdict\<close> of \<open>nfqueue.c\<close>): packets
  taken from the queue, and everything sent out, as one list of events in the order of sending.
  A payload is the bytes from the packet attribute to the end of the receive buffer, as the pointer
  \<open>payload\<close> can reach them; \<open>pk_length\<close> is the length of the attribute.
  Whether the kernel accepts a netlink message and whether a raw socket can be opened, configured
  and written to are parameters.
\<close>

datatype verdict = NF_DROP | NF_ACCEPT

record packet_info =
  pk_id :: u32
  pk_payload :: "byte list"
  pk_length :: u16

text \<open>Where a raw packet is sent: port (as stored) and address of the \<open>sockaddr_in\<close>.\<close>

record sockaddr_in =
  sin_port :: "byte list"
  sin_addr :: "byte list"

datatype net_event =
    VERDICT u32 verdict
  | RAWSEND "byte list" sockaddr_in

definition nfq_send_verdict :: "bool \<Rightarrow> u32 \<Rightarrow> verdict \<Rightarrow> net_event list \<Rightarrow> net_event list result" where
  "nfq_send_verdict sendto_ok pid verdict out =
    (if sendto_ok then Inr (out @ [VERDICT pid verdict]) else Inl Exit)"

text \<open>The calls \<open>socket\<close>, \<open>setsockopt\<close> and \<open>sendto\<close> of a raw send.\<close>

record raw_env =
  socket_ok :: bool
  setsockopt_ok :: bool
  raw_sendto_ok :: bool

definition raw_send :: "raw_env \<Rightarrow> byte list \<Rightarrow> sockaddr_in \<Rightarrow> net_event list \<Rightarrow> net_event list" where
  "raw_send R packet sin out =
    (if \<not> socket_ok R then out
     else if \<not> setsockopt_ok R then out
     else if raw_sendto_ok R then out @ [RAWSEND packet sin] else out)"

text \<open>The packets a list of events gives a verdict on, in order.\<close>

fun event_verdict :: "net_event \<Rightarrow> (u32 \<times> verdict) list" where
  "event_verdict (VERDICT i v) = [(i, v)]"
| "event_verdict (RAWSEND p s) = []"

definition verdicts :: "net_event list \<Rightarrow> (u32 \<times> verdict) list" where
  "verdicts out = concat (map event_verdict out)"

definition verdict_ids :: "net_event list \<Rightarrow> u32 list" where
  "verdict_ids out = map fst (verdicts out)"

lemma verdicts_append [simp]: "verdicts (a @ b) = verdicts a @ verdicts b"
  by (simp add: verdicts_def)

lemma verdict_ids_append [simp]: "verdict_ids (a @ b) = verdict_ids a @ verdict_ids b"
  by (simp add: verdict_ids_def)

lemma verdicts_single [simp]: "verdicts [VERDICT i v] = [(i, v)]" "verdicts [RAWSEND p s] = []" "verdicts [] = []"
  by (simp_all add: verdicts_def)

lemma verdict_ids_single [simp]:
  "verdict_ids [VERDICT i v] = [i]" "verdict_ids [RAWSEND p s] = []" "verdict_ids [] = []"
  by (simp_all add: verdict_ids_def)

lemma raw_send_verdicts [simp]:
  "verdicts (raw_send R p s out) = verdicts out" "verdict_ids (raw_send R p s out) = verdict_ids out"
  by (simp_all add: raw_send_def)

lemma nfq_send_verdict_Inr: "nfq_send_verdict ok i v out = Inr out' \<longleftrightarrow> ok \<and> out' = out @ [VERDICT i v]"
  by (auto simp: nfq_send_verdict_def)

subsection \<open>Fields of the IP, TCP and UDP headers\<close>

definition ip_ihl :: "byte list \<Rightarrow> nat result" where
  "ip_ihl p = rbind (rd8 p 0) (\<lambda>b. Inr (unat (b AND 0x0F)))"

definition ip_protocol :: "byte list \<Rightarrow> byte result" where
  "ip_protocol p = rd8 p 9"

definition ip_tot_len :: "byte list \<Rightarrow> u16 result" where
  "ip_tot_len p = rd16be p 2"

text \<open>Source and destination address, as the 32-bit values of the host.\<close>

definition ip_saddr :: "byte list \<Rightarrow> u32 result" where
  "ip_saddr p = rd32le p 12"

definition ip_daddr :: "byte list \<Rightarrow> u32 result" where
  "ip_daddr p = rd32le p 16"

text \<open>Source and destination port: TCP and UDP headers start alike.\<close>

definition l4_sport :: "byte list \<Rightarrow> nat \<Rightarrow> u16 result" where
  "l4_sport p off = rd16be p off"

definition l4_dport :: "byte list \<Rightarrow> nat \<Rightarrow> u16 result" where
  "l4_dport p off = rd16be p (off + 2)"

text \<open>The data offset of a TCP header, in bytes.\<close>

definition tcp_off :: "byte list \<Rightarrow> nat \<Rightarrow> nat result" where
  "tcp_off p off = rbind (rd8 p (off + 12)) (\<lambda>b. Inr (4 * unat (drop_bit 4 b)))"

lemma ip_ihl_bound: "ip_ihl p = Inr n \<Longrightarrow> n < 16"
proof -
  have "unat (b AND 0x0F) < 16" for b :: byte
  proof -
    have "b AND 0x0F = take_bit 4 b" by (simp add: take_bit_eq_mask mask_eq_exp_minus_1)
    then show ?thesis by (simp add: take_bit_eq_mod unat_mod)
  qed
  then show "ip_ihl p = Inr n \<Longrightarrow> n < 16" by (auto simp: ip_ihl_def result_simps)
qed

end
