(* ===== verification/Block.thy ===== *)
theory Block
  imports Netfilter
begin

text \<open>
  \<open>block.c\<close>: the two packets the daemon forges to block a connection, a DNS answer that points to
  127.0.0.1 and a TCP reset, byte for byte, and the Internet checksum.  Multi-byte fields that the
  source assigns without \<open>htons\<close> or \<open>htonl\<close> are stored in host order, least significant byte
  first.

  The lemmas show that the checksum is that of RFC 1071, that both packets go back to the sender
  with addresses and ports exchanged and valid checksums, and for which question names the
  512-byte buffer is too small.
\<close>

subsection \<open>The checksum\<close>

definition host16 :: "u16 \<Rightarrow> byte list" where
  "host16 w = [ucast w, ucast (drop_bit 8 w)]"

definition htons_bytes :: "u16 \<Rightarrow> byte list" where
  "htons_bytes w = [ucast (drop_bit 8 w), ucast w]"

definition host32 :: "u32 \<Rightarrow> byte list" where
  "host32 w = [ucast w, ucast (drop_bit 8 w), ucast (drop_bit 16 w), ucast (drop_bit 24 w)]"

text \<open>The loop of \<open>checksum\<close>; an odd last byte is read as part of a 16-bit word.\<close>

fun checksum_loop :: "byte list \<Rightarrow> nat \<Rightarrow> u64 \<Rightarrow> u64 result" where
  "checksum_loop (a # b # rest) sz cksum =
     (if 1 < sz then checksum_loop rest (sz - 2) (cksum + (ucast a + 256 * ucast b))
      else if 0 < sz then Inr (cksum + ucast a) else Inr cksum)"
| "checksum_loop m sz cksum = (if 0 < sz then Inl OobRead else Inr cksum)"

definition checksum :: "byte list \<Rightarrow> nat \<Rightarrow> u16 result" where
  "checksum buffer sz = rbind (checksum_loop buffer sz 0) (\<lambda>cksum.
     let cksum = drop_bit 16 cksum + (cksum AND 0xffff);
         cksum = cksum + drop_bit 16 cksum
     in Inr (ucast (NOT cksum)))"

subsection \<open>The DNS answer\<close>

definition dns_answer_bytes :: "byte list" where
  "dns_answer_bytes = htons_bytes 0x0001 @ htons_bytes 0x0001 @ [0, 0, 0, 10] @ htons_bytes 4 @ [127, 0, 0, 1]"

definition dns_answer_send :: "raw_env \<Rightarrow> byte list \<Rightarrow> net_event list \<Rightarrow> net_event list result" where
  "dns_answer_send R packet out =
     rbind (ip_ihl packet) (\<lambda>ihl.
     let udp = ihl * 4; dns = ihl * 4 + 8; query = ihl * 4 + 8 + 12 in
     rbind (c_strlen (drop query packet)) (\<lambda>len.
     let query_length = len + 1; ptr = 20 + 8 + 12 in
     rbind (c_memcpy (replicate 512 0) ptr packet query (query_length + 4)) (\<lambda>buffer.
     let ptr = ptr + query_length + 4 in
     rbind (c_memcpy buffer ptr packet query query_length) (\<lambda>buffer.
     let ptr = ptr + query_length in
     rbind (mem_write buffer ptr dns_answer_bytes) (\<lambda>buffer.
     let ptr = ptr + 14; tot_len = of_nat ptr :: u16 in
     rbind (mem_read packet 16 4) (\<lambda>daddr.
     rbind (mem_read packet 12 4) (\<lambda>saddr.
     rbind (mem_write buffer 0 ([0x45, 0] @ htons_bytes tot_len @ [0, 0, 0, 0, 64, 17, 0, 0] @ daddr @ saddr)) (\<lambda>buffer.
     rbind (checksum buffer 20) (\<lambda>check.
     rbind (mem_write buffer 10 (host16 check)) (\<lambda>buffer.
     rbind (mem_read packet (udp + 2) 2) (\<lambda>uh_dport.
     rbind (mem_read packet udp 2) (\<lambda>uh_sport.
     let ulen = of_nat (8 + 12 + (query_length + 4) + (query_length + 14)) :: u16 in
     rbind (mem_write buffer 20 (uh_dport @ uh_sport @ htons_bytes ulen @ [0, 0])) (\<lambda>buffer.
     rbind (mem_read packet dns 2) (\<lambda>id.
     rbind (mem_write buffer 28 (id @ htons_bytes 0x8180 @ htons_bytes 1 @ htons_bytes 1 @ [0, 0, 0, 0])) (\<lambda>buffer.
     rbind (mem_read buffer 0 (unat tot_len)) (\<lambda>data.
       Inr (raw_send R data \<lparr>sin_port = uh_sport, sin_addr = saddr\<rparr> out)))))))))))))))))"

subsection \<open>The TCP reset\<close>

definition tcp_rst_send :: "raw_env \<Rightarrow> byte list \<Rightarrow> net_event list \<Rightarrow> net_event list result" where
  "tcp_rst_send R packet out =
     rbind (ip_ihl packet) (\<lambda>ihl.
     let tcp = ihl * 4; tot_len = 20 + 20 in
     rbind (mem_read packet tcp 2) (\<lambda>th_sport.
     rbind (mem_read packet 12 4) (\<lambda>saddr.
     rbind (mem_read packet 16 4) (\<lambda>daddr.
     rbind (mem_write (replicate 64 0) 0
        ([0x45, 0] @ host16 (of_nat tot_len) @ [0, 0, 0, 0, 255, 6, 0, 0] @ daddr @ saddr)) (\<lambda>datagram.
     rbind (checksum datagram tot_len) (\<lambda>check.
     rbind (mem_write datagram 10 (host16 check)) (\<lambda>datagram.
     rbind (mem_read packet (tcp + 2) 2) (\<lambda>th_dport.
     rbind (mem_read packet (tcp + 8) 4) (\<lambda>ack_seq.
     rbind (rd32le packet (tcp + 4)) (\<lambda>seq.
     rbind (mem_write datagram 20 (th_dport @ th_sport @ ack_seq @ host32 (seq + 1)
        @ [0x50, 0x04] @ htons_bytes 5840 @ [0, 0, 0, 0])) (\<lambda>datagram.
     rbind (mem_write (replicate 64 0) 0 (daddr @ saddr @ [0, 6] @ htons_bytes 20)) (\<lambda>pseudogram.
     rbind (c_memcpy pseudogram 12 datagram 20 20) (\<lambda>pseudogram.
     rbind (checksum pseudogram (12 + 20)) (\<lambda>check.
     rbind (mem_write datagram 36 (host16 check)) (\<lambda>datagram.
     rbind (mem_read datagram 0 tot_len) (\<lambda>data.
       Inr (raw_send R data \<lparr>sin_port = th_sport, sin_addr = saddr\<rparr> out)))))))))))))))))"

subsection \<open>The ones' complement sum\<close>

fun sum16 :: "byte list \<Rightarrow> nat" where
  "sum16 (a # b # rest) = unat a + 256 * unat b + sum16 rest"
| "sum16 m = 0"

lemma sum16_bound: "even (length m) \<Longrightarrow> 2 * sum16 m \<le> 65535 * length m"
proof (induction m rule: sum16.induct)
  case (1 a b rest)
  have "unat a \<le> 255" "unat b \<le> 255" using byte_less_256 [of a] byte_less_256 [of b] by linarith+
  then have "2 * (unat a + 256 * unat b) \<le> 2 * (255 + 256 * 255)" by (intro mult_le_mono add_le_mono) auto
  with 1 show ?case by simp
qed auto

lemma sum16_append: "even (length a) \<Longrightarrow> sum16 (a @ b) = sum16 a + sum16 b"
  by (induction a rule: sum16.induct) auto

lemma checksum_loop_sum:
  "even (length m) \<Longrightarrow> checksum_loop (m @ r) (length m) c = Inr (c + of_nat (sum16 m))"
proof (induction m arbitrary: c rule: sum16.induct)
  case (1 a b rest)
  have "ucast a + 256 * ucast b = (of_nat (unat a + 256 * unat b) :: u64)" by simp
  with 1 show ?case by (simp add: add.assoc)
next
  case "2_1"
  then show ?case by (cases r rule: sum16.cases) auto
qed auto

lemma unat_host16: "unat (ucast w :: byte) + 256 * unat (ucast (drop_bit 8 w) :: byte) = unat (w :: u16)"
proof -
  have "unat w < 65536" using unsigned_less [of w] by simp
  then have "unat w div 256 < 256" by (simp add: less_mult_imp_div_less)
  then show ?thesis
    by (simp add: unsigned_ucast_eq take_bit_eq_mod drop_bit_eq_div unat_div)
qed

lemma sum16_host16: "sum16 (host16 w) = unat w"
  using unat_host16 [of w] by (simp add: host16_def)

lemma ucast_not16: "ucast (NOT c :: u64) = (NOT (ucast c) :: u16)"
  by (rule bit_word_eqI) (auto simp: bit_simps)

lemma unat_not16: "unat (NOT w :: u16) = 65535 - unat w"
proof -
  have "NOT w = (-1) - w" by (simp add: not_eq_complement)
  then show ?thesis by (simp add: unat_sub unsigned_minus_1_eq_mask mask_eq_exp_minus_1)
qed

lemma unat_low16: "unat (c AND 0xffff :: u64) = unat c mod 65536"
proof -
  have "c AND 0xffff = take_bit 16 c" by (simp add: take_bit_eq_mask mask_eq_exp_minus_1)
  then show ?thesis by (simp add: take_bit_eq_mod unat_mod)
qed

lemma unat_high16: "unat (drop_bit 16 c :: u64) = unat c div 65536"
  by (simp add: drop_bit_eq_div unat_div)

lemma unat_ucast16: "unat (ucast (c :: u64) :: u16) = unat c mod 65536"
  by (simp add: unsigned_ucast_eq take_bit_eq_mod)

lemma unat_of_nat64: "s < 18446744073709551616 \<Longrightarrow> unat (of_nat s :: u64) = s"
  by (simp add: unsigned_of_nat take_bit_nat_eq_self)

text \<open>Two folding steps are enough for the lengths of a packet.\<close>

lemma fold_carry_nat:
  fixes s :: nat
  assumes "s < 4294967296"
  defines "t \<equiv> s div 65536 + s mod 65536"
  shows "(s + (65535 - (t + t div 65536) mod 65536)) mod 65535 = 0" and "t < 131072"
proof -
  have "s div 65536 < 65536" using assms(1) by (simp add: less_mult_imp_div_less)
  then have t: "t \<le> 131070" unfolding t_def using mod_less_divisor [of 65536 s] by linarith
  then show "t < 131072" by simp
  have s: "s = 65535 * (s div 65536) + t" 
    using div_mult_mod_eq [of s 65536] unfolding t_def by linarith
  have "\<exists>k. t + (65535 - (t + t div 65536) mod 65536) = 65535 * k"
  proof (cases "t < 65536")
    case True
    then show ?thesis by (intro exI [of _ 1]) simp
  next
    case False
    with t have "t div 65536 = 1" "(t + 1) mod 65536 = t - 65535" by (auto simp: mod_if)
    with False t show ?thesis by (intro exI [of _ 2]) simp
  qed
  then obtain k where k: "t + (65535 - (t + t div 65536) mod 65536) = 65535 * k" by blast
  have "s + (65535 - (t + t div 65536) mod 65536) = 65535 * (s div 65536 + k)"
    using s k by (simp add: algebra_simps)
  then show "(s + (65535 - (t + t div 65536) mod 65536)) mod 65535 = 0" by simp
qed

lemma fold_carry:
  assumes "s < 4294967296"
  shows "(s + unat (ucast (NOT (drop_bit 16 (of_nat s) + (of_nat s AND 0xffff)
     + drop_bit 16 (drop_bit 16 (of_nat s) + (of_nat s AND 0xffff)) :: u64)) :: u16)) mod 65535 = 0"
proof -
  let ?t = "s div 65536 + s mod 65536"
  let ?c = "drop_bit 16 (of_nat s) + (of_nat s AND 0xffff) :: u64"
  have u: "unat (of_nat s :: u64) = s" using assms by (simp add: unat_of_nat64)
  have lt: "?t < 131072" using fold_carry_nat(2) [OF assms] .
  have "unat ?c = ?t" using lt by (simp add: unat_word_ariths unat_high16 unat_low16 u)
  moreover from this have "unat (?c + drop_bit 16 ?c) = ?t + ?t div 65536"
    using lt by (subst unat_word_ariths) (simp add: unat_high16)
  ultimately show ?thesis
    using fold_carry_nat(1) [OF assms] by (simp add: ucast_not16 unat_not16 unat_ucast16)
qed

lemma checksum_correct:
  assumes "even (length m)" and "length m \<le> 65536"
  shows "\<exists>c. checksum (m @ r) (length m) = Inr c \<and> (sum16 m + unat c) mod 65535 = 0"
proof -
  have "sum16 m < 4294967296" using sum16_bound [OF assms(1)] assms(2) by linarith
  from fold_carry [OF this] show ?thesis
    using assms(1) by (simp add: checksum_def checksum_loop_sum Let_def)
qed

subsection \<open>Buffers as sequences of fields\<close>

lemma mem_write_at: "length a = off \<Longrightarrow> length b' = length b \<Longrightarrow> mem_write (a @ b @ c) off b' = Inr (a @ b' @ c)"
  by (simp add: mem_write_def)

lemma mem_write_zeros:
  assumes "off + length b \<le> n"
  shows "mem_write (replicate n 0) off b = Inr (replicate off 0 @ b @ replicate (n - off - length b) 0)"
  using assms by (simp add: mem_write_def min_def)

lemma c_memcpy_at:
  "length a = off \<Longrightarrow> length b = n \<Longrightarrow> soff + n \<le> length src \<Longrightarrow>
   c_memcpy (a @ b @ c) off src soff n = Inr (a @ take n (drop soff src) @ c)"
  by (simp add: c_memcpy_def mem_read_def mem_write_at)

lemma length_field [simp]: "off + n \<le> length (p :: byte list) \<Longrightarrow> length (take n (drop off p)) = n"
  by simp

lemma length_wire [simp]: "length (host16 w) = 2" "length (htons_bytes w) = 2" "length (host32 v) = 4"
  "length dns_answer_bytes = 14"
  by (simp_all add: host16_def htons_bytes_def host32_def dns_answer_bytes_def)

text \<open>The IP header of a forged packet: the fields before and after the checksum.\<close>

definition ip_front :: "byte list \<Rightarrow> byte \<Rightarrow> byte \<Rightarrow> byte list" where
  "ip_front tot_len ttl proto = [0x45, 0] @ tot_len @ [0, 0, 0, 0, ttl, proto]"

definition ip_back :: "byte list \<Rightarrow> byte list" where
  "ip_back packet = take 4 (drop 16 packet) @ take 4 (drop 12 packet)"

lemma header_checksum:
  assumes "even (length a)" and "even (length b)" and "length a + length b \<le> 65534"
  shows "\<exists>c. checksum (a @ [0, 0] @ b @ r) (length a + 2 + length b) = Inr c
     \<and> sum16 (a @ host16 c @ b) mod 65535 = 0"
proof -
  have e: "even (length (a @ [0, 0] @ b))" "length (a @ [0, 0] @ b) \<le> 65536" using assms by auto
  from checksum_correct [OF e, of r] obtain c where c: "checksum (a @ [0, 0] @ b @ r) (length a + 2 + length b) = Inr c"
    "(sum16 (a @ [0, 0] @ b) + unat c) mod 65535 = 0" by auto
  moreover have "sum16 (a @ [0, 0] @ b) + unat c = sum16 (a @ host16 c @ b)"
    using assms(1) sum16_host16 [of c] by (simp add: sum16_append)
  ultimately show ?thesis by auto
qed

text \<open>The forged answer: its headers, the question copied from the query, and the answer record.\<close>

definition dns_reply :: "byte list \<Rightarrow> nat \<Rightarrow> nat \<Rightarrow> u16 \<Rightarrow> byte list" where
  "dns_reply packet udp query_length check =
     ip_front (htons_bytes (of_nat (58 + 2 * query_length))) 64 17 @ host16 check @ ip_back packet
     @ take 2 (drop (udp + 2) packet) @ take 2 (drop udp packet) @ htons_bytes (of_nat (38 + 2 * query_length)) @ [0, 0]
     @ take 2 (drop (udp + 8) packet) @ htons_bytes 0x8180 @ htons_bytes 1 @ htons_bytes 1 @ [0, 0, 0, 0]
     @ take (query_length + 4) (drop (udp + 20) packet)
     @ take query_length (drop (udp + 20) packet) @ dns_answer_bytes"

lemma dns_reply_length:
  "udp + 24 + n \<le> length packet \<Longrightarrow> length (dns_reply packet udp n c) = 58 + 2 * n"
  by (simp add: dns_reply_def ip_front_def ip_back_def)

text \<open>The question, its copy and the answer record are written after the headers.\<close>

lemma dns_payload_written:
  assumes l: "q + n + 4 \<le> length packet" and n: "n \<le> 227"
  defines "q4 \<equiv> take (n + 4) (drop q packet)" and "qn \<equiv> take n (drop q packet)"
    and "Z \<equiv> replicate (454 - 2 * n) 0"
  shows "c_memcpy (replicate 512 0) 40 packet q (n + 4)
       = Inr (replicate 40 0 @ q4 @ replicate n 0 @ replicate 14 0 @ Z)"
    and "c_memcpy (replicate 40 0 @ q4 @ replicate n 0 @ replicate 14 0 @ Z) (44 + n) packet q n
       = Inr (replicate 40 0 @ q4 @ qn @ replicate 14 0 @ Z)"
    and "mem_write (replicate 40 0 @ q4 @ qn @ replicate 14 0 @ Z) (44 + 2 * n) dns_answer_bytes
       = Inr (replicate 40 0 @ q4 @ qn @ dns_answer_bytes @ Z)"
proof -
  have len: "length q4 = n + 4" "length qn = n" using l by (simp_all add: q4_def qn_def)
  have split: "replicate 512 (0 :: byte) = replicate 40 0 @ replicate (n + 4) 0 @ replicate n 0 @ replicate 14 0 @ Z"
    using n by (simp add: Z_def flip: replicate_add)
  show "c_memcpy (replicate 512 0) 40 packet q (n + 4)
       = Inr (replicate 40 0 @ q4 @ replicate n 0 @ replicate 14 0 @ Z)"
    unfolding split q4_def using l by (intro c_memcpy_at) auto
  show "c_memcpy (replicate 40 0 @ q4 @ replicate n 0 @ replicate 14 0 @ Z) (44 + n) packet q n
       = Inr (replicate 40 0 @ q4 @ qn @ replicate 14 0 @ Z)"
    using c_memcpy_at [of "replicate 40 0 @ q4" "44 + n" "replicate n 0" n q packet "replicate 14 0 @ Z"] l len
    by (simp add: qn_def)
  show "mem_write (replicate 40 0 @ q4 @ qn @ replicate 14 0 @ Z) (44 + 2 * n) dns_answer_bytes
       = Inr (replicate 40 0 @ q4 @ qn @ dns_answer_bytes @ Z)"
    using mem_write_at [of "replicate 40 0 @ q4 @ qn" "44 + 2 * n" dns_answer_bytes "replicate 14 0" Z] len by simp
qed

text \<open>The three headers are written in front of them; the checksum makes the IP header sum to zero.\<close>

lemma dns_headers_written:
  assumes "length f = 10" and "length b = 8" and "length u = 8" and "length d = 12"
  shows "\<exists>c. mem_write (replicate 40 0 @ r) 0 (f @ [0, 0] @ b) = Inr (f @ [0, 0] @ b @ replicate 8 0 @ replicate 12 0 @ r)
    \<and> checksum (f @ [0, 0] @ b @ replicate 8 0 @ replicate 12 0 @ r) 20 = Inr c
    \<and> sum16 (f @ host16 c @ b) mod 65535 = 0
    \<and> mem_write (f @ [0, 0] @ b @ replicate 8 0 @ replicate 12 0 @ r) 10 (host16 c)
        = Inr (f @ host16 c @ b @ replicate 8 0 @ replicate 12 0 @ r)
    \<and> mem_write (f @ host16 c @ b @ replicate 8 0 @ replicate 12 0 @ r) 20 u = Inr (f @ host16 c @ b @ u @ replicate 12 0 @ r)
    \<and> mem_write (f @ host16 c @ b @ u @ replicate 12 0 @ r) 28 d = Inr (f @ host16 c @ b @ u @ d @ r)"
proof -
  let ?U = "replicate 8 (0 :: byte)" and ?D = "replicate 12 (0 :: byte)"
  have a: "replicate 40 (0 :: byte) = replicate 20 0 @ ?U @ ?D" by (simp flip: replicate_add)
  have 1: "mem_write (replicate 40 0 @ r) 0 (f @ [0, 0] @ b) = Inr (f @ [0, 0] @ b @ ?U @ ?D @ r)"
    unfolding a using mem_write_at [of "[]" 0 "f @ [0, 0] @ b" "replicate 20 0" "?U @ ?D @ r"] assms by simp
  from header_checksum [of f b "?U @ ?D @ r"] assms obtain c where
    c: "checksum (f @ [0, 0] @ b @ ?U @ ?D @ r) 20 = Inr c" "sum16 (f @ host16 c @ b) mod 65535 = 0" by auto
  have 2: "mem_write (f @ [0, 0] @ b @ ?U @ ?D @ r) 10 (host16 c) = Inr (f @ host16 c @ b @ ?U @ ?D @ r)"
    using assms by (intro mem_write_at) auto
  have 3: "mem_write (f @ host16 c @ b @ ?U @ ?D @ r) 20 u = Inr (f @ host16 c @ b @ u @ ?D @ r)"
    using mem_write_at [of "f @ host16 c @ b" 20 u ?U "?D @ r"] assms by simp
  have 4: "mem_write (f @ host16 c @ b @ u @ ?D @ r) 28 d = Inr (f @ host16 c @ b @ u @ d @ r)"
    using mem_write_at [of "f @ host16 c @ b @ u" 28 d ?D r] assms by simp
  show ?thesis by (intro exI [of _ c] conjI 1 c 2 3 4)
qed

lemma dns_answer_send_reply:
  assumes ihl: "ip_ihl packet = Inr ihl" and t: "terminated (drop (ihl * 4 + 20) packet)"
    and n: "n = length (cstr (drop (ihl * 4 + 20) packet)) + 1" "n \<le> 227"
    and l: "ihl * 4 + 24 + n \<le> length packet"
  shows "\<exists>c. dns_answer_send R packet out = Inr (raw_send R (dns_reply packet (ihl * 4) n c)
       \<lparr>sin_port = take 2 (drop (ihl * 4) packet), sin_addr = take 4 (drop 12 packet)\<rparr> out)
     \<and> sum16 (take 20 (dns_reply packet (ihl * 4) n c)) mod 65535 = 0"
proof -
  let ?o = "ihl * 4"
  let ?q4 = "take (n + 4) (drop (?o + 20) packet)" and ?q = "take n (drop (?o + 20) packet)"
  let ?Z = "replicate (454 - 2 * n) (0 :: byte)"
  let ?f = "ip_front (htons_bytes (of_nat (58 + 2 * n))) 64 17" and ?b = "ip_back packet"
  let ?u = "take 2 (drop (?o + 2) packet) @ take 2 (drop ?o packet) @ htons_bytes (of_nat (38 + 2 * n)) @ [0, 0]"
  let ?d = "take 2 (drop (?o + 8) packet) @ htons_bytes 0x8180 @ htons_bytes 1 @ htons_bytes 1 @ [0, 0, 0, 0]"
  let ?tail = "?q4 @ ?q @ dns_answer_bytes @ ?Z"
  have "?o + 20 + n + 4 \<le> length packet" using l by simp
  note w = dns_payload_written [OF this n(2)]
  have len: "length ?f = 10" "length ?b = 8" "length ?u = 8" "length ?d = 12" using l by (simp_all add: ip_front_def ip_back_def)
  from dns_headers_written [OF len, of ?tail] obtain c where
    c: "mem_write (replicate 40 0 @ ?tail) 0 (?f @ [0, 0] @ ?b) = Inr (?f @ [0, 0] @ ?b @ replicate 8 0 @ replicate 12 0 @ ?tail)"
    "checksum (?f @ [0, 0] @ ?b @ replicate 8 0 @ replicate 12 0 @ ?tail) 20 = Inr c"
    "mem_write (?f @ [0, 0] @ ?b @ replicate 8 0 @ replicate 12 0 @ ?tail) 10 (host16 c) = Inr (?f @ host16 c @ ?b @ replicate 8 0 @ replicate 12 0 @ ?tail)"
    "mem_write (?f @ host16 c @ ?b @ replicate 8 0 @ replicate 12 0 @ ?tail) 20 ?u = Inr (?f @ host16 c @ ?b @ ?u @ replicate 12 0 @ ?tail)"
    "mem_write (?f @ host16 c @ ?b @ ?u @ replicate 12 0 @ ?tail) 28 ?d = Inr (?f @ host16 c @ ?b @ ?u @ ?d @ ?tail)"
    and sum: "sum16 (?f @ host16 c @ ?b) mod 65535 = 0" by metis
  have r: "?f @ host16 c @ ?b @ ?u @ ?d @ ?tail = dns_reply packet ?o n c @ ?Z"
    by (simp add: dns_reply_def add.commute)
  have rd: "mem_read (dns_reply packet ?o n c @ ?Z) 0 (58 + 2 * n) = Inr (dns_reply packet ?o n c)"
    "mem_read packet 16 4 = Inr (take 4 (drop 16 packet))" "mem_read packet 12 4 = Inr (take 4 (drop 12 packet))"
    "mem_read packet (?o + 2) 2 = Inr (take 2 (drop (?o + 2) packet))" "mem_read packet ?o 2 = Inr (take 2 (drop ?o packet))"
    "mem_read packet (?o + 8) 2 = Inr (take 2 (drop (?o + 8) packet))"
    using dns_reply_length [of ?o n packet c] l by (simp_all add: mem_read_def)
  have tl: "unat (of_nat (58 + 2 * n) :: u16) = 58 + 2 * n" using n(2) by (subst unsigned_of_nat) (simp add: take_bit_nat_eq_self)
  have p: "20 + 8 + 12 = (40 :: nat)" "?o + 8 + 12 = ?o + 20" "40 + n + 4 = 44 + n" "44 + n + n = 44 + 2 * n"
    "44 + 2 * n + 14 = 58 + 2 * n" "8 + 12 + (n + 4) + (n + 14) = 38 + 2 * n" by simp_all
  have h: "[0x45, 0] @ htons_bytes (of_nat (58 + 2 * n)) @ [0, 0, 0, 0, 64, 17, 0, 0] @ take 4 (drop 16 packet) @ take 4 (drop 12 packet)
      = ?f @ [0, 0] @ ?b" by (simp add: ip_front_def ip_back_def)
  have "dns_answer_send R packet out = Inr (raw_send R (dns_reply packet ?o n c)
       \<lparr>sin_port = take 2 (drop ?o packet), sin_addr = take 4 (drop 12 packet)\<rparr> out)"
    unfolding dns_answer_send_def Let_def ihl rbind.simps p(1,2) c_strlen_Inr [OF t] n(1) [symmetric]
      w(1) p(3) w(2) p(4) w(3) p(5,6) rd(2-6) h c r tl rd(1) ..
  moreover have "take 20 (dns_reply packet ?o n c) = ?f @ host16 c @ ?b" using len by (simp add: dns_reply_def)
  ultimately show ?thesis using sum by auto
qed

text \<open>A question name of more than 227 bytes on the wire does not fit.\<close>

lemma dns_answer_send_overflow:
  assumes ihl: "ip_ihl packet = Inr ihl" and t: "terminated (drop (ihl * 4 + 20) packet)"
    and n: "n = length (cstr (drop (ihl * 4 + 20) packet)) + 1" "227 < n"
    and l: "ihl * 4 + 24 + n \<le> length packet"
  shows "dns_answer_send R packet out = Inl OobWrite"
proof -
  let ?q = "ihl * 4 + 20"
  have p: "20 + 8 + 12 = (40 :: nat)" "ihl * 4 + 8 + 12 = ?q" by simp_all
  have "rbind (c_memcpy (replicate 512 0) 40 packet ?q (n + 4)) (\<lambda>b. rbind (c_memcpy b (40 + n + 4) packet ?q n) (\<lambda>b.
      rbind (mem_write b (40 + n + 4 + n) dns_answer_bytes) f)) = Inl OobWrite" for f :: "byte list \<Rightarrow> net_event list result"
    using l n(2) by (auto simp: c_memcpy_def mem_read_def mem_write_def)
  then show ?thesis
    unfolding dns_answer_send_def Let_def ihl rbind.simps p c_strlen_Inr [OF t] n(1) [symmetric] .
qed

text \<open>The forged reset: its TCP header and the pseudo header its checksum covers.\<close>

definition rst_tcp_front :: "byte list \<Rightarrow> nat \<Rightarrow> byte list" where
  "rst_tcp_front packet tcp = take 2 (drop (tcp + 2) packet) @ take 2 (drop tcp packet) @ take 4 (drop (tcp + 8) packet)
     @ host32 (le32 (packet ! (tcp + 4)) (packet ! (tcp + 5)) (packet ! (tcp + 6)) (packet ! (tcp + 7)) + 1)
     @ [0x50, 0x04] @ htons_bytes 5840"

definition rst_pseudo :: "byte list \<Rightarrow> byte list" where
  "rst_pseudo packet = take 4 (drop 16 packet) @ take 4 (drop 12 packet) @ [0, 6] @ htons_bytes 20"

definition rst_packet :: "byte list \<Rightarrow> nat \<Rightarrow> u16 \<Rightarrow> u16 \<Rightarrow> byte list" where
  "rst_packet packet tcp check tcp_check =
     ip_front (host16 40) 255 6 @ host16 check @ ip_back packet @ rst_tcp_front packet tcp @ host16 tcp_check @ [0, 0]"

lemma rst_ip_written:
  assumes "length f = 10" and "length b = 8"
  shows "\<exists>c. mem_write (replicate 64 0) 0 (f @ [0, 0] @ b) = Inr (f @ [0, 0] @ b @ replicate 20 0 @ replicate 24 0)
    \<and> checksum (f @ [0, 0] @ b @ replicate 20 0 @ replicate 24 0) 40 = Inr c
    \<and> sum16 (f @ host16 c @ b) mod 65535 = 0
    \<and> mem_write (f @ [0, 0] @ b @ replicate 20 0 @ replicate 24 0) 10 (host16 c)
        = Inr (f @ host16 c @ b @ replicate 20 0 @ replicate 24 0)"
proof -
  let ?Z = "replicate 24 (0 :: byte)" and ?z20 = "replicate 20 (0 :: byte)"
  have s: "replicate 64 (0 :: byte) = ?z20 @ ?z20 @ ?Z" by (simp flip: replicate_add)
  have 1: "mem_write (replicate 64 0) 0 (f @ [0, 0] @ b) = Inr (f @ [0, 0] @ b @ ?z20 @ ?Z)"
    unfolding s using mem_write_at [of "[]" 0 "f @ [0, 0] @ b" ?z20 "?z20 @ ?Z"] assms by simp
  from header_checksum [of f "b @ ?z20" ?Z] assms obtain c where c: "checksum (f @ [0, 0] @ b @ ?z20 @ ?Z) 40 = Inr c"
    "sum16 (f @ host16 c @ b @ ?z20) mod 65535 = 0" by auto
  have "sum16 (replicate (2 * k) 0) = 0" for k by (induction k) auto
  from this [of 10] have "sum16 (f @ host16 c @ b @ ?z20) = sum16 (f @ host16 c @ b)"
    using sum16_append [of "f @ host16 c @ b" ?z20] assms by simp
  with c have c2: "sum16 (f @ host16 c @ b) mod 65535 = 0" by simp
  have 2: "mem_write (f @ [0, 0] @ b @ ?z20 @ ?Z) 10 (host16 c) = Inr (f @ host16 c @ b @ ?z20 @ ?Z)"
    using assms by (intro mem_write_at) auto
  show ?thesis by (intro exI [of _ c] conjI 1 c(1) c2 2)
qed

lemma rst_tcp_written:
  assumes "length h = 20" and "length t = 16" and "length p = 12"
  defines "tcp \<equiv> t @ [0, 0] @ [0, 0]"
  shows "\<exists>c. mem_write (h @ replicate 20 0 @ replicate 24 0) 20 tcp = Inr (h @ tcp @ replicate 24 0)
    \<and> mem_write (replicate 64 0) 0 p = Inr (p @ replicate 20 0 @ replicate 32 0)
    \<and> c_memcpy (p @ replicate 20 0 @ replicate 32 0) 12 (h @ tcp @ replicate 24 0) 20 20 = Inr (p @ tcp @ replicate 32 0)
    \<and> checksum (p @ tcp @ replicate 32 0) 32 = Inr c
    \<and> sum16 (p @ t @ host16 c @ [0, 0]) mod 65535 = 0
    \<and> mem_write (h @ tcp @ replicate 24 0) 36 (host16 c) = Inr (h @ t @ host16 c @ [0, 0] @ replicate 24 0)"
proof -
  let ?Z = "replicate 24 (0 :: byte)" and ?z20 = "replicate 20 (0 :: byte)"
  have s: "replicate 64 (0 :: byte) = replicate 12 0 @ ?z20 @ replicate 32 0" by (simp flip: replicate_add)
  have 1: "mem_write (h @ ?z20 @ ?Z) 20 tcp = Inr (h @ tcp @ ?Z)"
    using assms by (intro mem_write_at) auto
  have 2: "mem_write (replicate 64 0) 0 p = Inr (p @ ?z20 @ replicate 32 0)"
    unfolding s using mem_write_at [of "[]" 0 p "replicate 12 0" "?z20 @ replicate 32 0"] assms by simp
  have 3: "c_memcpy (p @ ?z20 @ replicate 32 0) 12 (h @ tcp @ ?Z) 20 20 = Inr (p @ tcp @ replicate 32 0)"
    using c_memcpy_at [of p 12 ?z20 20 20 "h @ tcp @ ?Z" "replicate 32 0"] assms by simp
  from header_checksum [of "p @ t" "[0, 0]" "replicate 32 0"] assms obtain c where
    c: "checksum (p @ tcp @ replicate 32 0) 32 = Inr c" "sum16 (p @ t @ host16 c @ [0, 0]) mod 65535 = 0" by auto
  have 4: "mem_write (h @ tcp @ ?Z) 36 (host16 c) = Inr (h @ t @ host16 c @ [0, 0] @ ?Z)"
    using mem_write_at [of "h @ t" 36 "host16 c" "[0, 0]" "[0, 0] @ ?Z"] assms by simp
  show ?thesis by (intro exI [of _ c] conjI 1 2 3 c 4)
qed

lemma tcp_rst_send_packet:
  assumes ihl: "ip_ihl packet = Inr ihl" and l: "ihl * 4 + 20 \<le> length packet" "20 \<le> length packet"
  shows "\<exists>c c2. tcp_rst_send R packet out = Inr (raw_send R (rst_packet packet (ihl * 4) c c2)
       \<lparr>sin_port = take 2 (drop (ihl * 4) packet), sin_addr = take 4 (drop 12 packet)\<rparr> out)
     \<and> sum16 (take 20 (rst_packet packet (ihl * 4) c c2)) mod 65535 = 0
     \<and> sum16 (rst_pseudo packet @ drop 20 (rst_packet packet (ihl * 4) c c2)) mod 65535 = 0"
proof -
  let ?o = "ihl * 4"
  let ?f = "ip_front (host16 40) 255 6" and ?b = "ip_back packet" and ?t = "rst_tcp_front packet ?o"
  let ?p = "rst_pseudo packet"
  have len: "length ?f = 10" "length ?b = 8" "length ?t = 16" "length ?p = 12"
    using l by (simp_all add: ip_front_def ip_back_def rst_tcp_front_def rst_pseudo_def)
  from rst_ip_written [OF len(1,2)] obtain c where
    1: "mem_write (replicate 64 0) 0 (?f @ [0, 0] @ ?b) = Inr (?f @ [0, 0] @ ?b @ replicate 20 0 @ replicate 24 0)"
    "checksum (?f @ [0, 0] @ ?b @ replicate 20 0 @ replicate 24 0) 40 = Inr c"
    "mem_write (?f @ [0, 0] @ ?b @ replicate 20 0 @ replicate 24 0) 10 (host16 c)
       = Inr (?f @ host16 c @ ?b @ replicate 20 0 @ replicate 24 0)"
    and s1: "sum16 (?f @ host16 c @ ?b) mod 65535 = 0" by metis
  let ?h = "?f @ host16 c @ ?b" and ?tcp = "?t @ [0, 0] @ [0, 0]"
  have lh: "length ?h = 20" using len by simp
  from rst_tcp_written [OF lh len(3,4)] obtain c2 where
    2: "mem_write (?h @ replicate 20 0 @ replicate 24 0) 20 ?tcp = Inr (?h @ ?tcp @ replicate 24 0)"
    "mem_write (replicate 64 0) 0 ?p = Inr (?p @ replicate 20 0 @ replicate 32 0)"
    "c_memcpy (?p @ replicate 20 0 @ replicate 32 0) 12 (?h @ ?tcp @ replicate 24 0) 20 20 = Inr (?p @ ?tcp @ replicate 32 0)"
    "checksum (?p @ ?tcp @ replicate 32 0) 32 = Inr c2"
    "mem_write (?h @ ?tcp @ replicate 24 0) 36 (host16 c2) = Inr (?h @ ?t @ host16 c2 @ [0, 0] @ replicate 24 0)"
    and s2: "sum16 (?p @ ?t @ host16 c2 @ [0, 0]) mod 65535 = 0" by metis
  have r: "?h @ ?t @ host16 c2 @ [0, 0] @ replicate 24 0 = rst_packet packet ?o c c2 @ replicate 24 0"
    by (simp add: rst_packet_def)
  have rl: "length (rst_packet packet ?o c c2) = 40" using len by (simp add: rst_packet_def)
  have rd: "mem_read (rst_packet packet ?o c c2 @ replicate 24 0) 0 40 = Inr (rst_packet packet ?o c c2)"
    "mem_read packet 16 4 = Inr (take 4 (drop 16 packet))" "mem_read packet 12 4 = Inr (take 4 (drop 12 packet))"
    "mem_read packet (?o + 2) 2 = Inr (take 2 (drop (?o + 2) packet))" "mem_read packet ?o 2 = Inr (take 2 (drop ?o packet))"
    "mem_read packet (?o + 8) 4 = Inr (take 4 (drop (?o + 8) packet))"
    using rl l by (simp_all add: mem_read_def)
  let ?seq = "le32 (packet ! (?o + 4)) (packet ! (?o + 5)) (packet ! (?o + 6)) (packet ! (?o + 7))"
  have q: "rd32le packet (?o + 4) = Inr ?seq" using l rd32le_ok [of "?o + 4" packet] by (simp add: numeral_eq_Suc)
  have p: "20 + 20 = (40 :: nat)" "of_nat 40 = (40 :: u16)" "12 + 20 = (32 :: nat)" by simp_all
  have h: "[0x45, 0] @ host16 40 @ [0, 0, 0, 0, 255, 6, 0, 0] @ take 4 (drop 16 packet) @ take 4 (drop 12 packet) = ?f @ [0, 0] @ ?b"
    "take 2 (drop (?o + 2) packet) @ take 2 (drop ?o packet) @ take 4 (drop (?o + 8) packet) @ host32 (?seq + 1)
        @ [0x50, 0x04] @ htons_bytes 5840 @ [0, 0, 0, 0] = ?tcp"
    "take 4 (drop 16 packet) @ take 4 (drop 12 packet) @ [0, 6] @ htons_bytes 20 = ?p"
    by (simp_all add: ip_front_def ip_back_def rst_tcp_front_def rst_pseudo_def)
  have "tcp_rst_send R packet out = Inr (raw_send R (rst_packet packet ?o c c2)
       \<lparr>sin_port = take 2 (drop ?o packet), sin_addr = take 4 (drop 12 packet)\<rparr> out)"
    unfolding tcp_rst_send_def Let_def ihl rbind.simps p rd(2-6) h(1) 1 q h(2,3)
      2 [unfolded append_assoc append_Cons append_Nil] 2 [unfolded append_assoc] r [unfolded append_assoc] rd(1) ..
  moreover have "take 20 (rst_packet packet ?o c c2) = ?h" "drop 20 (rst_packet packet ?o c c2) = ?t @ host16 c2 @ [0, 0]"
    using len by (simp_all add: rst_packet_def)
  ultimately show ?thesis using s1 s2 by (intro exI [of _ c] exI [of _ c2]) simp
qed

text \<open>The value of four bytes in network order.\<close>

definition wire32 :: "byte list \<Rightarrow> nat" where
  "wire32 bs = 16777216 * unat (bs ! 0) + 65536 * unat (bs ! 1) + 256 * unat (bs ! 2) + unat (bs ! 3)"

lemma take4_drop: "i + 4 \<le> length p \<Longrightarrow> take 4 (drop i p) = [p ! i, p ! (i + 1), p ! (i + 2), p ! (i + 3)]"
  by (auto intro!: nth_equalityI simp: less_Suc_eq numeral_eq_Suc)

lemma host32_le32: "host32 (le32 a b c d) = [a, b, c, d]"
proof -
  let ?n = "unat a + 256 * (unat b + 256 * (unat c + 256 * unat d))"
  have s: "(unat (x :: byte) + 256 * y) div 256 = y" for x y using byte_less_256 [of x] by simp
  have m: "(unat (x :: byte) + 256 * y) mod 256 = unat x" for x y using byte_less_256 [of x] by simp
  have d1: "?n div 256 = unat b + 256 * (unat c + 256 * unat d)" by (rule s)
  have d2: "?n div 65536 = unat c + 256 * unat d"
  proof -
    have "?n div 65536 = ?n div 256 div 256" by (simp only: div_mult2_eq [symmetric]) simp
    then show ?thesis unfolding d1 s .
  qed
  have d3: "?n div 16777216 = unat d"
  proof -
    have "?n div 16777216 = ?n div 65536 div 256" by (simp only: div_mult2_eq [symmetric]) simp
    then show ?thesis unfolding d2 s .
  qed
  let ?w = "unat (le32 a b c d)"
  have v: "?w mod 256 = unat a" "?w div 256 mod 256 = unat b" "?w div 65536 mod 256 = unat c" "?w div 16777216 = unat d"
    unfolding unat_le32 d1 d2 d3 by (rule m refl)+
  have "unat (ucast (le32 a b c d) :: byte) = unat a" "unat (ucast (drop_bit 8 (le32 a b c d)) :: byte) = unat b"
    "unat (ucast (drop_bit 16 (le32 a b c d)) :: byte) = unat c" "unat (ucast (drop_bit 24 (le32 a b c d)) :: byte) = unat d"
    using v by (simp_all add: unsigned_ucast_eq take_bit_eq_mod drop_bit_eq_div unat_div)
  then show ?thesis by (simp add: host32_def word_unat_eq_iff)
qed

lemma le32_succ: "unat a < 255 \<Longrightarrow> le32 a b c d + 1 = le32 (a + 1) b c d"
proof -
  assume a: "unat a < 255"
  have u: "unat (a + 1) = unat a + 1" using a by (simp add: unat_word_ariths)
  have "unat (le32 (a + 1) b c d) = unat (le32 a b c d) + 1" by (simp add: unat_le32 u)
  moreover have "unat (le32 (a + 1) b c d) < 4294967296" using unsigned_less [of "le32 (a + 1) b c d"] by simp
  ultimately show ?thesis by (simp add: word_unat_eq_iff unat_word_ariths)
qed

subsection \<open>Properties\<close>

text \<open>
  C34: The checksum is the Internet checksum: for every even number of bytes up to 65536, the ones'
  complement sum of the data and the computed value is zero, so a receiver accepts it.
\<close>

theorem checksum_rfc1071:
  assumes "even (length m)" and "length m \<le> 65536"
  shows "\<exists>c. checksum (m @ rest) (length m) = Inr c \<and> (sum16 m + unat c) mod 65535 = 0"
  using assms by (rule checksum_correct)

theorem checksum_rfc1071_witness:
  "\<exists>c. checksum [0x45, 0, 0, 40] (length [0x45, 0, 0, 40 :: byte]) = Inr c \<and> (69 + 10240 + unat c) mod 65535 = 0"
  using checksum_rfc1071 [of "[0x45, 0, 0, 40]" "[]"] by simp

text \<open>
  C35: For a DNS query whose question name takes at most 227 bytes, one packet is sent: a DNS answer
  with the query's identifier and question and an A record for 127.0.0.1, from the query's
  destination to its source with ports exchanged, with consistent lengths and a valid IP checksum.
\<close>

theorem dns_answer_forged:
  assumes "ip_ihl packet = Inr ihl" and "terminated (drop (ihl * 4 + 20) packet)"
    and "n = length (cstr (drop (ihl * 4 + 20) packet)) + 1" and "n \<le> 227"
    and "ihl * 4 + 24 + n \<le> length packet"
  shows "\<exists>c. dns_answer_send R packet out = Inr (raw_send R (dns_reply packet (ihl * 4) n c)
       \<lparr>sin_port = take 2 (drop (ihl * 4) packet), sin_addr = take 4 (drop 12 packet)\<rparr> out)
     \<and> length (dns_reply packet (ihl * 4) n c) = 58 + 2 * n
     \<and> sum16 (take 20 (dns_reply packet (ihl * 4) n c)) mod 65535 = 0"
  using dns_answer_send_reply [OF assms, of R out] dns_reply_length [OF assms(5)] by auto

definition sample_query_packet :: "byte list" where
  "sample_query_packet = [0x45, 0, 0, 51, 0, 0, 0, 0, 64, 17, 0, 0, 10, 0, 0, 2, 8, 8, 8, 8,
     0x30, 0x39, 0, 53, 0, 31, 0, 0, 0xAB, 0xCD, 1, 0, 0, 1, 0, 0, 0, 0, 0, 0,
     3, 97, 98, 99, 2, 100, 101, 0, 0, 1, 0, 1]"

lemma sample_query_packet_ok:
  "ip_ihl sample_query_packet = Inr 5" "terminated (drop 40 sample_query_packet)"
  "length (cstr (drop 40 sample_query_packet)) = 7" "length sample_query_packet = 52"
  by (simp_all add: sample_query_packet_def ip_ihl_def rd8_def terminated_def cstr_def)

theorem dns_answer_forged_witness:
  "\<exists>c. dns_answer_send \<lparr>socket_ok = True, setsockopt_ok = True, raw_sendto_ok = True\<rparr> sample_query_packet [] =
     Inr [RAWSEND (dns_reply sample_query_packet 20 8 c) \<lparr>sin_port = [0x30, 0x39], sin_addr = [10, 0, 0, 2]\<rparr>]"
proof -
  have "take 2 (drop 20 sample_query_packet) = [0x30, 0x39]" "take 4 (drop 12 sample_query_packet) = [10, 0, 0, 2]"
    by (simp_all add: sample_query_packet_def)
  with dns_answer_forged [of sample_query_packet 5 8 "\<lparr>socket_ok = True, setsockopt_ok = True, raw_sendto_ok = True\<rparr>" "[]"]
    sample_query_packet_ok show ?thesis by (auto simp: raw_send_def)
qed

text \<open>
  A question name of 228 to 255 bytes, which DNS allows, makes the forged answer overflow its
  512-byte buffer, because the name is copied twice.
\<close>

theorem dns_answer_overflow:
  assumes "ip_ihl packet = Inr ihl" and "terminated (drop (ihl * 4 + 20) packet)"
    and "n = length (cstr (drop (ihl * 4 + 20) packet)) + 1" and "227 < n"
    and "ihl * 4 + 24 + n \<le> length packet"
  shows "dns_answer_send R packet out = Inl OobWrite"
  using assms by (rule dns_answer_send_overflow)

theorem dns_answer_overflow_witness:
  "dns_answer_send \<lparr>socket_ok = True, setsockopt_ok = True, raw_sendto_ok = True\<rparr>
     ([0x45] @ replicate 39 1 @ replicate 240 97 @ 0 # [0, 1, 0, 1]) [] = Inl OobWrite"
proof -
  let ?p = "[0x45] @ replicate 39 1 @ replicate 240 97 @ 0 # [0, 1, 0, 1] :: byte list"
  have q: "drop (5 * 4 + 20) ?p = replicate 240 97 @ 0 # [0, 1, 0, 1]" by (simp add: drop_Cons')
  have "ip_ihl ?p = Inr 5" by (simp add: ip_ihl_def rd8_def)
  moreover have "terminated (drop (5 * 4 + 20) ?p)" "241 = length (cstr (drop (5 * 4 + 20) ?p)) + 1"
    unfolding q by (simp_all add: set_replicate_conv_if)
  ultimately show ?thesis by (rule dns_answer_overflow) simp_all
qed

text \<open>
  C36: Against a TCP packet one reset is sent, from the packet's destination to its source with ports
  exchanged, only the flag RST set and the sequence number the packet acknowledges; its IP header and,
  with the pseudo header, its TCP header have valid checksums.
\<close>

theorem tcp_rst_forged:
  assumes "ip_ihl packet = Inr ihl" and "ihl * 4 + 20 \<le> length packet" and "20 \<le> length packet"
  shows "\<exists>c c2. tcp_rst_send R packet out = Inr (raw_send R (rst_packet packet (ihl * 4) c c2)
       \<lparr>sin_port = take 2 (drop (ihl * 4) packet), sin_addr = take 4 (drop 12 packet)\<rparr> out)
     \<and> sum16 (take 20 (rst_packet packet (ihl * 4) c c2)) mod 65535 = 0
     \<and> sum16 (rst_pseudo packet @ drop 20 (rst_packet packet (ihl * 4) c c2)) mod 65535 = 0"
  using assms by (rule tcp_rst_send_packet)

definition sample_tcp_packet :: "byte list" where
  "sample_tcp_packet = [0x45, 0, 0, 40, 0, 0, 0, 0, 64, 6, 0, 0, 10, 0, 0, 2, 93, 184, 216, 34,
     0x30, 0x39, 1, 187, 0, 0, 0, 5, 0, 0, 1, 0, 0x50, 0x18, 1, 0, 0, 0, 0, 0]"

lemma sample_tcp_packet_ok: "ip_ihl sample_tcp_packet = Inr 5" "length sample_tcp_packet = 40"
  by (simp_all add: sample_tcp_packet_def ip_ihl_def rd8_def)

theorem tcp_rst_forged_witness:
  "\<exists>c c2. tcp_rst_send \<lparr>socket_ok = True, setsockopt_ok = True, raw_sendto_ok = True\<rparr> sample_tcp_packet [] =
     Inr [RAWSEND (rst_packet sample_tcp_packet 20 c c2) \<lparr>sin_port = [0x30, 0x39], sin_addr = [10, 0, 0, 2]\<rparr>]"
proof -
  have "take 2 (drop 20 sample_tcp_packet) = [0x30, 0x39]" "take 4 (drop 12 sample_tcp_packet) = [10, 0, 0, 2]"
    by (simp_all add: sample_tcp_packet_def)
  with tcp_rst_forged [of sample_tcp_packet 5 "\<lparr>socket_ok = True, setsockopt_ok = True, raw_sendto_ok = True\<rparr>" "[]"]
    sample_tcp_packet_ok show ?thesis by (auto simp: raw_send_def)
qed

text \<open>
  The acknowledgement number of the reset is the packet's sequence number plus 2 to the 24, not
  plus one: the source adds one to the value in network order, which on a little-endian host is its
  most significant byte.
\<close>

theorem rst_ack_in_network_order:
  assumes "ip_ihl packet = Inr ihl" and "ihl * 4 + 20 \<le> length packet" and "20 \<le> length packet"
    and "unat (packet ! (ihl * 4 + 4)) < 255"
  shows "\<exists>data sin. tcp_rst_send R packet out = Inr (raw_send R data sin out)
    \<and> wire32 (take 4 (drop 28 data)) = wire32 (take 4 (drop (ihl * 4 + 4) packet)) + 16777216"
proof -
  let ?o = "ihl * 4"
  from tcp_rst_send_packet [OF assms(1-3), of R out] obtain c c2 where
    r: "tcp_rst_send R packet out = Inr (raw_send R (rst_packet packet ?o c c2)
       \<lparr>sin_port = take 2 (drop ?o packet), sin_addr = take 4 (drop 12 packet)\<rparr> out)" by blast
  have "take 4 (drop 28 (rst_packet packet ?o c c2)) =
      [packet ! (?o + 4) + 1, packet ! (?o + 5), packet ! (?o + 6), packet ! (?o + 7)]"
    using assms(2-4) by (simp add: rst_packet_def ip_front_def ip_back_def rst_tcp_front_def le32_succ host32_le32)
  moreover have "unat (packet ! (?o + 4) + 1) = unat (packet ! (?o + 4)) + 1"
    using assms(4) by (simp add: unat_word_ariths)
  ultimately have "wire32 (take 4 (drop 28 (rst_packet packet ?o c c2))) = wire32 (take 4 (drop (?o + 4) packet)) + 16777216"
    using assms(2) take4_drop [of "?o + 4" packet] by (simp add: wire32_def add.commute)
  with r show ?thesis by blast
qed

theorem rst_ack_in_network_order_witness:
  "\<exists>data sin. tcp_rst_send \<lparr>socket_ok = True, setsockopt_ok = True, raw_sendto_ok = True\<rparr> sample_tcp_packet [] = Inr [RAWSEND data sin]
    \<and> wire32 (take 4 (drop 28 data)) = 16777221"
proof -
  have "wire32 (take 4 (drop 24 sample_tcp_packet)) = 5" "unat (sample_tcp_packet ! 24) < 255"
    by (simp_all add: sample_tcp_packet_def wire32_def)
  with rst_ack_in_network_order [of sample_tcp_packet 5 "\<lparr>socket_ok = True, setsockopt_ok = True, raw_sendto_ok = True\<rparr>" "[]"]
    sample_tcp_packet_ok show ?thesis by (auto simp: raw_send_def)
qed

end
