(* ===== verification/Uthash.thy ===== *)
theory Uthash
  imports C_Prelude
begin

text \<open>
  The hash table of \<open>uthash.h\<close>, as far as the daemon uses it: Jenkins' hash, insertion,
  lookup, deletion, iteration, counting and bucket expansion.  The intrusive doubly linked
  lists are HOL lists: the application-order list (\<open>prev\<close>, \<open>next\<close>, \<open>tail\<close>) is \<open>app_list\<close>, a
  bucket's chain (\<open>hh_prev\<close>, \<open>hh_next\<close>) is \<open>bkt_chain\<close>, both from the head.  The element a
  handle is embedded in is an abstract reference \<open>'e\<close>.  Counters are 32-bit words, as in the
  source.  \<open>HASH_BLOOM\<close>, \<open>HASH_EMIT_KEYS\<close> and \<open>HASH_NONFATAL_OOM\<close> are not defined by the
  daemon's build, so the corresponding branches are absent; a failing \<open>uthash_malloc\<close> is
  \<open>uthash_fatal\<close>, that is \<open>exit\<close>.

  The interface of the table is the locale \<open>keyed_store\<close>, extended by \<open>keyed_table\<close>, with the interpretation \<open>ut\<close>.
\<close>

subsection \<open>Jenkins' hash\<close>

definition HASH_JEN_MIX :: "u32 \<Rightarrow> u32 \<Rightarrow> u32 \<Rightarrow> u32 \<times> u32 \<times> u32" where
  "HASH_JEN_MIX a0 b0 c0 =
    (let a = (a0 - b0 - c0) XOR drop_bit 13 c0;
         b = (b0 - c0 - a) XOR push_bit 8 a;
         c = (c0 - a - b) XOR drop_bit 13 b;
         a = (a - b - c) XOR drop_bit 12 c;
         b = (b - c - a) XOR push_bit 16 a;
         c = (c - a - b) XOR drop_bit 5 b;
         a = (a - b - c) XOR drop_bit 3 c;
         b = (b - c - a) XOR push_bit 10 a;
         c = (c - a - b) XOR drop_bit 15 b
     in (a, b, c))"

definition jen_word :: "byte list \<Rightarrow> nat \<Rightarrow> u32" where
  "jen_word k n = ucast (k ! n) + push_bit 8 (ucast (k ! (n + 1)))
     + push_bit 16 (ucast (k ! (n + 2))) + push_bit 24 (ucast (k ! (n + 3)))"

fun jen_blocks :: "byte list \<Rightarrow> u32 \<Rightarrow> u32 \<Rightarrow> u32 \<Rightarrow> byte list \<times> u32 \<times> u32 \<times> u32" where
  "jen_blocks k i j h =
     (if 12 \<le> length k
      then let (i', j', h') = HASH_JEN_MIX (i + jen_word k 0) (j + jen_word k 4) (h + jen_word k 8)
           in jen_blocks (drop 12 k) i' j' h'
      else (k, i, j, h))"

declare jen_blocks.simps [simp del]

text \<open>One case of the \<open>switch\<close> with its fall-through: byte \<open>n\<close> counts when the tail has it.\<close>

definition jen_tail_byte :: "byte list \<Rightarrow> nat \<Rightarrow> nat \<Rightarrow> u32" where
  "jen_tail_byte k n s = (if n < length k then push_bit s (ucast (k ! n)) else 0)"

definition HASH_JEN :: "byte list \<Rightarrow> u32" where
  "HASH_JEN key =
    (let (k, i, j, h) = jen_blocks key 0x9e3779b9 0x9e3779b9 0xfeedbeef;
         h = h + of_nat (length key);
         h = h + jen_tail_byte k 10 24 + jen_tail_byte k 9 16 + jen_tail_byte k 8 8;
         j = j + jen_tail_byte k 7 24 + jen_tail_byte k 6 16 + jen_tail_byte k 5 8 + jen_tail_byte k 4 0;
         i = i + jen_tail_byte k 3 24 + jen_tail_byte k 2 16 + jen_tail_byte k 1 8 + jen_tail_byte k 0 0;
         (i, j, h) = HASH_JEN_MIX i j h
     in h)"

subsection \<open>Data\<close>

record 'e UT_hash_handle =
  hh_elt :: 'e
  hh_key :: "byte list"
  hh_hashv :: u32

record 'e UT_hash_bucket =
  bkt_chain :: "'e UT_hash_handle list"
  bkt_count :: u32
  expand_mult :: u32

record 'e UT_hash_table =
  buckets :: "'e UT_hash_bucket list"
  num_buckets :: u32
  log2_num_buckets :: u32
  num_items :: u32
  app_list :: "'e UT_hash_handle list"
  ideal_chain_maxlen :: u32
  nonideal_items :: u32
  ineff_expands :: u32
  noexpand :: u32

text \<open>The head pointer of a table; \<open>None\<close> is NULL, the empty table.\<close>

type_synonym 'e hash_head = "'e UT_hash_table option"

definition HASH_INITIAL_NUM_BUCKETS :: u32 where
  "HASH_INITIAL_NUM_BUCKETS = 32"

definition HASH_INITIAL_NUM_BUCKETS_LOG2 :: u32 where
  "HASH_INITIAL_NUM_BUCKETS_LOG2 = 5"

definition HASH_BKT_CAPACITY_THRESH :: u32 where
  "HASH_BKT_CAPACITY_THRESH = 10"

definition empty_bucket :: "'e UT_hash_bucket" where
  "empty_bucket = \<lparr>bkt_chain = [], bkt_count = 0, expand_mult = 0\<rparr>"

subsection \<open>Operations\<close>

definition HASH_TO_BKT :: "u32 \<Rightarrow> u32 \<Rightarrow> u32" where
  "HASH_TO_BKT hashv num_bkts = hashv AND (num_bkts - 1)"

fun HASH_FIND_IN_BKT :: "'e UT_hash_handle list \<Rightarrow> byte list \<Rightarrow> u32 \<Rightarrow> 'e option" where
  "HASH_FIND_IN_BKT [] key hashval = None"
| "HASH_FIND_IN_BKT (out # rest) key hashval =
     (if hh_hashv out = hashval \<and> length (hh_key out) = length key
      then if hh_key out = key then Some (hh_elt out) else HASH_FIND_IN_BKT rest key hashval
      else HASH_FIND_IN_BKT rest key hashval)"

definition HASH_FIND_BYHASHVALUE :: "'e hash_head \<Rightarrow> byte list \<Rightarrow> u32 \<Rightarrow> 'e option result" where
  "HASH_FIND_BYHASHVALUE head key hashval =
     (case head of
        None \<Rightarrow> Inr None
      | Some tbl \<Rightarrow>
          (let bkt = unat (HASH_TO_BKT hashval (num_buckets tbl))
           in if bkt < length (buckets tbl)
              then Inr (HASH_FIND_IN_BKT (bkt_chain (buckets tbl ! bkt)) key hashval)
              else Inl OobRead))"

definition HASH_FIND :: "byte list \<Rightarrow> 'e hash_head \<Rightarrow> 'e option result" where
  "HASH_FIND key head = HASH_FIND_BYHASHVALUE head key (HASH_JEN key)"

text \<open>\<open>HASH_FIND_STR\<close> takes a pointer to a C string: the bytes from it to the end of its object.\<close>

definition HASH_FIND_STR :: "'e hash_head \<Rightarrow> byte list \<Rightarrow> 'e option result" where
  "HASH_FIND_STR head findstr = rbind (c_strlen findstr) (\<lambda>n. HASH_FIND (take n findstr) head)"

definition HASH_MAKE_TABLE :: "bool \<Rightarrow> 'e UT_hash_handle \<Rightarrow> 'e UT_hash_table result" where
  "HASH_MAKE_TABLE malloc_ok add =
     (if malloc_ok
      then Inr \<lparr>buckets = replicate (unat HASH_INITIAL_NUM_BUCKETS) empty_bucket,
                num_buckets = HASH_INITIAL_NUM_BUCKETS,
                log2_num_buckets = HASH_INITIAL_NUM_BUCKETS_LOG2,
                num_items = 0, app_list = [add], ideal_chain_maxlen = 0,
                nonideal_items = 0, ineff_expands = 0, noexpand = 0\<rparr>
      else Inl Exit)"

text \<open>One iteration of the redistribution loop, for the handle \<open>thh\<close>.\<close>

definition expand_place ::
    "u32 \<Rightarrow> u32 \<Rightarrow> 'e UT_hash_handle \<Rightarrow> 'e UT_hash_bucket list \<times> u32
      \<Rightarrow> ('e UT_hash_bucket list \<times> u32) result" where
  "expand_place num2 ideal thh st =
    (let (new_buckets, nonideal) = st;
         bkt = unat (HASH_TO_BKT (hh_hashv thh) num2)
     in if bkt < length new_buckets
        then let newbkt = new_buckets ! bkt;
                 cnt = bkt_count newbkt + 1;
                 over = ideal < cnt;
                 mult = (if over \<and> expand_mult newbkt * ideal < cnt
                         then expand_mult newbkt + 1 else expand_mult newbkt)
             in Inr (new_buckets[bkt := \<lparr>bkt_chain = thh # bkt_chain newbkt,
                                         bkt_count = cnt, expand_mult = mult\<rparr>],
                     if over then nonideal + 1 else nonideal)
        else Inl OobWrite)"

definition HASH_EXPAND_BUCKETS :: "bool \<Rightarrow> 'e UT_hash_table \<Rightarrow> 'e UT_hash_table result" where
  "HASH_EXPAND_BUCKETS malloc_ok tbl =
    (if \<not> malloc_ok then Inl Exit
     else if 32 \<le> log2_num_buckets tbl + 1 then Inl BadShift
     else
       let num2 = num_buckets tbl * 2;
           ideal = drop_bit (unat (log2_num_buckets tbl + 1)) (num_items tbl)
                   + (if num_items tbl AND (num2 - 1) \<noteq> 0 then 1 else 0)
       in rbind (rfold (expand_place num2 ideal) (concat (map bkt_chain (buckets tbl)))
                   (replicate (2 * unat (num_buckets tbl)) empty_bucket, 0))
            (\<lambda>(new_buckets, nonideal).
              let ineff = (if drop_bit 1 (num_items tbl) < nonideal then ineff_expands tbl + 1 else 0)
              in Inr (tbl\<lparr>ideal_chain_maxlen := ideal, nonideal_items := nonideal,
                          num_buckets := num2, log2_num_buckets := log2_num_buckets tbl + 1,
                          buckets := new_buckets, ineff_expands := ineff,
                          noexpand := (if 1 < ineff then 1 else noexpand tbl)\<rparr>)))"

definition HASH_ADD_TO_BKT ::
    "bool \<Rightarrow> nat \<Rightarrow> 'e UT_hash_handle \<Rightarrow> 'e UT_hash_table \<Rightarrow> 'e UT_hash_table result" where
  "HASH_ADD_TO_BKT malloc_ok bkt addhh tbl =
    (if bkt < length (buckets tbl)
     then let head = buckets tbl ! bkt;
              head' = head\<lparr>bkt_count := bkt_count head + 1, bkt_chain := addhh # bkt_chain head\<rparr>;
              tbl' = tbl\<lparr>buckets := (buckets tbl)[bkt := head']\<rparr>
          in if (expand_mult head' + 1) * HASH_BKT_CAPACITY_THRESH \<le> bkt_count head'
                \<and> noexpand tbl' = 0
             then HASH_EXPAND_BUCKETS malloc_ok tbl'
             else Inr tbl'
     else Inl OobWrite)"

definition HASH_ADD_TO_TABLE ::
    "bool \<Rightarrow> 'e UT_hash_handle \<Rightarrow> 'e UT_hash_table \<Rightarrow> 'e UT_hash_table result" where
  "HASH_ADD_TO_TABLE malloc_ok add tbl =
    (let tbl' = tbl\<lparr>num_items := num_items tbl + 1\<rparr>
     in HASH_ADD_TO_BKT malloc_ok (unat (HASH_TO_BKT (hh_hashv add) (num_buckets tbl'))) add tbl')"

definition HASH_ADD_KEYPTR_BYHASHVALUE ::
    "bool \<Rightarrow> byte list \<Rightarrow> u32 \<Rightarrow> 'e \<Rightarrow> 'e hash_head \<Rightarrow> 'e hash_head result" where
  "HASH_ADD_KEYPTR_BYHASHVALUE malloc_ok key hashval add head =
    (let hh = \<lparr>hh_elt = add, hh_key = key, hh_hashv = hashval\<rparr>
     in rbind (case head of
                 None \<Rightarrow> HASH_MAKE_TABLE malloc_ok hh
               | Some tbl \<Rightarrow> Inr (tbl\<lparr>app_list := app_list tbl @ [hh]\<rparr>))
          (\<lambda>tbl. rbind (HASH_ADD_TO_TABLE malloc_ok hh tbl) (\<lambda>tbl'. Inr (Some tbl'))))"

definition HASH_ADD :: "bool \<Rightarrow> byte list \<Rightarrow> 'e \<Rightarrow> 'e hash_head \<Rightarrow> 'e hash_head result" where
  "HASH_ADD malloc_ok key add head = HASH_ADD_KEYPTR_BYHASHVALUE malloc_ok key (HASH_JEN key) add head"

text \<open>\<open>HASH_ADD_STR\<close>: the key is the C string in the element's field \<open>strfield\<close>.\<close>

definition HASH_ADD_STR :: "bool \<Rightarrow> byte list \<Rightarrow> 'e \<Rightarrow> 'e hash_head \<Rightarrow> 'e hash_head result" where
  "HASH_ADD_STR malloc_ok strfield add head =
     rbind (c_strlen strfield) (\<lambda>n. HASH_ADD malloc_ok (take n strfield) add head)"

definition HASH_DEL_IN_BKT :: "nat \<Rightarrow> 'e UT_hash_handle \<Rightarrow> 'e UT_hash_table \<Rightarrow> 'e UT_hash_table result" where
  "HASH_DEL_IN_BKT bkt del tbl =
    (if bkt < length (buckets tbl)
     then let head = buckets tbl ! bkt
          in Inr (tbl\<lparr>buckets := (buckets tbl)[bkt := head\<lparr>bkt_count := bkt_count head - 1,
                   bkt_chain := filter (\<lambda>h. hh_elt h \<noteq> hh_elt del) (bkt_chain head)\<rparr>]\<rparr>)
     else Inl OobWrite)"

text \<open>
  \<open>HASH_DEL\<close> of the element \<open>e\<close>: its handle is the one in the list that is embedded in \<open>e\<close>;
  an element that is not in the table has no valid handle.
\<close>

definition HASH_DEL :: "'e \<Rightarrow> 'e hash_head \<Rightarrow> 'e hash_head result" where
  "HASH_DEL e head =
    (case head of
       None \<Rightarrow> Inl NullDeref
     | Some tbl \<Rightarrow>
         (case find (\<lambda>h. hh_elt h = e) (app_list tbl) of
            None \<Rightarrow> Inl UseAfterFree
          | Some del \<Rightarrow>
              if length (app_list tbl) = 1 then Inr None
              else let tbl' = tbl\<lparr>app_list := filter (\<lambda>h. hh_elt h \<noteq> e) (app_list tbl)\<rparr>
                   in rbind (HASH_DEL_IN_BKT (unat (HASH_TO_BKT (hh_hashv del) (num_buckets tbl'))) del tbl')
                        (\<lambda>t. Inr (Some (t\<lparr>num_items := num_items t - 1\<rparr>)))))"

text \<open>The elements a deletion-safe \<open>HASH_ITER\<close> visits, in order.\<close>

definition HASH_ITER :: "'e hash_head \<Rightarrow> 'e list" where
  "HASH_ITER head = (case head of None \<Rightarrow> [] | Some tbl \<Rightarrow> map hh_elt (app_list tbl))"

definition HASH_COUNT :: "'e hash_head \<Rightarrow> u32" where
  "HASH_COUNT head = (case head of None \<Rightarrow> 0 | Some tbl \<Rightarrow> num_items tbl)"

text \<open>The integrity check \<open>HASH_FSCK\<close> of debug builds: bucket counts and item counts agree.\<close>

definition HASH_FSCK :: "'e hash_head \<Rightarrow> bool" where
  "HASH_FSCK head =
    (case head of
       None \<Rightarrow> True
     | Some tbl \<Rightarrow>
         list_all (\<lambda>b. bkt_count b = of_nat (length (bkt_chain b))) (buckets tbl)
         \<and> of_nat (sum_list (map (\<lambda>b. length (bkt_chain b)) (buckets tbl))) = num_items tbl
         \<and> of_nat (length (app_list tbl)) = num_items tbl)"


text \<open>No insertion runs into a failed assertion.\<close>

lemma HASH_ADD_no_assert: "HASH_ADD a k e head \<noteq> Inl AssertFail"
proof -
  have e: "expand_place n i x s \<noteq> Inl AssertFail" for n i s and x :: "'a UT_hash_handle"
    by (simp add: expand_place_def Let_def split: prod.splits)
  have "rfold (expand_place n i) xs s \<noteq> Inl AssertFail" for n i s and xs :: "'a UT_hash_handle list"
    by (rule rfold_avoids [where I = "\<lambda>_. True"]) (simp_all add: e)
  then have "HASH_EXPAND_BUCKETS b t \<noteq> Inl AssertFail" for b and t :: "'a UT_hash_table"
    by (auto simp: HASH_EXPAND_BUCKETS_def result_simps Let_def)
  then show ?thesis
    by (auto simp: HASH_ADD_def HASH_ADD_KEYPTR_BYHASHVALUE_def HASH_ADD_TO_TABLE_def HASH_ADD_TO_BKT_def HASH_MAKE_TABLE_def
        result_simps Let_def split: option.splits if_splits)
qed

subsection \<open>The table invariant\<close>

definition bucket_ok :: "u32 \<Rightarrow> nat \<Rightarrow> 'e UT_hash_bucket \<Rightarrow> bool" where
  "bucket_ok num i b \<longleftrightarrow>
     bkt_count b = of_nat (length (bkt_chain b))
     \<and> list_all (\<lambda>h. unat (HASH_TO_BKT (hh_hashv h) num) = i) (bkt_chain b)"

definition buckets_ok :: "u32 \<Rightarrow> 'e UT_hash_bucket list \<Rightarrow> bool" where
  "buckets_ok num bs \<longleftrightarrow> (\<forall>i < length bs. bucket_ok num i (bs ! i))"

definition table_ok :: "'e UT_hash_table \<Rightarrow> bool" where
  "table_ok t \<longleftrightarrow>
     unat (log2_num_buckets t) \<le> 31
     \<and> num_buckets t = 2 ^ unat (log2_num_buckets t)
     \<and> length (buckets t) = 2 ^ unat (log2_num_buckets t)
     \<and> buckets_ok (num_buckets t) (buckets t)"

definition uthash_ok :: "'e hash_head \<Rightarrow> bool" where
  "uthash_ok head =
    (case head of
       None \<Rightarrow> True
     | Some t \<Rightarrow>
         app_list t \<noteq> [] \<and> distinct (map hh_elt (app_list t))
         \<and> list_all (\<lambda>h. hh_hashv h = HASH_JEN (hh_key h)) (app_list t)
         \<and> num_items t = of_nat (length (app_list t))
         \<and> table_ok t
         \<and> mset (concat (map bkt_chain (buckets t))) = mset (app_list t))"

text \<open>The abstract content: keys and elements in application order.\<close>

definition hash_items :: "'e hash_head \<Rightarrow> (byte list \<times> 'e) list" where
  "hash_items head = (case head of None \<Rightarrow> []
     | Some t \<Rightarrow> map (\<lambda>h. (hh_key h, hh_elt h)) (app_list t))"

text \<open>Room for one more bucket doubling.\<close>

definition hash_room :: "'e hash_head \<Rightarrow> bool" where
  "hash_room head = (case head of None \<Rightarrow> True | Some t \<Rightarrow> log2_num_buckets t < 31)"

subsection \<open>Bucket numbers\<close>

lemma HASH_TO_BKT_pow2: "HASH_TO_BKT h (2 ^ n) = take_bit n h"
  by (simp add: HASH_TO_BKT_def take_bit_eq_mask mask_eq_exp_minus_1)

lemma HASH_TO_BKT_less: "unat (HASH_TO_BKT h (2 ^ n)) < 2 ^ n"
  by (simp add: HASH_TO_BKT_pow2 unsigned_take_bit_eq)

lemma table_ok_bkt:
  "table_ok t \<Longrightarrow> unat (HASH_TO_BKT h (num_buckets t)) < length (buckets t)"
  using HASH_TO_BKT_less by (metis table_ok_def)

lemma table_ok_buckets: "table_ok t \<Longrightarrow> buckets_ok (num_buckets t) (buckets t)"
  unfolding table_ok_def by blast

lemma table_ok_frame [simp]:
  "table_ok (t\<lparr>num_items := n\<rparr>) = table_ok t" "table_ok (t\<lparr>app_list := xs\<rparr>) = table_ok t"
  by (simp_all add: table_ok_def)

lemma map_snd_hash_items: "map snd (hash_items (Some t)) = map hh_elt (app_list t)"
  by (simp add: hash_items_def)

lemma table_ok_set_buckets:
  "table_ok t \<Longrightarrow> buckets_ok (num_buckets t) bs \<Longrightarrow> length bs = length (buckets t)
     \<Longrightarrow> table_ok (t\<lparr>buckets := bs\<rparr>)"
  by (simp add: table_ok_def)

lemma table_ok_bucket:
  "table_ok t \<Longrightarrow> i < length (buckets t) \<Longrightarrow> bucket_ok (num_buckets t) i (buckets t ! i)"
  unfolding table_ok_def buckets_ok_def by blast

subsection \<open>Chains\<close>

lemma mset_concat_update:
  "i < length bs \<Longrightarrow>
     mset (concat (map f (bs[i := b]))) + mset (f (bs ! i)) = mset (concat (map f bs)) + mset (f b)"
proof (induction bs arbitrary: i)
  case Nil
  then show ?case by simp
next
  case (Cons c bs)
  then show ?case by (cases i) (auto simp: ac_simps)
qed

lemma mset_concat_update_Cons:
  assumes "i < length bs" and "f b = x # f (bs ! i)"
  shows "mset (concat (map f (bs[i := b]))) = add_mset x (mset (concat (map f bs)))"
  using mset_concat_update [OF assms(1), of f b] assms(2) by simp

lemma bucket_chain_mem:
  "i < length bs \<Longrightarrow> h \<in> set (bkt_chain (bs ! i)) \<Longrightarrow> h \<in># mset (concat (map bkt_chain bs))"
  by auto

lemma buckets_ok_update:
  "buckets_ok num bs \<Longrightarrow> bucket_ok num i b \<Longrightarrow> buckets_ok num (bs[i := b])"
  by (cases "i < length bs") (auto simp: buckets_ok_def nth_list_update list_update_beyond)

lemma find_in_bkt_Some:
  "HASH_FIND_IN_BKT c k hv = Some e \<Longrightarrow> \<exists>h \<in> set c. hh_key h = k \<and> hh_elt h = e"
  by (induction c) (auto split: if_splits)

lemma find_in_bkt_None:
  "HASH_FIND_IN_BKT c k hv = None \<Longrightarrow> h \<in> set c \<Longrightarrow> hh_key h = k \<Longrightarrow> hh_hashv h \<noteq> hv"
  by (induction c) (auto split: if_splits)

lemma bucket_ok_push:
  assumes "bucket_ok num i b" and "unat (HASH_TO_BKT (hh_hashv h) num) = i"
  shows "bucket_ok num i \<lparr>bkt_chain = h # bkt_chain b, bkt_count = bkt_count b + 1, expand_mult = m\<rparr>"
  using assms by (simp add: bucket_ok_def add.commute)

lemma chain_bkt:
  assumes "table_ok t" and "j < length (buckets t)" and "h \<in> set (bkt_chain (buckets t ! j))"
  shows "j = unat (HASH_TO_BKT (hh_hashv h) (num_buckets t))"
  using table_ok_bucket [OF assms(1,2)] assms(3) by (auto simp: bucket_ok_def list_all_iff)

lemma chain_mem:
  assumes "table_ok t" and "h \<in> set (concat (map bkt_chain (buckets t)))"
  shows "h \<in> set (bkt_chain (buckets t ! unat (HASH_TO_BKT (hh_hashv h) (num_buckets t))))"
  using assms(2) chain_bkt [OF assms(1)] unfolding concat_map_mem by blast

subsection \<open>Expansion keeps the items\<close>

lemma expand_place_correct:
  assumes "length nb = 2 ^ n"
  shows "\<exists>nb' c'. expand_place (2 ^ n) ideal h (nb, c) = Inr (nb', c')
     \<and> length nb' = length nb
     \<and> (buckets_ok (2 ^ n) nb \<longrightarrow> buckets_ok (2 ^ n) nb')
     \<and> mset (concat (map bkt_chain nb')) = add_mset h (mset (concat (map bkt_chain nb)))"
proof -
  let ?i = "unat (HASH_TO_BKT (hh_hashv h) (2 ^ n))"
  have i: "?i < length nb" using HASH_TO_BKT_less assms by metis
  let ?m = "if ideal < bkt_count (nb ! ?i) + 1 \<and> expand_mult (nb ! ?i) * ideal < bkt_count (nb ! ?i) + 1
            then expand_mult (nb ! ?i) + 1 else expand_mult (nb ! ?i)"
  let ?b = "\<lparr>bkt_chain = h # bkt_chain (nb ! ?i), bkt_count = bkt_count (nb ! ?i) + 1, expand_mult = ?m\<rparr>"
  have eq: "\<exists>c'. expand_place (2 ^ n) ideal h (nb, c) = Inr (nb[?i := ?b], c')"
    using i by (simp add: expand_place_def Let_def)
  have "buckets_ok (2 ^ n) nb \<longrightarrow> buckets_ok (2 ^ n) (nb[?i := ?b])"
  proof
    assume b: "buckets_ok (2 ^ n) nb"
    with i have "bucket_ok (2 ^ n) ?i (nb ! ?i)" by (simp add: buckets_ok_def)
    then have "bucket_ok (2 ^ n) ?i ?b" by (rule bucket_ok_push) simp
    with b show "buckets_ok (2 ^ n) (nb[?i := ?b])" by (rule buckets_ok_update)
  qed
  moreover have "mset (concat (map bkt_chain (nb[?i := ?b])))
      = add_mset h (mset (concat (map bkt_chain nb)))"
    by (rule mset_concat_update_Cons [OF i]) simp
  ultimately show ?thesis using eq by fastforce
qed

lemma expand_rfold_correct:
  assumes "length nb = 2 ^ n"
  shows "\<exists>nb' c'. rfold (expand_place (2 ^ n) ideal) hs (nb, c) = Inr (nb', c')
     \<and> length nb' = length nb
     \<and> (buckets_ok (2 ^ n) nb \<longrightarrow> buckets_ok (2 ^ n) nb')
     \<and> mset (concat (map bkt_chain nb')) = mset hs + mset (concat (map bkt_chain nb))"
  using assms
proof (induction hs arbitrary: nb c)
  case Nil
  then show ?case by simp
next
  case (Cons h hs)
  from expand_place_correct [OF Cons.prems, of ideal h c] obtain nb1 c1 where 1:
    "expand_place (2 ^ n) ideal h (nb, c) = Inr (nb1, c1)" "length nb1 = length nb"
    "buckets_ok (2 ^ n) nb \<longrightarrow> buckets_ok (2 ^ n) nb1"
    "mset (concat (map bkt_chain nb1)) = add_mset h (mset (concat (map bkt_chain nb)))"
    by blast
  with Cons.IH [of nb1 c1] Cons.prems show ?case by fastforce
qed

lemma empty_buckets_ok: "buckets_ok num (replicate n empty_bucket)"
  by (simp add: buckets_ok_def bucket_ok_def empty_bucket_def)

lemma empty_buckets_chain: "concat (map bkt_chain (replicate n empty_bucket)) = []"
  by (induction n) (auto simp: empty_bucket_def)

text \<open>What an expansion does to the fields the table's meaning rests on.\<close>

definition expand_spec :: "'e UT_hash_table \<Rightarrow> 'e UT_hash_table \<Rightarrow> bool" where
  "expand_spec t t' \<longleftrightarrow>
     table_ok t' \<and> app_list t' = app_list t \<and> num_items t' = num_items t
     \<and> mset (concat (map bkt_chain (buckets t'))) = mset (concat (map bkt_chain (buckets t)))"

lemma unat_pow2_u32: "n < 32 \<Longrightarrow> unat (2 ^ n :: u32) = 2 ^ n"
proof -
  assume "n < 32"
  then have "(2 :: nat) ^ n < 2 ^ 32" by (intro power_strict_increasing) auto
  then have "unat (of_nat (2 ^ n) :: u32) = 2 ^ n"
    by (simp only: unsigned_of_nat take_bit_eq_mod) simp
  then show ?thesis by simp
qed

lemma unat_Suc_u32: "unat (x :: u32) \<le> 31 \<Longrightarrow> unat (x + 1) = Suc (unat x)"
  by (simp add: unat_word_ariths)

lemma u32_ge_32: "(32 \<le> (x :: u32)) = (32 \<le> unat x)"
  by (simp add: word_le_nat_alt)

lemma HASH_EXPAND_BUCKETS_correct:
  assumes ok: "table_ok t" and room: "unat (log2_num_buckets t) < 31"
  shows "\<exists>t'. HASH_EXPAND_BUCKETS True t = Inr t' \<and> expand_spec t t'"
proof -
  let ?n = "unat (log2_num_buckets t)"
  have nb: "num_buckets t * 2 = 2 ^ Suc ?n" using ok by (simp add: table_ok_def)
  have un: "unat (num_buckets t) = 2 ^ ?n"
    using ok room by (simp add: table_ok_def unat_pow2_u32)
  have l2: "unat (log2_num_buckets t + 1) = Suc ?n" using room by (simp add: unat_Suc_u32)
  let ?id = "drop_bit (unat (log2_num_buckets t + 1)) (num_items t)
     + (if num_items t AND (2 ^ Suc ?n - 1) \<noteq> 0 then 1 else 0)"
  let ?hs = "concat (map bkt_chain (buckets t))"
  let ?nb = "replicate (2 ^ Suc ?n) empty_bucket"
  have "length ?nb = 2 ^ Suc ?n" by simp
  from expand_rfold_correct [OF this, of ?id ?hs 0] obtain nb' c' where r:
    "rfold (expand_place (2 ^ Suc ?n) ?id) ?hs (?nb, 0) = Inr (nb', c')"
    "length nb' = 2 ^ Suc ?n" "buckets_ok (2 ^ Suc ?n) nb'"
    "mset (concat (map bkt_chain nb')) = mset ?hs"
    unfolding empty_buckets_chain length_replicate using empty_buckets_ok by auto
  have "\<not> 32 \<le> log2_num_buckets t + 1" using l2 room by (simp add: u32_ge_32)
  then have "HASH_EXPAND_BUCKETS True t = Inr (t\<lparr>ideal_chain_maxlen := ?id, nonideal_items := c',
      num_buckets := 2 ^ Suc ?n, log2_num_buckets := log2_num_buckets t + 1, buckets := nb',
      ineff_expands := (if drop_bit 1 (num_items t) < c' then ineff_expands t + 1 else 0),
      noexpand := (if 1 < (if drop_bit 1 (num_items t) < c' then ineff_expands t + 1 else 0)
                   then 1 else noexpand t)\<rparr>)"
    using r(1) by (simp only: HASH_EXPAND_BUCKETS_def Let_def nb un power_Suc [symmetric]) simp
  then show ?thesis using r l2 room by (simp add: expand_spec_def table_ok_def)
qed

lemma HASH_EXPAND_BUCKETS_Inr:
  assumes "table_ok t" and "HASH_EXPAND_BUCKETS a t = Inr t'"
  shows "expand_spec t t'"
proof -
  from assms(2) have a: "a" and l: "\<not> 32 \<le> log2_num_buckets t + 1"
    by (auto simp: HASH_EXPAND_BUCKETS_def split: if_splits)
  have "unat (log2_num_buckets t) \<le> 31" using assms(1) by (simp add: table_ok_def)
  with l have "unat (log2_num_buckets t) < 31" by (simp add: u32_ge_32 unat_Suc_u32)
  from HASH_EXPAND_BUCKETS_correct [OF assms(1) this] a assms(2) show ?thesis by auto
qed

subsection \<open>Insertion into a bucket\<close>

definition add_spec :: "'e UT_hash_handle \<Rightarrow> 'e UT_hash_table \<Rightarrow> 'e UT_hash_table \<Rightarrow> bool" where
  "add_spec h t t' \<longleftrightarrow>
     table_ok t' \<and> app_list t' = app_list t \<and> num_items t' = num_items t
     \<and> mset (concat (map bkt_chain (buckets t'))) = add_mset h (mset (concat (map bkt_chain (buckets t))))"

text \<open>The table after the handle is pushed and before a possible expansion.\<close>

definition bucket_push :: "'e UT_hash_handle \<Rightarrow> 'e UT_hash_table \<Rightarrow> 'e UT_hash_table" where
  "bucket_push h t =
    (let i = unat (HASH_TO_BKT (hh_hashv h) (num_buckets t)); b = buckets t ! i
     in t\<lparr>buckets := (buckets t)[i := b\<lparr>bkt_count := bkt_count b + 1, bkt_chain := h # bkt_chain b\<rparr>]\<rparr>)"

lemma bucket_push_spec:
  assumes ok: "table_ok t"
  shows "add_spec h t (bucket_push h t)"
proof -
  let ?i = "unat (HASH_TO_BKT (hh_hashv h) (num_buckets t))"
  let ?b = "buckets t ! ?i"
  let ?b' = "?b\<lparr>bkt_count := bkt_count ?b + 1, bkt_chain := h # bkt_chain ?b\<rparr>"
  have i: "?i < length (buckets t)" using ok by (rule table_ok_bkt)
  with ok have "bucket_ok (num_buckets t) ?i ?b" by (rule table_ok_bucket)
  then have "bucket_ok (num_buckets t) ?i ?b'" by (simp add: bucket_ok_def add.commute)
  with table_ok_buckets [OF ok] have "buckets_ok (num_buckets t) ((buckets t)[?i := ?b'])"
    by (rule buckets_ok_update)
  with ok have "table_ok (t\<lparr>buckets := (buckets t)[?i := ?b']\<rparr>)"
    by (rule table_ok_set_buckets) simp
  moreover have "mset (concat (map bkt_chain ((buckets t)[?i := ?b'])))
      = add_mset h (mset (concat (map bkt_chain (buckets t))))"
    by (rule mset_concat_update_Cons [OF i]) simp
  ultimately show ?thesis by (simp add: add_spec_def bucket_push_def Let_def)
qed

lemma HASH_ADD_TO_BKT_eq:
  assumes "table_ok t"
  shows "HASH_ADD_TO_BKT a (unat (HASH_TO_BKT (hh_hashv h) (num_buckets t))) h t =
    (let b = buckets t ! unat (HASH_TO_BKT (hh_hashv h) (num_buckets t))
     in if (expand_mult b + 1) * HASH_BKT_CAPACITY_THRESH \<le> bkt_count b + 1 \<and> noexpand t = 0
        then HASH_EXPAND_BUCKETS a (bucket_push h t) else Inr (bucket_push h t))"
  using table_ok_bkt [OF assms] by (simp add: HASH_ADD_TO_BKT_def bucket_push_def Let_def)

lemma expand_after_push:
  "add_spec h t u \<Longrightarrow> expand_spec u t' \<Longrightarrow> add_spec h t t'"
  by (simp add: add_spec_def expand_spec_def)

lemma HASH_ADD_TO_BKT_Inr:
  assumes "table_ok t"
    and "HASH_ADD_TO_BKT a (unat (HASH_TO_BKT (hh_hashv h) (num_buckets t))) h t = Inr t'"
  shows "add_spec h t t'"
proof -
  have p: "add_spec h t (bucket_push h t)" using assms(1) by (rule bucket_push_spec)
  then have pok: "table_ok (bucket_push h t)" by (simp add: add_spec_def)
  show ?thesis
    using assms(2) p expand_after_push [OF p] HASH_EXPAND_BUCKETS_Inr [OF pok]
    by (auto simp: HASH_ADD_TO_BKT_eq [OF assms(1)] Let_def split: if_splits)
qed

lemma HASH_ADD_TO_BKT_total:
  assumes "table_ok t" and "unat (log2_num_buckets t) < 31"
  shows "\<exists>t'. HASH_ADD_TO_BKT True (unat (HASH_TO_BKT (hh_hashv h) (num_buckets t))) h t = Inr t'"
proof -
  have "table_ok (bucket_push h t)" using bucket_push_spec [OF assms(1)] by (simp add: add_spec_def)
  moreover have "unat (log2_num_buckets (bucket_push h t)) < 31"
    using assms(2) by (simp add: bucket_push_def Let_def)
  ultimately have "\<exists>t'. HASH_EXPAND_BUCKETS True (bucket_push h t) = Inr t'"
    using HASH_EXPAND_BUCKETS_correct by blast
  then show ?thesis by (auto simp: HASH_ADD_TO_BKT_eq [OF assms(1)] Let_def)
qed

subsection \<open>Insertion\<close>

text \<open>The table \<open>HASH_ADD\<close> hands to \<open>HASH_ADD_TO_BKT\<close>.\<close>

lemma add_ready:
  assumes "uthash_ok head"
    and "(case head of None \<Rightarrow> HASH_MAKE_TABLE a hh
          | Some tbl \<Rightarrow> Inr (tbl\<lparr>app_list := app_list tbl @ [hh]\<rparr>)) = Inr t"
  shows "table_ok t" "num_items t + 1 = of_nat (length (app_list t))"
    "map (\<lambda>h. (hh_key h, hh_elt h)) (app_list t) = hash_items head @ [(hh_key hh, hh_elt hh)]"
    "add_mset hh (mset (concat (map bkt_chain (buckets t)))) = mset (app_list t)"
proof -
  consider (new) "head = None" "a" | (old) tbl where "head = Some tbl"
    using assms(2) by (cases head) (auto simp: HASH_MAKE_TABLE_def split: if_splits)
  note c = this
  have init: "buckets_ok 32 (replicate 32 empty_bucket)" by (rule empty_buckets_ok)
  have e: "concat (map bkt_chain (replicate 32 empty_bucket)) = []" by (rule empty_buckets_chain)
  show "table_ok t" using c
  proof cases
    case new
    then have "t = \<lparr>buckets = replicate 32 empty_bucket, num_buckets = 32, log2_num_buckets = 5,
        num_items = 0, app_list = [hh], ideal_chain_maxlen = 0, nonideal_items = 0,
        ineff_expands = 0, noexpand = 0\<rparr>" using assms(2)
      by (simp add: HASH_MAKE_TABLE_def HASH_INITIAL_NUM_BUCKETS_def HASH_INITIAL_NUM_BUCKETS_LOG2_def)
    then show ?thesis using init by (simp add: table_ok_def)
  next
    case old
    with assms show ?thesis by (auto simp: uthash_ok_def table_ok_def)
  qed
  show "num_items t + 1 = of_nat (length (app_list t))" using c assms
    by cases (auto simp: HASH_MAKE_TABLE_def uthash_ok_def add.commute)
  show "map (\<lambda>h. (hh_key h, hh_elt h)) (app_list t) = hash_items head @ [(hh_key hh, hh_elt hh)]"
    using c assms by cases (auto simp: HASH_MAKE_TABLE_def hash_items_def)
  show "add_mset hh (mset (concat (map bkt_chain (buckets t)))) = mset (app_list t)"
    using c assms e
    by cases (auto simp: HASH_MAKE_TABLE_def HASH_INITIAL_NUM_BUCKETS_def uthash_ok_def)
qed

lemma HASH_ADD_Inr:
  assumes ok: "uthash_ok head" and fresh: "e \<notin> snd ` set (hash_items head)"
    and add: "HASH_ADD a k e head = Inr head'"
  shows "uthash_ok head' \<and> hash_items head' = hash_items head @ [(k, e)]"
proof -
  let ?hh = "\<lparr>hh_elt = e, hh_key = k, hh_hashv = HASH_JEN k\<rparr>"
  from add obtain t t' where t: "(case head of None \<Rightarrow> HASH_MAKE_TABLE a ?hh
          | Some tbl \<Rightarrow> Inr (tbl\<lparr>app_list := app_list tbl @ [?hh]\<rparr>)) = Inr t"
    and t': "HASH_ADD_TO_TABLE a ?hh t = Inr t'" and head': "head' = Some t'"
    by (auto simp: HASH_ADD_def HASH_ADD_KEYPTR_BYHASHVALUE_def result_simps Let_def)
  note r = add_ready [OF ok t]
  let ?u = "t\<lparr>num_items := num_items t + 1\<rparr>"
  have u: "table_ok ?u" using r(1) by simp
  have "add_spec ?hh ?u t'"
    using t' HASH_ADD_TO_BKT_Inr [OF u, of a ?hh t'] by (simp add: HASH_ADD_TO_TABLE_def Let_def)
  then have s: "table_ok t'" "app_list t' = app_list t" "num_items t' = num_items t + 1"
    "mset (concat (map bkt_chain (buckets t'))) = mset (app_list t)"
    using r(4) by (simp_all add: add_spec_def)
  have items: "hash_items head' = hash_items head @ [(k, e)]"
    using s(2) r(3) by (simp add: head' hash_items_def)
  have "map hh_elt (app_list t') = map snd (hash_items head) @ [e]"
    using items map_snd_hash_items [of t'] by (simp add: head')
  moreover have "distinct (map snd (hash_items head))"
    using ok by (auto simp: uthash_ok_def hash_items_def comp_def split: option.splits)
  ultimately have d: "distinct (map hh_elt (app_list t'))" using fresh by auto
  have "list_all (\<lambda>h. hh_hashv h = HASH_JEN (hh_key h)) (app_list t')"
    using ok t s(2) by (cases head) (auto simp: HASH_MAKE_TABLE_def uthash_ok_def split: if_splits)
  then show ?thesis
    using s r(2) d items by (auto simp: head' uthash_ok_def hash_items_def)
qed

lemma HASH_ADD_total:
  assumes ok: "uthash_ok head" and room: "hash_room head"
  shows "\<exists>head'. HASH_ADD True k e head = Inr head'"
proof -
  let ?hh = "\<lparr>hh_elt = e, hh_key = k, hh_hashv = HASH_JEN k\<rparr>"
  have "\<exists>t. (case head of None \<Rightarrow> HASH_MAKE_TABLE True ?hh
          | Some tbl \<Rightarrow> Inr (tbl\<lparr>app_list := app_list tbl @ [?hh]\<rparr>)) = Inr t
      \<and> unat (log2_num_buckets t) < 31"
    using room by (cases head)
      (auto simp: HASH_MAKE_TABLE_def HASH_INITIAL_NUM_BUCKETS_LOG2_def hash_room_def word_less_nat_alt)
  then obtain t where t: "(case head of None \<Rightarrow> HASH_MAKE_TABLE True ?hh
          | Some tbl \<Rightarrow> Inr (tbl\<lparr>app_list := app_list tbl @ [?hh]\<rparr>)) = Inr t"
    "unat (log2_num_buckets t) < 31" by blast
  let ?u = "t\<lparr>num_items := num_items t + 1\<rparr>"
  have "table_ok ?u" using add_ready(1) [OF ok t(1)] by simp
  from HASH_ADD_TO_BKT_total [OF this, of ?hh] t(2)
  have "\<exists>t'. HASH_ADD_TO_TABLE True ?hh t = Inr t'" by (simp add: HASH_ADD_TO_TABLE_def Let_def)
  then show ?thesis
    using t(1) by (auto simp: HASH_ADD_def HASH_ADD_KEYPTR_BYHASHVALUE_def Let_def)
qed

subsection \<open>Lookup\<close>

lemma HASH_FIND_correct:
  assumes ok: "uthash_ok head"
  shows "\<exists>r. HASH_FIND k head = Inr r \<and>
    (case r of None \<Rightarrow> k \<notin> fst ` set (hash_items head) | Some e \<Rightarrow> (k, e) \<in> set (hash_items head))"
proof (cases head)
  case None
  then show ?thesis by (simp add: HASH_FIND_def HASH_FIND_BYHASHVALUE_def hash_items_def)
next
  case (Some t)
  let ?i = "unat (HASH_TO_BKT (HASH_JEN k) (num_buckets t))"
  let ?c = "bkt_chain (buckets t ! ?i)"
  from ok Some have tok: "table_ok t"
    and ms: "mset (concat (map bkt_chain (buckets t))) = mset (app_list t)"
    and hv: "\<And>h. h \<in> set (app_list t) \<Longrightarrow> hh_hashv h = HASH_JEN (hh_key h)"
    by (auto simp: uthash_ok_def list_all_iff)
  have i: "?i < length (buckets t)" using tok by (rule table_ok_bkt)
  have set_eq: "set (concat (map bkt_chain (buckets t))) = set (app_list t)"
    using ms by (metis set_mset_mset)
  have chain: "h \<in> set ?c" if "h \<in> set (app_list t)" "hh_key h = k" for h
    using chain_mem [OF tok, of h, unfolded set_eq] hv [OF that(1)] that by simp
  have sub: "set ?c \<subseteq> set (app_list t)" using i set_eq by auto
  have r: "HASH_FIND k head = Inr (HASH_FIND_IN_BKT ?c k (HASH_JEN k))"
    using i by (simp add: Some HASH_FIND_def HASH_FIND_BYHASHVALUE_def Let_def)
  show ?thesis
  proof (cases "HASH_FIND_IN_BKT ?c k (HASH_JEN k)")
    case None
    have "hh_key h \<noteq> k" if "h \<in> set (app_list t)" for h
      using find_in_bkt_None [OF None chain [OF that]] hv [OF that] by auto
    then have "\<forall>h \<in> set (app_list t). hh_key h \<noteq> k" by blast
    then have "k \<notin> fst ` set (hash_items head)" by (auto simp: Some hash_items_def)
    with r None show ?thesis by simp
  next
    case (Some e)
    from find_in_bkt_Some [OF Some] sub have "(k, e) \<in> set (hash_items head)"
      by (auto simp: \<open>head = Some t\<close> hash_items_def image_iff)
    with r Some show ?thesis by simp
  qed
qed

subsection \<open>Deletion\<close>

lemma map_update_filter:
  assumes "i < length bs" and "\<And>j. j < length bs \<Longrightarrow> j \<noteq> i \<Longrightarrow> filter P (f (bs ! j)) = f (bs ! j)"
    and "f b = filter P (f (bs ! i))"
  shows "concat (map f (bs[i := b])) = filter P (concat (map f bs))"
proof -
  have "map f (bs[i := b]) = map (filter P) (map f bs)"
    using assms by (auto intro!: nth_equalityI simp: nth_list_update)
  then show ?thesis by (simp add: filter_concat del: map_map)
qed

text \<open>The table after the handle \<open>del\<close> is taken out of its bucket.\<close>

lemma HASH_DEL_IN_BKT_correct:
  assumes tok: "table_ok t" and d: "distinct (map hh_elt (concat (map bkt_chain (buckets t))))"
    and mem: "del \<in> set (concat (map bkt_chain (buckets t)))"
  shows "\<exists>t'. HASH_DEL_IN_BKT (unat (HASH_TO_BKT (hh_hashv del) (num_buckets t))) del t = Inr t'
    \<and> table_ok t' \<and> app_list t' = app_list t \<and> num_items t' = num_items t
    \<and> concat (map bkt_chain (buckets t'))
        = filter (\<lambda>h. hh_elt h \<noteq> hh_elt del) (concat (map bkt_chain (buckets t)))"
proof -
  let ?P = "\<lambda>h. hh_elt h \<noteq> hh_elt del"
  let ?i = "unat (HASH_TO_BKT (hh_hashv del) (num_buckets t))"
  let ?b = "buckets t ! ?i"
  let ?b' = "?b\<lparr>bkt_count := bkt_count ?b - 1, bkt_chain := filter ?P (bkt_chain ?b)\<rparr>"
  have i: "?i < length (buckets t)" using tok by (rule table_ok_bkt)
  have c: "del \<in> set (bkt_chain ?b)" using tok mem by (rule chain_mem)
  have "bkt_chain ?b \<in> set (map bkt_chain (buckets t))" using i by simp
  with d have "distinct (map hh_elt (bkt_chain ?b))" by (rule distinct_map_concat)
  then have r1: "filter ?P (bkt_chain ?b) = remove1 del (bkt_chain ?b)"
    using c by (rule filter_neq_remove1)
  have b: "bucket_ok (num_buckets t) ?i ?b" using tok i by (rule table_ok_bucket)
  have "length (filter ?P (bkt_chain ?b)) = length (bkt_chain ?b) - 1"
    unfolding r1 using c by (simp add: length_remove1)
  moreover have "0 < length (bkt_chain ?b)" using c by (rule length_pos_if_in_set)
  ultimately have "bkt_count ?b - 1 = of_nat (length (filter ?P (bkt_chain ?b)))"
    using b of_nat_pred unfolding bucket_ok_def by metis
  with b have "bucket_ok (num_buckets t) ?i ?b'" by (simp add: bucket_ok_def list_all_iff)
  with table_ok_buckets [OF tok] have "buckets_ok (num_buckets t) ((buckets t)[?i := ?b'])"
    by (rule buckets_ok_update)
  with tok have "table_ok (t\<lparr>buckets := (buckets t)[?i := ?b']\<rparr>)"
    by (rule table_ok_set_buckets) simp
  moreover have "concat (map bkt_chain ((buckets t)[?i := ?b'])) = filter ?P (concat (map bkt_chain (buckets t)))"
  proof (rule map_update_filter [OF i])
    fix j assume j: "j < length (buckets t)" "j \<noteq> ?i"
    have "hh_elt h \<noteq> hh_elt del" if "h \<in> set (bkt_chain (buckets t ! j))" for h
      using distinct_map_inj [OF d _ mem, of h] chain_bkt [OF tok j(1) that] that j
      unfolding concat_map_mem by auto
    then show "filter ?P (bkt_chain (buckets t ! j)) = bkt_chain (buckets t ! j)"
      by (simp add: filter_id_conv)
  qed simp
  ultimately show ?thesis using i by (simp add: HASH_DEL_IN_BKT_def Let_def)
qed

lemma HASH_DEL_correct:
  assumes ok: "uthash_ok head" and mem: "(k, e) \<in> set (hash_items head)"
  shows "\<exists>head'. HASH_DEL e head = Inr head' \<and> uthash_ok head'
    \<and> hash_items head' = filter (\<lambda>p. snd p \<noteq> e) (hash_items head)"
proof -
  from mem obtain t where head: "head = Some t"
    by (cases head) (auto simp: hash_items_def)
  let ?P = "\<lambda>h. hh_elt h \<noteq> e"
  let ?app = "filter ?P (app_list t)"
  from ok have tok: "table_ok t" and d: "distinct (map hh_elt (app_list t))"
    and ms: "mset (concat (map bkt_chain (buckets t))) = mset (app_list t)"
    and hv: "list_all (\<lambda>h. hh_hashv h = HASH_JEN (hh_key h)) (app_list t)"
    and n: "num_items t = of_nat (length (app_list t))"
    by (auto simp: uthash_ok_def head)
  from mem have "\<exists>h \<in> set (app_list t). hh_elt h = e" by (auto simp: head hash_items_def)
  then obtain del where f: "find (\<lambda>h. hh_elt h = e) (app_list t) = Some del"
    and del: "del \<in> set (app_list t)" "hh_elt del = e"
    using find_ex [of _ "app_list t" "\<lambda>h. hh_elt h = e"] by blast
  have r1: "?app = remove1 del (app_list t)" using filter_neq_remove1 [OF d del(1)] del(2) by simp
  show ?thesis
  proof (cases "length (app_list t) = 1")
    case True
    then have "app_list t = [del]" using del by (cases "app_list t") auto
    with True f del(2) show ?thesis
      by (simp add: head HASH_DEL_def uthash_ok_def hash_items_def)
  next
    case False
    let ?u = "t\<lparr>app_list := ?app\<rparr>"
    have "table_ok ?u" "distinct (map hh_elt (concat (map bkt_chain (buckets ?u))))"
      "del \<in> set (concat (map bkt_chain (buckets ?u)))"
      using tok d del(1) distinct_map_mset [OF ms, of hh_elt] mset_eq_setD [OF ms] by auto
    from HASH_DEL_IN_BKT_correct [OF this] obtain t' where t':
      "HASH_DEL_IN_BKT (unat (HASH_TO_BKT (hh_hashv del) (num_buckets t))) del ?u = Inr t'"
      "table_ok t'" "app_list t' = ?app" "num_items t' = num_items t"
      "concat (map bkt_chain (buckets t')) = filter ?P (concat (map bkt_chain (buckets t)))"
      using del(2) by auto
    have "length ?app = length (app_list t) - 1" "?app \<noteq> []"
      using r1 del(1) False by (auto simp: length_remove1 simp flip: length_greater_0_conv)
        (metis One_nat_def Suc_lessI length_pos_if_in_set)
    moreover have "mset (concat (map bkt_chain (buckets t'))) = mset ?app"
      using t'(5) ms by (simp only: mset_filter)
    moreover have "distinct (map hh_elt ?app)" using d by (simp add: distinct_map_filter)
    ultimately have "uthash_ok (Some (t'\<lparr>num_items := num_items t' - 1\<rparr>))"
      using t' hv n length_pos_if_in_set [OF del(1)]
      by (auto simp: uthash_ok_def list_all_iff of_nat_pred)
    moreover have "HASH_DEL e head = Inr (Some (t'\<lparr>num_items := num_items t' - 1\<rparr>))"
      using f False t'(1) by (simp add: head HASH_DEL_def Let_def)
    ultimately show ?thesis
      using t'(3) by (simp add: head hash_items_def filter_map comp_def)
  qed
qed

lemma HASH_ITER_items: "HASH_ITER h = map snd (hash_items h)"
  by (cases h) (simp_all add: HASH_ITER_def hash_items_def)

subsection \<open>The interface of a keyed table\<close>

text \<open>
  What the clients rely on: \<open>items\<close> is the content in insertion order; \<open>add\<close> appends, \<open>del\<close>
  removes one element, \<open>find\<close> returns some element with the key exactly when there is one.
\<close>

locale keyed_store =
  fixes empty :: 'h
    and add :: "bool \<Rightarrow> byte list \<Rightarrow> 'e \<Rightarrow> 'h \<Rightarrow> 'h result"
    and look :: "byte list \<Rightarrow> 'h \<Rightarrow> 'e option result"
    and del :: "'e \<Rightarrow> 'h \<Rightarrow> 'h result"
    and items :: "'h \<Rightarrow> (byte list \<times> 'e) list"
    and invar :: "'h \<Rightarrow> bool"
    and room :: "'h \<Rightarrow> bool"
  assumes invar_empty: "invar empty"
    and items_empty: "items empty = []"
    and elts_distinct: "invar h \<Longrightarrow> distinct (map snd (items h))"
    and look_correct: "invar h \<Longrightarrow> \<exists>r. look k h = Inr r \<and>
      (case r of None \<Rightarrow> k \<notin> fst ` set (items h) | Some e \<Rightarrow> (k, e) \<in> set (items h))"
    and add_Inr: "invar h \<Longrightarrow> e \<notin> snd ` set (items h) \<Longrightarrow> add a k e h = Inr h'
      \<Longrightarrow> invar h' \<and> items h' = items h @ [(k, e)]"
    and add_fresh: "invar h \<Longrightarrow> room h \<Longrightarrow> e \<notin> snd ` set (items h) \<Longrightarrow> \<exists>h'. add True k e h = Inr h'"
    and del_correct: "invar h \<Longrightarrow> (k, e) \<in> set (items h) \<Longrightarrow>
      \<exists>h'. del e h = Inr h' \<and> invar h' \<and> items h' = filter (\<lambda>p. snd p \<noteq> e) (items h)"
begin

lemma look_map_of:
  assumes "invar h" and "distinct (map fst (items h))"
  shows "look k h = Inr (map_of (items h) k)"
proof -
  from look_correct [OF assms(1), of k] obtain r where r: "look k h = Inr r"
    "case r of None \<Rightarrow> k \<notin> fst ` set (items h) | Some e \<Rightarrow> (k, e) \<in> set (items h)" by blast
  have "map_of (items h) k = r"
    using r(2) assms(2) by (cases r) (auto simp: map_of_eq_None_iff)
  with r(1) show ?thesis by simp
qed

lemma look_None_iff: "invar h \<Longrightarrow> look k h = Inr None \<longleftrightarrow> k \<notin> fst ` set (items h)"
proof -
  assume "invar h"
  from look_correct [OF this, of k] obtain r where r: "look k h = Inr r"
    "case r of None \<Rightarrow> k \<notin> fst ` set (items h) | Some e \<Rightarrow> (k, e) \<in> set (items h)" by blast
  then show ?thesis by (cases r) force+
qed

lemma look_Some_mem: "invar h \<Longrightarrow> look k h = Inr (Some e) \<Longrightarrow> (k, e) \<in> set (items h)"
  using look_correct [of h k] by (auto split: option.splits)

lemma look_total: "invar h \<Longrightarrow> is_ok (look k h)"
  using look_correct [of h k] by auto

text \<open>After an insertion the key is found, and other keys are as before.\<close>

lemma look_after_add:
  assumes "invar h" and "e \<notin> snd ` set (items h)" and "distinct (map fst (items h))"
    and "k \<notin> fst ` set (items h)" and "add a k e h = Inr h'"
  shows "look k' h' = (if k' = k then Inr (Some e) else look k' h)"
proof -
  from add_Inr [OF assms(1,2,5)] have h': "invar h'" "items h' = items h @ [(k, e)]" by auto
  with assms(3,4) have d: "distinct (map fst (items h'))" by auto
  have "map_of (items h) k = None" using assms(4) by (simp add: map_of_eq_None_iff)
  then show ?thesis
    using look_map_of [OF h'(1) d] look_map_of [OF assms(1,3)] h'(2)
    by (auto simp: map_add_def split: option.splits)
qed

text \<open>Without distinct keys: a key that is stored at most once is looked up as before.\<close>

lemma look_after_insert:
  assumes ok: "invar h" and e: "e \<notin> snd ` set (items h)" and r: "add a k e h = Inr h'"
  shows "k \<notin> fst ` set (items h) \<Longrightarrow> look k h' = Inr (Some e)"
    and "k' \<noteq> k \<Longrightarrow> look k' h' = Inr None \<longleftrightarrow> look k' h = Inr None"
    and "k' \<noteq> k \<Longrightarrow> length (filter (\<lambda>p. fst p = k') (items h)) \<le> 1 \<Longrightarrow> look k' h' = look k' h"
proof -
  from add_Inr [OF ok e r] have h': "invar h'" "items h' = items h @ [(k, e)]" by auto
  show "k \<notin> fst ` set (items h) \<Longrightarrow> look k h' = Inr (Some e)"
    using look_correct [OF h'(1), of k] h'(2) by (force split: option.splits)
  show n: "look k' h' = Inr None \<longleftrightarrow> look k' h = Inr None" if "k' \<noteq> k"
    using that by (simp add: look_None_iff [OF ok] look_None_iff [OF h'(1)] h'(2))
  assume k: "k' \<noteq> k" and one: "length (filter (\<lambda>p. fst p = k') (items h)) \<le> 1"
  from look_correct [OF ok, of k'] obtain x where x: "look k' h = Inr x"
    "case x of None \<Rightarrow> k' \<notin> fst ` set (items h) | Some e \<Rightarrow> (k', e) \<in> set (items h)" by blast
  from look_correct [OF h'(1), of k'] obtain y where y: "look k' h' = Inr y"
    "case y of None \<Rightarrow> k' \<notin> fst ` set (items h') | Some e \<Rightarrow> (k', e) \<in> set (items h')" by blast
  show "look k' h' = look k' h"
  proof (cases x)
    case None
    with n [OF k] x(1) show ?thesis by simp
  next
    case (Some u)
    then obtain v where v: "y = Some v" using n [OF k] x(1) y(1) by (cases y) auto
    have "(k', u) \<in> set (filter (\<lambda>p. fst p = k') (items h))" using x(2) Some by simp
    moreover have "(k', v) \<in> set (filter (\<lambda>p. fst p = k') (items h))" using y(2) v k h'(2) by auto
    ultimately have "u = v" using one by (cases "filter (\<lambda>p. fst p = k') (items h)") auto
    with x(1) y(1) Some v show ?thesis by simp
  qed
qed

text \<open>Deleting elements one after the other, as a loop over the table does.\<close>

lemma del_list:
  assumes "invar h" and "set es \<subseteq> snd ` set (items h)" and "distinct es"
  shows "\<exists>h'. rfold del es h = Inr h' \<and> invar h'
    \<and> items h' = filter (\<lambda>p. snd p \<notin> set es) (items h)"
  using assms
proof (induction es arbitrary: h)
  case Nil
  then show ?case by simp
next
  case (Cons e es)
  from Cons.prems(2) obtain k where "(k, e) \<in> set (items h)" by auto
  from del_correct [OF Cons.prems(1) this] obtain h1 where h1: "del e h = Inr h1" "invar h1"
    "items h1 = filter (\<lambda>p. snd p \<noteq> e) (items h)" by blast
  have "set es \<subseteq> snd ` set (items h1)" using Cons.prems(2,3) h1(3) by force
  from Cons.IH [OF h1(2) this] Cons.prems(3) h1 show ?case
    by (auto simp: filter_filter intro!: filter_cong)
qed

end

text \<open>The tables of the model on lists take an element also when it is stored already.\<close>

locale keyed_table = keyed_store +
  assumes add_total: "invar h \<Longrightarrow> room h \<Longrightarrow> \<exists>h'. add True k e h = Inr h'"

interpretation ut: keyed_table None HASH_ADD HASH_FIND HASH_DEL hash_items uthash_ok hash_room
proof unfold_locales
  show "uthash_ok None" by (simp add: uthash_ok_def)
  show "hash_items None = []" by (simp add: hash_items_def)
next
  fix h :: "'e hash_head"
  assume "uthash_ok h"
  then show "distinct (map snd (hash_items h))"
    by (cases h) (auto simp: uthash_ok_def hash_items_def comp_def)
qed (blast intro: HASH_FIND_correct HASH_DEL_correct HASH_ADD_total dest: HASH_ADD_Inr)+

subsection \<open>Properties\<close>

lemma table_fsck: "uthash_ok head \<Longrightarrow> HASH_FSCK head"
proof (cases head)
  case None
  then show ?thesis by (simp add: HASH_FSCK_def)
next
  case (Some t)
  assume ok: "uthash_ok head"
  then have tok: "table_ok t" and n: "num_items t = of_nat (length (app_list t))"
    and ms: "mset (concat (map bkt_chain (buckets t))) = mset (app_list t)"
    by (auto simp: Some uthash_ok_def)
  have "length (concat (map bkt_chain (buckets t))) = length (app_list t)"
    using ms by (metis size_mset)
  then have "sum_list (map (\<lambda>b. length (bkt_chain b)) (buckets t)) = length (app_list t)"
    by (simp add: length_concat comp_def)
  moreover have "list_all (\<lambda>b. bkt_count b = of_nat (length (bkt_chain b))) (buckets t)"
    using table_ok_bucket [OF tok] by (auto simp: list_all_length bucket_ok_def)
  ultimately show ?thesis using n by (simp add: Some HASH_FSCK_def)
qed

text \<open>
  C21: Inserting a new element succeeds whenever there is room to double the buckets and memory
  is available; the table stays well-formed (every item is in the bucket its hash selects, the
  counters agree, so that \<open>HASH_FSCK\<close> reports no fault) and holds the old items followed by the
  new one, also when the insertion doubles the bucket array.
\<close>

theorem hash_add_keeps_table:
  assumes "uthash_ok head" and "hash_room head" and "e \<notin> snd ` set (hash_items head)"
  shows "\<exists>head'. HASH_ADD True k e head = Inr head' \<and> uthash_ok head' \<and> HASH_FSCK head'
    \<and> hash_items head' = hash_items head @ [(k, e)]"
  using ut.add_total [OF assms(1,2)] ut.add_Inr [OF assms(1,3)] table_fsck by metis

theorem hash_add_keeps_table_witness:
  "\<exists>h. HASH_ADD True [97] (7 :: nat) None = Inr h \<and> uthash_ok h \<and> HASH_FSCK h \<and> hash_items h = [([97], 7)]"
  using hash_add_keeps_table [of "None :: nat hash_head" 7 "[97]"]
  by (simp add: uthash_ok_def hash_room_def hash_items_def)

text \<open>
  C22: What lookups return after a completed insertion of an element that was not in the table, also in tables that store a key several times, as a blacklist with
  repeated names does.  When the key is new, looking it up returns the inserted element.  A lookup of another key
  finds something iff it did before; it finds the same element when the table stores that key at most once.
  (Of several elements under one key, a doubling of the buckets may bring another one to the front.)
\<close>

theorem hash_find_after_add:
  assumes "uthash_ok head" and "e \<notin> snd ` set (hash_items head)" and "HASH_ADD malloc_ok k e head = Inr head'"
  shows "(k \<notin> fst ` set (hash_items head) \<longrightarrow> HASH_FIND k head' = Inr (Some e))
    \<and> (k' \<noteq> k \<longrightarrow> (HASH_FIND k' head' = Inr None \<longleftrightarrow> HASH_FIND k' head = Inr None))
    \<and> (k' \<noteq> k \<and> length (filter (\<lambda>p. fst p = k') (hash_items head)) \<le> 1 \<longrightarrow> HASH_FIND k' head' = HASH_FIND k' head)"
  using ut.look_after_insert [OF assms] by blast

theorem hash_find_after_add_witness:
  "\<exists>h. HASH_ADD True [97] (7 :: nat) None = Inr h \<and> HASH_FIND [97] h = Inr (Some 7)
     \<and> HASH_FIND [98] h = HASH_FIND [98] None"
proof -
  have ok: "uthash_ok (None :: nat hash_head)" "hash_room (None :: nat hash_head)"
    by (simp_all add: uthash_ok_def hash_room_def)
  from ut.add_total [OF ok, of "[97]" 7] obtain h where h: "HASH_ADD True [97] (7 :: nat) None = Inr h" by blast
  from hash_find_after_add [OF ok(1) _ h, of "[98]"] h
  show ?thesis by (simp add: hash_items_def)
qed

text \<open>
  A lookup in a well-formed table never fails; it returns an element stored under the key,
  and NULL exactly when no element has that key.
\<close>

theorem hash_find_sound_complete:
  assumes "uthash_ok head"
  shows "\<exists>r. HASH_FIND k head = Inr r
    \<and> (case r of None \<Rightarrow> k \<notin> fst ` set (hash_items head) | Some e \<Rightarrow> (k, e) \<in> set (hash_items head))"
  using assms by (rule ut.look_correct)

theorem hash_find_sound_complete_witness:
  "\<exists>r. HASH_FIND [97] (None :: nat hash_head) = Inr r
    \<and> (case r of None \<Rightarrow> [97] \<notin> fst ` set (hash_items (None :: nat hash_head))
       | Some e \<Rightarrow> ([97], e) \<in> set (hash_items (None :: nat hash_head)))"
  by (rule hash_find_sound_complete) (simp add: uthash_ok_def)

text \<open>
  C23: Deleting an element of the table succeeds, keeps the table well-formed and removes exactly
  that element; the last deletion gives the empty table.
\<close>

theorem hash_delete_removes:
  assumes "uthash_ok head" and "(k, e) \<in> set (hash_items head)"
  shows "\<exists>head'. HASH_DEL e head = Inr head' \<and> uthash_ok head' \<and> HASH_FSCK head'
    \<and> hash_items head' = filter (\<lambda>p. snd p \<noteq> e) (hash_items head)
    \<and> (length (hash_items head) = 1 \<longrightarrow> head' = None)"
proof -
  from HASH_DEL_correct [OF assms] obtain h where h: "HASH_DEL e head = Inr h" "uthash_ok h"
    "hash_items h = filter (\<lambda>p. snd p \<noteq> e) (hash_items head)" by blast
  have "h = None" if "length (hash_items head) = 1"
  proof -
    have "hash_items h = []"
      using that assms(2) h(3) by (cases "hash_items head") auto
    then show ?thesis using h(2) by (cases h) (auto simp: hash_items_def uthash_ok_def)
  qed
  with h table_fsck show ?thesis by blast
qed

theorem hash_delete_removes_witness:
  "\<exists>h. HASH_ADD True [97] (7 :: nat) None = Inr h \<and> HASH_DEL 7 h = Inr None"
proof -
  have ok: "uthash_ok (None :: nat hash_head)" "hash_room (None :: nat hash_head)"
    by (simp_all add: uthash_ok_def hash_room_def)
  from ut.add_total [OF ok, of "[97]" 7] obtain h where h: "HASH_ADD True [97] (7 :: nat) None = Inr h" by blast
  from ut.add_Inr [OF ok(1) _ h] have "uthash_ok h" "hash_items h = [([97], 7)]"
    by (simp_all add: hash_items_def)
  with hash_delete_removes [of h "[97]" 7] h show ?thesis by auto
qed

text \<open>
  Doubling the bucket array keeps the table: every item of the old chains is in a new chain,
  in the bucket that the mask of the doubled size selects, no item is lost or duplicated, and the
  application order does not change.
\<close>

theorem hash_expand_keeps_items:
  assumes "table_ok t" and "unat (log2_num_buckets t) < 31"
  shows "\<exists>t'. HASH_EXPAND_BUCKETS True t = Inr t' \<and> table_ok t'
    \<and> num_buckets t' = 2 * num_buckets t
    \<and> app_list t' = app_list t \<and> num_items t' = num_items t
    \<and> mset (concat (map bkt_chain (buckets t'))) = mset (concat (map bkt_chain (buckets t)))"
proof -
  from HASH_EXPAND_BUCKETS_correct [OF assms] obtain t' where
    t': "HASH_EXPAND_BUCKETS True t = Inr t'" "expand_spec t t'" by blast
  then have "num_buckets t' = 2 * num_buckets t"
    by (auto simp: HASH_EXPAND_BUCKETS_def Let_def result_simps split: if_splits)
  with t' show ?thesis by (simp add: expand_spec_def)
qed

theorem hash_expand_keeps_items_witness:
  "\<exists>h t t'. HASH_ADD True [97] (7 :: nat) None = Inr h \<and> h = Some t
     \<and> HASH_EXPAND_BUCKETS True t = Inr t' \<and> num_buckets t' = 64 \<and> app_list t' = app_list t"
proof -
  let ?h = "\<lparr>hh_elt = (7 :: nat), hh_key = [97], hh_hashv = HASH_JEN [97]\<rparr>"
  let ?i = "unat (HASH_TO_BKT (HASH_JEN [97]) 32)"
  let ?b = "(replicate 32 empty_bucket)[?i := \<lparr>bkt_chain = [?h], bkt_count = 1, expand_mult = 0\<rparr>]"
  let ?t = "\<lparr>buckets = ?b, num_buckets = 32, log2_num_buckets = 5, num_items = 1, app_list = [?h],
    ideal_chain_maxlen = 0, nonideal_items = 0, ineff_expands = 0, noexpand = 0\<rparr>"
  have ok: "uthash_ok (None :: nat hash_head)" by (simp add: uthash_ok_def)
  let ?fresh = "\<lparr>buckets = replicate 32 empty_bucket, num_buckets = 32, log2_num_buckets = 5, num_items = 0,
    app_list = [?h], ideal_chain_maxlen = 0, nonideal_items = 0, ineff_expands = 0, noexpand = 0\<rparr>"
  have "table_ok ?fresh" by (simp add: table_ok_def empty_buckets_ok)
  from table_ok_bkt [OF this, of "HASH_JEN [97]"] have "?i < 32" by simp
  then have a: "HASH_ADD True [97] (7 :: nat) None = Inr (Some ?t)"
    by (simp add: HASH_ADD_def HASH_ADD_KEYPTR_BYHASHVALUE_def HASH_MAKE_TABLE_def HASH_ADD_TO_TABLE_def
        HASH_ADD_TO_BKT_def HASH_INITIAL_NUM_BUCKETS_def HASH_INITIAL_NUM_BUCKETS_LOG2_def
        HASH_BKT_CAPACITY_THRESH_def Let_def empty_bucket_def word_le_nat_alt)
  have "table_ok ?t" using HASH_ADD_Inr [OF ok _ a] by (simp add: uthash_ok_def hash_items_def)
  from hash_expand_keeps_items [OF this] a show ?thesis by auto
qed

end
