(* ===== verification/Domain_Suffix.thy ===== *)
theory Domain_Suffix
  imports Uthash
begin

text \<open>
  Two loops of the daemon walk a domain name from the left and look up what follows each dot.
  \<open>dot_suffixes\<close> is the list of the strings they try, \<open>suffix_table\<close> the contract both meet.
\<close>

fun after_dot :: "byte list \<Rightarrow> byte list option" where
  "after_dot [] = None"
| "after_dot (b # bs) = (if b = 46 then Some bs else after_dot bs)"

lemma after_dot_length: "after_dot s = Some r \<Longrightarrow> length r < length s"
  by (induction s) (fastforce split: if_splits)+

function dot_suffixes :: "byte list \<Rightarrow> byte list list" where
  "dot_suffixes s = s # (case after_dot s of None \<Rightarrow> [] | Some r \<Rightarrow> dot_suffixes r)"
  by pat_completeness auto
termination
  by (relation "measure length") (auto dest: after_dot_length)

declare dot_suffixes.simps [simp del]

lemma after_dot_Some: "after_dot s = Some r \<longleftrightarrow> (\<exists>u. 46 \<notin> set u \<and> s = u @ 46 # r)"
proof (induction s)
  case Nil
  then show ?case by simp
next
  case (Cons b s)
  show ?case
  proof (cases "b = 46")
    case True
    then show ?thesis by (auto simp: Cons_eq_append_conv)
  next
    case False
    with Cons show ?thesis by (auto simp: Cons_eq_append_conv)
  qed
qed

lemma after_dot_None: "after_dot s = None \<longleftrightarrow> 46 \<notin> set s"
  by (induction s) auto

text \<open>The strings tried are the name itself and what follows any of its dots.\<close>

lemma dot_suffixes_iff: "r \<in> set (dot_suffixes s) \<longleftrightarrow> r = s \<or> (\<exists>u. s = u @ 46 # r)"
proof (induction s rule: dot_suffixes.induct)
  case (1 s)
  show ?case
  proof (cases "after_dot s")
    case None
    then have "46 \<notin> set s" by (simp add: after_dot_None)
    with None show ?thesis by (auto simp: dot_suffixes.simps [of s])
  next
    case (Some s')
    then obtain v where v: "46 \<notin> set v" "s = v @ 46 # s'" by (auto simp: after_dot_Some)
    have "(\<exists>u. s = u @ 46 # r) \<longleftrightarrow> r = s' \<or> (\<exists>u. s' = u @ 46 # r)"
    proof
      assume "\<exists>u. s = u @ 46 # r"
      then obtain u where "v @ 46 # s' = u @ 46 # r" using v(2) by auto
      then show "r = s' \<or> (\<exists>u. s' = u @ 46 # r)"
        using v(1) by (auto simp: append_eq_append_conv2 Cons_eq_append_conv append_eq_Cons_conv)
    qed (use v(2) in \<open>auto intro: exI [of _ "v @ 46 # u" for u]\<close>)
    with 1 [OF Some] Some show ?thesis by (simp add: dot_suffixes.simps [of s])
  qed
qed

locale suffix_table = keyed_table +
  fixes hit :: "'b \<Rightarrow> 'r" and miss :: 'r
    and search :: "'a \<Rightarrow> byte list \<Rightarrow> 'r result"
  assumes search_step: "search h p = rbind (c_strlen p) (\<lambda>n. rbind (look (take n p) h) (\<lambda>d.
      case d of Some e \<Rightarrow> Inr (hit e)
      | None \<Rightarrow> rbind (c_strchr 46 p) (\<lambda>i.
          case i of None \<Rightarrow> Inr miss | Some i \<Rightarrow> search h (drop (Suc i) p))))"
begin

lemma search_unterminated: "\<not> terminated p \<Longrightarrow> search h p = Inl OobRead"
  by (subst search_step) (simp add: c_strlen_def)

lemma search_spec:
  assumes "invar h" and "terminated p"
  shows "\<exists>r. search h p = Inr r \<and>
    (case find (\<lambda>s. s \<in> fst ` set (items h)) (dot_suffixes (cstr p)) of
       None \<Rightarrow> r = miss | Some s \<Rightarrow> \<exists>e. (s, e) \<in> set (items h) \<and> r = hit e)"
  using assms(2)
proof (induction p rule: length_induct)
  case (1 p)
  let ?s = "cstr p"
  obtain q where p: "p = ?s @ 0 # q" using terminated_split [OF 1(2)] by blast
  have t: "take (length ?s) p = ?s" by (metis append_eq_conv_conj p)
  from look_correct [OF assms(1), of ?s] obtain d where d: "look ?s h = Inr d"
    "case d of None \<Rightarrow> ?s \<notin> fst ` set (items h) | Some e \<Rightarrow> (?s, e) \<in> set (items h)" by blast
  show ?case
  proof (cases d)
    case (Some e)
    with d t 1(2) show ?thesis
      by (subst search_step) (force simp: c_strlen_Inr dot_suffixes.simps [of ?s])
  next
    case None
    show ?thesis
    proof (cases "after_dot ?s")
      case no: None
      then have "c_strchr 46 p = Inr None"
        using c_strchr_miss [of 46 ?s q] cstr_no_zero p by (simp add: after_dot_None)
      with None d t 1(2) no show ?thesis
        by (subst search_step) (auto simp: c_strlen_Inr dot_suffixes.simps [of ?s])
    next
      case (Some r)
      then obtain u where u: "46 \<notin> set u" "?s = u @ 46 # r" by (auto simp: after_dot_Some)
      have z: "0 \<notin> set u" "0 \<notin> set r" using cstr_no_zero [of p] u(2) by auto
      have pq: "p = u @ 46 # r @ 0 # q" using p u(2) by simp
      have "c_strchr 46 p = Inr (Some (length u))" unfolding pq using u(1) z(1) by (rule c_strchr_hit)
      moreover have "drop (Suc (length u)) p = r @ 0 # q" unfolding pq by simp
      ultimately have step: "search h p = search h (r @ 0 # q)"
        using None d t 1(2) by (subst search_step) (simp add: c_strlen_Inr)
      have "length (r @ 0 # q) < length p" by (simp add: pq)
      then have "\<exists>r'. search h (r @ 0 # q) = Inr r' \<and>
        (case find (\<lambda>s. s \<in> fst ` set (items h)) (dot_suffixes r) of
         None \<Rightarrow> r' = miss | Some s \<Rightarrow> \<exists>e. (s, e) \<in> set (items h) \<and> r' = hit e)"
        using 1(1) [rule_format, of "r @ 0 # q"] z(2) by simp
      with None d Some step show ?thesis by (simp add: dot_suffixes.simps [of ?s])
    qed
  qed
qed

end

end
