(* ===== verification/Json_Api.thy ===== *)
theory Json_Api
  imports C_Prelude
begin

text \<open>
  The part of json-c and libcurl the daemon calls.  The libraries are not part of the
  repository, so they are parameters: \<open>json_c\<close> is a record of the accessors, over an abstract
  type \<open>'j\<close> of JSON values and an abstract type \<open>'t\<close> of tokener states; a NULL object is
  \<open>None\<close>.  What the daemon builds with \<open>json_object_new_*\<close> is a tree of type \<open>json_doc\<close>, whose
  text form is again a parameter.  A transfer is described by the options set on its handle;
  the world answers it with a result code and the chunks handed to the write callback.
\<close>

record ('j, 't) json_c =
  json_object_object_get :: "'j \<Rightarrow> string \<Rightarrow> 'j option"
  json_object_get_string :: "'j option \<Rightarrow> byte list option"
  json_object_get_int :: "'j option \<Rightarrow> int"
  json_object_get_int64 :: "'j option \<Rightarrow> int"
  json_object_array_length :: "'j \<Rightarrow> nat"
  json_object_array_get_idx :: "'j \<Rightarrow> nat \<Rightarrow> 'j option"
  json_tokener_new :: 't
  json_tokener_parse_ex :: "'t \<Rightarrow> byte list \<Rightarrow> 't \<times> 'j option"

datatype json_doc =
    JString "byte list"
  | JInt int
  | JArray "json_doc list"
  | JObject "(string \<times> json_doc) list"

text \<open>The options the daemon sets on a curl handle.\<close>

datatype curl_opt =
    CURLOPT_URL "byte list"
  | CURLOPT_HTTP_VERSION_2TLS
  | CURLOPT_CUSTOMREQUEST string
  | CURLOPT_BUFFERSIZE nat
  | CURLOPT_TIMEOUT_MS nat
  | CURLOPT_USERAGENT string
  | CURLOPT_HTTPHEADER "byte list list"
  | CURLOPT_WRITEFUNCTION
  | CURLOPT_POSTFIELDS "byte list"
  | CURLOPT_WRITEDATA
  | CURLOPT_NOPROGRESS nat
  | CURLOPT_MAXREDIRS nat
  | CURLOPT_TCP_KEEPALIVE nat
  | CURLOPT_FTP_SKIP_PASV_IP nat
  | CURLOPT_SSL_VERIFYPEER nat
  | CURLOPT_SSL_VERIFYHOST nat

text \<open>\<open>curl_easy_perform\<close>: whether it returns \<open>CURLE_OK\<close>, and the chunks it received.\<close>

type_synonym curl = "curl_opt list \<Rightarrow> bool \<times> byte list list"

end
