(* ===== verification/Json_Instance.thy ===== *)
theory Json_Instance
  imports Json_Api
begin

text \<open>
  A concrete JSON library, to instantiate the parameter \<open>json_c\<close> where a theorem is applied:
  documents are values of \<open>json_val\<close>, a null value is a NULL pointer, and the tokener answers
  every chunk with one fixed document.
\<close>

datatype json_val = VNull | VInt int | VStr "byte list" | VArr "json_val list" | VObj "(string \<times> json_val) list"

fun val_ptr :: "json_val \<Rightarrow> json_val option" where
  "val_ptr VNull = None"
| "val_ptr v = Some v"

fun val_get :: "json_val \<Rightarrow> string \<Rightarrow> json_val option" where
  "val_get (VObj kvs) k = (case map_of kvs k of None \<Rightarrow> None | Some v \<Rightarrow> val_ptr v)"
| "val_get v k = None"

fun val_string :: "json_val option \<Rightarrow> byte list option" where
  "val_string (Some (VStr s)) = (if 0 \<in> set s then None else Some s)"
| "val_string v = None"

fun val_int :: "json_val option \<Rightarrow> int" where
  "val_int (Some (VInt i)) = i"
| "val_int v = 0"

fun val_length :: "json_val \<Rightarrow> nat" where
  "val_length (VArr vs) = length vs"
| "val_length v = 0"

fun val_idx :: "json_val \<Rightarrow> nat \<Rightarrow> json_val option" where
  "val_idx (VArr vs) i = (if i < length vs then val_ptr (vs ! i) else None)"
| "val_idx v i = None"

definition json_instance :: "json_val option \<Rightarrow> (json_val, unit) json_c" where
  "json_instance reply = \<lparr>json_object_object_get = val_get, json_object_get_string = val_string,
     json_object_get_int = val_int, json_object_get_int64 = val_int,
     json_object_array_length = val_length, json_object_array_get_idx = val_idx,
     json_tokener_new = (), json_tokener_parse_ex = (\<lambda>t c. (t, reply))\<rparr>"

end
