(* ===== verification/Config.thy ===== *)
theory Config
  imports Domain_Suffix Json_Instance
begin

text \<open>
  \<open>config.c\<close>: the configuration record, loading it from a JSON document, printing it, and the
  four questions the rest of the daemon asks of it.  JSON values come from the parameter \<open>J\<close>
  (\<open>json_c\<close>).  The outcomes of \<open>calloc\<close> and of the table's \<open>malloc\<close> are parameters too.  A
  \<open>domain_t\<close> carries the identity of its heap object (\<open>d_addr\<close>) beside its contents, which
  never change after creation.

  The lemmas show which strings and numbers end up in the record, that truncation never
  writes outside a buffer, which strings leave a buffer without terminator, and that the
  black- and whitelist match a name exactly when the name or a parent domain is listed.
\<close>

definition DOMAIN_LENGTH :: nat where "DOMAIN_LENGTH = 256"
definition SERVERADDR_LENGTH :: nat where "SERVERADDR_LENGTH = 256"
definition USERNAME_LENGTH :: nat where "USERNAME_LENGTH = 64"
definition PASSWORD_LENGTH :: nat where "PASSWORD_LENGTH = 64"

subsection \<open>Data\<close>

record domain_t =
  d_addr :: nat
  d_domain :: "byte list"

record cloudlogging =
  cl_auth :: "byte list"
  cl_addr :: "byte list"
  cl_user :: "byte list"
  cl_pass :: "byte list"

record config =
  serveraddr :: "byte list"
  categories_length :: nat
  categories :: "int list option"
  applications_length :: nat
  applications :: "int list option"
  domains_blacklist :: "domain_t hash_head"
  domains_whitelist :: "domain_t hash_head"
  cloudlogging :: cloudlogging

definition configdefault_serveraddr :: "byte list" where
  "configdefault_serveraddr = bytes ''https://localhost:3500/query''"

definition config_init :: config where
  "config_init = \<lparr>serveraddr = replicate SERVERADDR_LENGTH 0,
     categories_length = 0, categories = None, applications_length = 0, applications = None,
     domains_blacklist = None, domains_whitelist = None,
     cloudlogging = \<lparr>cl_auth = replicate SERVERADDR_LENGTH 0, cl_addr = replicate SERVERADDR_LENGTH 0,
       cl_user = replicate USERNAME_LENGTH 0, cl_pass = replicate PASSWORD_LENGTH 0\<rparr>\<rparr>"

definition domain_create :: "bool \<Rightarrow> nat \<Rightarrow> byte list option \<Rightarrow> domain_t option result" where
  "domain_create calloc_ok addr domain =
    (if \<not> calloc_ok then Inr None
     else case domain of
       None \<Rightarrow> Inl NullDeref
     | Some s \<Rightarrow> rbind (c_strlen (cmem s)) (\<lambda>domain_length.
         let copy_length = (if DOMAIN_LENGTH < domain_length then DOMAIN_LENGTH - 1 else domain_length)
         in rbind (c_memcpy (replicate DOMAIN_LENGTH 0) 0 (cmem s) 0 copy_length) (\<lambda>buf.
              Inr (Some \<lparr>d_addr = addr, d_domain = buf\<rparr>))))"

subsection \<open>Loading\<close>

definition config_load_serveraddr :: "('j, 't) json_c \<Rightarrow> 'j option \<Rightarrow> config \<Rightarrow> config result" where
  "config_load_serveraddr J j_serveraddr cfg =
    (let addr = (case j_serveraddr of
                   None \<Rightarrow> configdefault_serveraddr
                 | Some j \<Rightarrow> (case json_object_get_string J (Some j) of
                               None \<Rightarrow> configdefault_serveraddr | Some a \<Rightarrow> a))
     in rbind (c_strlen (cmem addr)) (\<lambda>serveraddr_length.
          let copy_length = (if SERVERADDR_LENGTH < serveraddr_length
                             then SERVERADDR_LENGTH - 1 else serveraddr_length)
          in rbind (c_memcpy (serveraddr cfg) 0 (cmem addr) 0 copy_length) (\<lambda>buf.
               Inr (cfg\<lparr>serveraddr := buf\<rparr>))))"

text \<open>The loop shared by the integer arrays: element \<open>i\<close> is stored at the next free index \<open>k\<close>.\<close>

definition load_int_elem :: "('j, 't) json_c \<Rightarrow> 'j \<Rightarrow> nat \<Rightarrow> nat \<times> int list \<Rightarrow> (nat \<times> int list) result" where
  "load_int_elem J arr i st =
    (case json_object_array_get_idx J arr i of
       None \<Rightarrow> Inr st
     | Some j \<Rightarrow> (case st of (k, xs) \<Rightarrow>
         if k < length xs then Inr (k + 1, xs[k := json_object_get_int J (Some j)]) else Inl OobWrite))"

definition array_length_or_0 :: "('j, 't) json_c \<Rightarrow> 'j \<Rightarrow> nat" where
  "array_length_or_0 J arr = nat (int_of_size (json_object_array_length J arr))"

definition config_load_categories ::
    "('j, 't) json_c \<Rightarrow> bool \<Rightarrow> 'j option \<Rightarrow> config \<Rightarrow> config result" where
  "config_load_categories J calloc_ok j_categories cfg =
    (case j_categories of
       None \<Rightarrow> Inr cfg
     | Some arr \<Rightarrow>
         (let n = array_length_or_0 J arr
          in if \<not> calloc_ok then Inr cfg
             else rbind (rfold (load_int_elem J arr) [0..<n] (0, replicate n 0)) (\<lambda>(k, xs).
                    Inr (cfg\<lparr>categories_length := k, categories := Some xs\<rparr>))))"

definition config_load_applications ::
    "('j, 't) json_c \<Rightarrow> bool \<Rightarrow> 'j option \<Rightarrow> config \<Rightarrow> config result" where
  "config_load_applications J calloc_ok j_applications cfg =
    (case j_applications of
       None \<Rightarrow> Inr cfg
     | Some arr \<Rightarrow>
         (let n = array_length_or_0 J arr
          in if \<not> calloc_ok then Inr cfg
             else rbind (rfold (load_int_elem J arr) [0..<n] (0, replicate n 0)) (\<lambda>(k, xs).
                    Inr (cfg\<lparr>applications_length := k, applications := Some xs\<rparr>))))"

text \<open>
  The blacklist loop tests the array pointer, not the element, for NULL, so a NULL element
  reaches \<open>json_object_get_string\<close>; the whitelist loop skips it.
\<close>

definition blacklist_elem ::
    "('j, 't) json_c \<Rightarrow> (nat \<Rightarrow> bool) \<Rightarrow> bool \<Rightarrow> 'j \<Rightarrow> nat \<Rightarrow> domain_t hash_head \<Rightarrow> domain_t hash_head result" where
  "blacklist_elem J calloc_ok malloc_ok arr i tbl =
     rbind (domain_create (calloc_ok i) i (json_object_get_string J (json_object_array_get_idx J arr i)))
       (\<lambda>d. case d of None \<Rightarrow> Inr tbl | Some d \<Rightarrow> HASH_ADD_STR malloc_ok (d_domain d) d tbl)"

definition config_load_domains_blacklist ::
    "('j, 't) json_c \<Rightarrow> (nat \<Rightarrow> bool) \<Rightarrow> bool \<Rightarrow> 'j option \<Rightarrow> config \<Rightarrow> config result" where
  "config_load_domains_blacklist J calloc_ok malloc_ok j_domains cfg =
    (case j_domains of
       None \<Rightarrow> Inr cfg
     | Some arr \<Rightarrow>
         rbind (rfold (blacklist_elem J calloc_ok malloc_ok arr) [0..<array_length_or_0 J arr]
                  (domains_blacklist cfg))
           (\<lambda>tbl. Inr (cfg\<lparr>domains_blacklist := tbl\<rparr>)))"

definition whitelist_elem ::
    "('j, 't) json_c \<Rightarrow> (nat \<Rightarrow> bool) \<Rightarrow> bool \<Rightarrow> 'j \<Rightarrow> nat \<Rightarrow> domain_t hash_head \<Rightarrow> domain_t hash_head result" where
  "whitelist_elem J calloc_ok malloc_ok arr i tbl =
    (case json_object_array_get_idx J arr i of
       None \<Rightarrow> Inr tbl
     | Some j \<Rightarrow>
         rbind (domain_create (calloc_ok i) i (json_object_get_string J (Some j)))
           (\<lambda>d. case d of None \<Rightarrow> Inr tbl | Some d \<Rightarrow> HASH_ADD_STR malloc_ok (d_domain d) d tbl))"

definition config_load_domains_whitelist ::
    "('j, 't) json_c \<Rightarrow> (nat \<Rightarrow> bool) \<Rightarrow> bool \<Rightarrow> 'j option \<Rightarrow> config \<Rightarrow> config result" where
  "config_load_domains_whitelist J calloc_ok malloc_ok j_domains cfg =
    (case j_domains of
       None \<Rightarrow> Inr cfg
     | Some arr \<Rightarrow>
         rbind (rfold (whitelist_elem J calloc_ok malloc_ok arr) [0..<array_length_or_0 J arr]
                  (domains_whitelist cfg))
           (\<lambda>tbl. Inr (cfg\<lparr>domains_whitelist := tbl\<rparr>)))"

text \<open>One field of \<open>config_load_cloudlogging\<close>: at most \<open>cap\<close> bytes are copied into the buffer.\<close>

definition load_cloud_field ::
    "('j, 't) json_c \<Rightarrow> 'j \<Rightarrow> string \<Rightarrow> nat \<Rightarrow> byte list \<Rightarrow> byte list result" where
  "load_cloud_field J j name cap buf =
    (case json_object_object_get J j name of
       None \<Rightarrow> Inr buf
     | Some jf \<Rightarrow>
         (case json_object_get_string J (Some jf) of
            None \<Rightarrow> Inr buf
          | Some s \<Rightarrow> rbind (c_strlen (cmem s)) (\<lambda>len.
              c_memcpy buf 0 (cmem s) 0 (if cap < len then cap else len))))"

definition config_load_cloudlogging :: "('j, 't) json_c \<Rightarrow> 'j option \<Rightarrow> config \<Rightarrow> config result" where
  "config_load_cloudlogging J j_cloudlogging cfg =
    (case j_cloudlogging of
       None \<Rightarrow> Inr cfg
     | Some j \<Rightarrow>
         rbind (load_cloud_field J j ''auth'' 255 (cl_auth (cloudlogging cfg))) (\<lambda>auth.
         rbind (load_cloud_field J j ''addr'' 255 (cl_addr (cloudlogging cfg))) (\<lambda>addr.
         rbind (load_cloud_field J j ''user'' 63 (cl_user (cloudlogging cfg))) (\<lambda>user.
         rbind (load_cloud_field J j ''pass'' 63 (cl_pass (cloudlogging cfg))) (\<lambda>pass.
           Inr (cfg\<lparr>cloudlogging := \<lparr>cl_auth = auth, cl_addr = addr, cl_user = user, cl_pass = pass\<rparr>\<rparr>))))))"

text \<open>The allocations made while the configuration is loaded.\<close>

record load_env =
  calloc_categories :: bool
  calloc_applications :: bool
  calloc_blacklist :: "nat \<Rightarrow> bool"
  calloc_whitelist :: "nat \<Rightarrow> bool"
  load_malloc :: bool

text \<open>\<open>root\<close> is what \<open>json_object_from_file\<close> returns.\<close>

definition config_load :: "('j, 't) json_c \<Rightarrow> load_env \<Rightarrow> 'j option \<Rightarrow> config \<Rightarrow> config result" where
  "config_load J E root cfg =
    (case root of
       None \<Rightarrow> Inl Exit
     | Some r \<Rightarrow>
         rbind (config_load_serveraddr J (json_object_object_get J r ''serveraddr'') cfg) (\<lambda>cfg.
         rbind (config_load_categories J (calloc_categories E)
                  (json_object_object_get J r ''categories'') cfg) (\<lambda>cfg.
         rbind (config_load_applications J (calloc_applications E)
                  (json_object_object_get J r ''applications'') cfg) (\<lambda>cfg.
         rbind (config_load_domains_blacklist J (calloc_blacklist E) (load_malloc E)
                  (json_object_object_get J r ''domains_blacklist'') cfg) (\<lambda>cfg.
         rbind (config_load_domains_whitelist J (calloc_whitelist E) (load_malloc E)
                  (json_object_object_get J r ''domains_whitelist'') cfg) (\<lambda>cfg.
         config_load_cloudlogging J (json_object_object_get J r ''cloudlogging'') cfg))))))"

subsection \<open>Printing\<close>

definition print_str :: "string \<Rightarrow> byte list \<Rightarrow> string \<Rightarrow> byte list result" where
  "print_str pre buf post = rbind (c_str buf) (\<lambda>s. Inr (bytes pre @ s @ bytes post))"

fun print_each :: "('a \<Rightarrow> byte list result) \<Rightarrow> 'a list \<Rightarrow> byte list result" where
  "print_each f [] = Inr []"
| "print_each f (x # xs) = rbind (f x) (\<lambda>s. rbind (print_each f xs) (\<lambda>r. Inr (s @ r)))"

definition print_ints :: "string \<Rightarrow> nat \<Rightarrow> int list option \<Rightarrow> byte list result" where
  "print_ints pre n xs =
     rbind (print_each (\<lambda>i. case xs of None \<Rightarrow> Inl NullDeref
              | Some ys \<Rightarrow> if i < length ys then Inr (32 # show_int (ys ! i)) else Inl OobRead) [0..<n])
       (\<lambda>s. Inr (bytes pre @ s @ [10]))"

definition print_domains :: "string \<Rightarrow> domain_t hash_head \<Rightarrow> byte list result" where
  "print_domains pre tbl =
     rbind (print_each (\<lambda>d. rbind (c_str (d_domain d)) (\<lambda>s. Inr ([32, 39] @ s @ [39]))) (HASH_ITER tbl))
       (\<lambda>s. Inr (bytes pre @ s @ [10]))"

definition config_print :: "config \<Rightarrow> byte list result" where
  "config_print cfg =
     rbind (print_str ''>> serveraddr: '' (serveraddr cfg) []) (\<lambda>l1.
     rbind (print_ints ''>> categories:'' (categories_length cfg) (categories cfg)) (\<lambda>l2.
     rbind (print_ints ''>> applications:'' (applications_length cfg) (applications cfg)) (\<lambda>l3.
     rbind (print_domains ''>> domains_blacklist:'' (domains_blacklist cfg)) (\<lambda>l4.
     rbind (print_domains ''>> domains_whitelist:'' (domains_whitelist cfg)) (\<lambda>l5.
     rbind (print_str ''>>   auth: '' (cl_auth (cloudlogging cfg)) []) (\<lambda>l6.
     rbind (print_str ''>>   addr: '' (cl_addr (cloudlogging cfg)) []) (\<lambda>l7.
     rbind (print_str ''>>   user: '' (cl_user (cloudlogging cfg)) []) (\<lambda>l8.
     rbind (print_str ''>>   pass: '' (cl_pass (cloudlogging cfg)) []) (\<lambda>l9.
       Inr (bytes ''config'' @ [10] @ l1 @ [10] @ l2 @ l3 @ l4 @ l5
            @ bytes ''>> cloudlogging {'' @ [10] @ l6 @ [10] @ l7 @ [10] @ l8 @ [10] @ l9 @ [10]
            @ bytes ''>> }'' @ [10]))))))))))"

subsection \<open>Questions\<close>

text \<open>The accessors hand out pointers to the buffers.\<close>

definition config_get_serveraddr :: "config \<Rightarrow> byte list" where
  "config_get_serveraddr cfg = serveraddr cfg"

definition config_get_cloudlogging_auth :: "config \<Rightarrow> byte list" where
  "config_get_cloudlogging_auth cfg = cl_auth (cloudlogging cfg)"

definition config_get_cloudlogging_addr :: "config \<Rightarrow> byte list" where
  "config_get_cloudlogging_addr cfg = cl_addr (cloudlogging cfg)"

definition config_get_cloudlogging_user :: "config \<Rightarrow> byte list" where
  "config_get_cloudlogging_user cfg = cl_user (cloudlogging cfg)"

definition config_get_cloudlogging_pass :: "config \<Rightarrow> byte list" where
  "config_get_cloudlogging_pass cfg = cl_pass (cloudlogging cfg)"

text \<open>The loop over an integer array, from index \<open>i\<close> for \<open>n\<close> more elements.\<close>

fun int_array_search :: "int list \<Rightarrow> int \<Rightarrow> nat \<Rightarrow> nat \<Rightarrow> bool result" where
  "int_array_search xs v i 0 = Inr False"
| "int_array_search xs v i (Suc n) =
     (if i < length xs then if v = xs ! i then Inr True else int_array_search xs v (i + 1) n
      else Inl OobRead)"

definition config_is_category_blocked :: "config \<Rightarrow> int \<Rightarrow> bool result" where
  "config_is_category_blocked cfg category =
    (case categories cfg of None \<Rightarrow> Inr False
     | Some xs \<Rightarrow> int_array_search xs category 0 (categories_length cfg))"

definition config_is_application_blocked :: "config \<Rightarrow> int \<Rightarrow> bool result" where
  "config_is_application_blocked cfg appid =
    (case applications cfg of None \<Rightarrow> Inr False
     | Some xs \<Rightarrow> int_array_search xs appid 0 (applications_length cfg))"

function config_domain_lookup :: "domain_t hash_head \<Rightarrow> byte list \<Rightarrow> bool result" where
  "config_domain_lookup domains ptr =
     rbind (HASH_FIND_STR domains ptr) (\<lambda>d.
       if d \<noteq> None then Inr True
       else rbind (c_strchr 46 ptr) (\<lambda>i.
         case i of None \<Rightarrow> Inr False
         | Some i \<Rightarrow> config_domain_lookup domains (drop (Suc i) ptr)))"
  by pat_completeness auto
termination
  by (relation "measure (\<lambda>(d, p). length p)") (auto dest: c_strchr_Some_bound)

declare config_domain_lookup.simps [simp del]

definition config_is_domain_blacklisted :: "config \<Rightarrow> byte list \<Rightarrow> bool result" where
  "config_is_domain_blacklisted cfg domain = config_domain_lookup (domains_blacklist cfg) domain"

definition config_is_domain_whitelisted :: "config \<Rightarrow> byte list \<Rightarrow> bool result" where
  "config_is_domain_whitelisted cfg domain = config_domain_lookup (domains_whitelist cfg) domain"

subsection \<open>Matching a domain against a list\<close>

interpretation cfg: suffix_table None HASH_ADD HASH_FIND HASH_DEL hash_items uthash_ok hash_room
  "\<lambda>_ :: domain_t. True" False config_domain_lookup
proof unfold_locales
  fix h :: "domain_t hash_head" and p
  show "config_domain_lookup h p = rbind (c_strlen p) (\<lambda>n. rbind (HASH_FIND (take n p) h) (\<lambda>d.
      case d of Some e \<Rightarrow> Inr True
      | None \<Rightarrow> rbind (c_strchr 46 p) (\<lambda>i.
          case i of None \<Rightarrow> Inr False | Some i \<Rightarrow> config_domain_lookup h (drop (Suc i) p))))"
    by (subst config_domain_lookup.simps)
       (auto simp: HASH_FIND_STR_def rbind_assoc split: option.splits intro!: rbind_cong)
qed

text \<open>\<open>listed_in ks s\<close>: the name \<open>s\<close> or one of its parent domains is in \<open>ks\<close>.\<close>

definition listed_in :: "byte list set \<Rightarrow> byte list \<Rightarrow> bool" where
  "listed_in ks s \<longleftrightarrow> (\<exists>k \<in> ks. s = k \<or> (\<exists>u. s = u @ 46 # k))"

lemma listed_in_dot_suffixes: "listed_in ks s \<longleftrightarrow> (\<exists>r \<in> set (dot_suffixes s). r \<in> ks)"
  unfolding listed_in_def Bex_def dot_suffixes_iff by metis

lemma config_domain_lookup_correct:
  assumes "uthash_ok tbl" and "terminated p"
  shows "config_domain_lookup tbl p = Inr (listed_in (fst ` set (hash_items tbl)) (cstr p))"
proof -
  let ?f = "find (\<lambda>s. s \<in> fst ` set (hash_items tbl)) (dot_suffixes (cstr p))"
  from cfg.search_spec [OF assms] obtain r where r: "config_domain_lookup tbl p = Inr r"
    "case ?f of None \<Rightarrow> r = False | Some s \<Rightarrow> \<exists>e. (s, e) \<in> set (hash_items tbl) \<and> r = True"
    by blast
  show ?thesis
  proof (cases ?f)
    case None
    with r show ?thesis by (auto simp: listed_in_dot_suffixes find_None_iff)
  next
    case (Some s)
    then have "s \<in> set (dot_suffixes (cstr p))" "s \<in> fst ` set (hash_items tbl)"
      by (auto simp: find_Some_iff)
    with r Some show ?thesis by (auto simp: listed_in_dot_suffixes)
  qed
qed

subsection \<open>Strings in fixed buffers\<close>

lemma strlen_cmem: "0 \<notin> set s \<Longrightarrow> c_strlen (cmem s) = Inr (length s)"
  by (simp add: c_strlen_Inr)

text \<open>What the truncation rule of \<open>config.c\<close> keeps of a string.\<close>

definition config_trunc :: "byte list \<Rightarrow> byte list" where
  "config_trunc s = (if DOMAIN_LENGTH < length s then take (DOMAIN_LENGTH - 1) s else s)"

lemma config_trunc_no_zero: "0 \<notin> set s \<Longrightarrow> 0 \<notin> set (config_trunc s)"
  by (auto simp: config_trunc_def dest: in_set_takeD)

lemma length_config_trunc: "length (config_trunc s) \<le> 256"
  by (auto simp: config_trunc_def DOMAIN_LENGTH_def)

lemma domain_create_correct:
  assumes "0 \<notin> set s"
  shows "domain_create True a (Some s) = Inr (Some \<lparr>d_addr = a,
     d_domain = config_trunc s @ replicate (DOMAIN_LENGTH - length (config_trunc s)) 0\<rparr>)"
  using assms
  by (simp add: domain_create_def strlen_cmem config_trunc_def memcpy_zero_buffer DOMAIN_LENGTH_def Let_def)

lemma config_load_serveraddr_correct:
  assumes "0 \<notin> set s" and "json_object_get_string J (Some j) = Some s"
    and "serveraddr c = replicate SERVERADDR_LENGTH 0"
  shows "config_load_serveraddr J (Some j) c = Inr (c\<lparr>serveraddr :=
     config_trunc s @ replicate (SERVERADDR_LENGTH - length (config_trunc s)) 0\<rparr>)"
  using assms
  by (simp add: config_load_serveraddr_def strlen_cmem config_trunc_def memcpy_zero_buffer
      SERVERADDR_LENGTH_def DOMAIN_LENGTH_def Let_def)

lemma config_trunc_buffer:
  assumes "0 \<notin> set s"
  shows "length s \<noteq> 256 \<Longrightarrow>
     terminated (config_trunc s @ replicate (256 - length (config_trunc s)) 0)"
    and "cstr (config_trunc s @ replicate (256 - length (config_trunc s)) 0) = config_trunc s"
    and "length s = 256 \<Longrightarrow>
     \<not> terminated (config_trunc s @ replicate (256 - length (config_trunc s)) 0)"
  using config_trunc_no_zero [OF assms]
  by (simp_all add: terminated_append_zeros) (auto simp: config_trunc_def DOMAIN_LENGTH_def)

subsection \<open>Integer arrays\<close>

definition json_ints :: "('j, 't) json_c \<Rightarrow> 'j \<Rightarrow> nat \<Rightarrow> int list" where
  "json_ints J arr n = map (\<lambda>j. json_object_get_int J (Some j))
     (List.map_filter (json_object_array_get_idx J arr) [0..<n])"

lemma json_ints_Suc:
  "json_ints J arr (Suc m) = json_ints J arr m @
     (case json_object_array_get_idx J arr m of None \<Rightarrow> [] | Some j \<Rightarrow> [json_object_get_int J (Some j)])"
  by (auto simp: json_ints_def map_filter_def split: option.splits)

lemma length_json_ints: "length (json_ints J arr m) \<le> m"
  by (induction m) (auto simp: json_ints_Suc json_ints_def [of _ _ 0] map_filter_def split: option.splits)

lemma load_int_loop:
  "m \<le> n \<Longrightarrow> rfold (load_int_elem J arr) [0..<m] (0, replicate n 0)
     = Inr (length (json_ints J arr m),
            json_ints J arr m @ replicate (n - length (json_ints J arr m)) 0)"
proof (induction m)
  case 0
  then show ?case by (simp add: json_ints_def map_filter_def)
next
  case (Suc m)
  let ?k = "length (json_ints J arr m)"
  have k: "?k < n" using length_json_ints [of J arr m] Suc.prems by simp
  then have "replicate (n - ?k) (0 :: int) = 0 # replicate (n - Suc ?k) 0"
    by (metis Suc_diff_Suc replicate_Suc)
  with Suc k show ?case
    by (auto simp: rfold_append load_int_elem_def json_ints_Suc list_update_append
        split: option.splits)
qed

lemma int_array_search_correct:
  "i + n \<le> length xs \<Longrightarrow> int_array_search xs v i n = Inr (v \<in> set (take n (drop i xs)))"
proof (induction xs v i n rule: int_array_search.induct)
  case (1 xs v i)
  then show ?case by simp
next
  case (2 xs v i n)
  then have "drop i xs = xs ! i # drop (Suc i) xs" by (simp add: Cons_nth_drop_Suc)
  with 2 show ?case by auto
qed

lemma config_load_categories_correct:
  "config_load_categories J True (Some arr) c = Inr (c\<lparr>categories_length := length (json_ints J arr (array_length_or_0 J arr)),
     categories := Some (json_ints J arr (array_length_or_0 J arr)
       @ replicate (array_length_or_0 J arr - length (json_ints J arr (array_length_or_0 J arr))) 0)\<rparr>)"
  by (simp add: config_load_categories_def load_int_loop Let_def)

lemma config_load_applications_correct:
  "config_load_applications J True (Some arr) c = Inr (c\<lparr>applications_length := length (json_ints J arr (array_length_or_0 J arr)),
     applications := Some (json_ints J arr (array_length_or_0 J arr)
       @ replicate (array_length_or_0 J arr - length (json_ints J arr (array_length_or_0 J arr))) 0)\<rparr>)"
  by (simp add: config_load_applications_def load_int_loop Let_def)

subsection \<open>Domain lists\<close>

text \<open>The table holds the truncated strings of the elements seen so far, and no later address.\<close>

definition domains_ok :: "nat \<Rightarrow> byte list set \<Rightarrow> domain_t hash_head \<Rightarrow> bool" where
  "domains_ok i ks tbl \<longleftrightarrow> uthash_ok tbl \<and> fst ` set (hash_items tbl) = ks
     \<and> (\<forall>p \<in> set (hash_items tbl). d_addr (snd p) < i)"

lemma domains_ok_empty: "domains_ok 0 {} None"
  by (simp add: domains_ok_def ut.invar_empty ut.items_empty)

lemma domains_ok_skip: "domains_ok i ks tbl \<Longrightarrow> domains_ok (Suc i) ks tbl"
  by (auto simp: domains_ok_def)

lemma domains_ok_add:
  assumes ok: "domains_ok i ks tbl" and s: "0 \<notin> set s"
    and add: "rbind (domain_create True i (Some s)) (\<lambda>d. case d of None \<Rightarrow> Inr tbl
        | Some d \<Rightarrow> HASH_ADD_STR m (d_domain d) d tbl) = Inr tbl'"
  shows "domains_ok (Suc i) (insert (config_trunc s) ks) tbl'"
proof -
  let ?buf = "config_trunc s @ replicate (DOMAIN_LENGTH - length (config_trunc s)) 0"
  let ?d = "\<lparr>d_addr = i, d_domain = ?buf\<rparr>"
  from add have a: "HASH_ADD_STR m ?buf ?d tbl = Inr tbl'"
    by (simp add: domain_create_correct [OF s])
  then have "terminated ?buf" by (auto simp: HASH_ADD_STR_def c_strlen_def split: if_splits)
  moreover have "cstr ?buf = config_trunc s" using config_trunc_no_zero [OF s] by simp
  ultimately have "HASH_ADD m (config_trunc s) ?d tbl = Inr tbl'"
    using a by (simp add: HASH_ADD_STR_def c_strlen_Inr)
  moreover have "?d \<notin> snd ` set (hash_items tbl)" using ok by (fastforce simp: domains_ok_def)
  ultimately have "uthash_ok tbl' \<and> hash_items tbl' = hash_items tbl @ [(config_trunc s, ?d)]"
    using ut.add_Inr ok by (metis domains_ok_def)
  with ok show ?thesis by (auto simp: domains_ok_def)
qed

text \<open>The strings of a JSON array, NULL elements skipped.\<close>

definition json_strings :: "('j, 't) json_c \<Rightarrow> 'j \<Rightarrow> nat \<Rightarrow> byte list set" where
  "json_strings J arr n = {s. \<exists>i < n. \<exists>j. json_object_array_get_idx J arr i = Some j
     \<and> json_object_get_string J (Some j) = Some s}"

lemma json_strings_Suc:
  "json_strings J arr (Suc n) = json_strings J arr n \<union>
     {s. \<exists>j. json_object_array_get_idx J arr n = Some j \<and> json_object_get_string J (Some j) = Some s}"
  by (auto simp: json_strings_def less_Suc_eq)

text \<open>What json-c documents: no string for a NULL object, and C strings hold no NUL.\<close>

definition json_strings_ok :: "('j, 't) json_c \<Rightarrow> bool" where
  "json_strings_ok J \<longleftrightarrow> json_object_get_string J None = None
     \<and> (\<forall>j s. json_object_get_string J j = Some s \<longrightarrow> 0 \<notin> set s)"

lemma blacklist_loop:
  assumes J: "json_strings_ok J" and c: "\<And>i. calloc_ok i"
    and r: "rfold (blacklist_elem J calloc_ok m arr) [0..<n] None = Inr tbl"
  shows "domains_ok n (config_trunc ` json_strings J arr n) tbl"
  using r
proof (induction n arbitrary: tbl)
  case 0
  then show ?case by (simp add: domains_ok_empty json_strings_def)
next
  case (Suc n)
  from Suc.prems obtain t where t: "rfold (blacklist_elem J calloc_ok m arr) [0..<n] None = Inr t"
    "blacklist_elem J calloc_ok m arr n t = Inr tbl"
    by (auto simp: rfold_append result_simps)
  from t(2) c obtain s where s: "json_object_get_string J (json_object_array_get_idx J arr n) = Some s"
    by (auto simp: blacklist_elem_def domain_create_def result_simps split: option.splits)
  with J obtain j where j: "json_object_array_get_idx J arr n = Some j" "0 \<notin> set s"
    by (cases "json_object_array_get_idx J arr n") (auto simp: json_strings_ok_def)
  have "domains_ok (Suc n) (insert (config_trunc s) (config_trunc ` json_strings J arr n)) tbl"
    using domains_ok_add [OF Suc.IH [OF t(1)] j(2)] t(2) s c by (simp add: blacklist_elem_def)
  moreover have "json_strings J arr (Suc n) = insert s (json_strings J arr n)"
    using s j by (auto simp: json_strings_Suc)
  ultimately show ?case by simp
qed

lemma whitelist_loop:
  assumes J: "json_strings_ok J" and c: "\<And>i. calloc_ok i"
    and r: "rfold (whitelist_elem J calloc_ok m arr) [0..<n] None = Inr tbl"
  shows "domains_ok n (config_trunc ` json_strings J arr n) tbl"
  using r
proof (induction n arbitrary: tbl)
  case 0
  then show ?case by (simp add: domains_ok_empty json_strings_def)
next
  case (Suc n)
  from Suc.prems obtain t where t: "rfold (whitelist_elem J calloc_ok m arr) [0..<n] None = Inr t"
    "whitelist_elem J calloc_ok m arr n t = Inr tbl"
    by (auto simp: rfold_append result_simps)
  show ?case
  proof (cases "json_object_array_get_idx J arr n")
    case None
    with t domains_ok_skip [OF Suc.IH [OF t(1)]] show ?thesis
      by (simp add: whitelist_elem_def json_strings_Suc)
  next
    case (Some j)
    with t(2) c obtain s where s: "json_object_get_string J (Some j) = Some s"
      by (auto simp: whitelist_elem_def domain_create_def result_simps split: option.splits)
    with J have "0 \<notin> set s" by (auto simp: json_strings_ok_def)
    from domains_ok_add [OF Suc.IH [OF t(1)] this] t(2) s c Some
    have "domains_ok (Suc n) (insert (config_trunc s) (config_trunc ` json_strings J arr n)) tbl"
      by (simp add: whitelist_elem_def)
    moreover have "json_strings J arr (Suc n) = insert s (json_strings J arr n)"
      using s Some by (auto simp: json_strings_Suc)
    ultimately show ?thesis by simp
  qed
qed

subsection \<open>Loading a whole document\<close>

lemmas load_defs = config_load_serveraddr_def config_load_categories_def config_load_applications_def
  config_load_domains_blacklist_def config_load_domains_whitelist_def config_load_cloudlogging_def

text \<open>Each loader touches its own fields only.\<close>

lemma load_frame:
  "config_load_serveraddr J j c = Inr c' \<Longrightarrow> \<exists>b. c' = c\<lparr>serveraddr := b\<rparr>"
  "config_load_categories J a j c = Inr c' \<Longrightarrow> \<exists>n x. c' = c\<lparr>categories_length := n, categories := x\<rparr>"
  "config_load_applications J a j c = Inr c' \<Longrightarrow> \<exists>n x. c' = c\<lparr>applications_length := n, applications := x\<rparr>"
  "config_load_domains_blacklist J f m j c = Inr c' \<Longrightarrow> \<exists>t. c' = c\<lparr>domains_blacklist := t\<rparr>"
  "config_load_domains_whitelist J f m j c = Inr c' \<Longrightarrow> \<exists>t. c' = c\<lparr>domains_whitelist := t\<rparr>"
  "config_load_cloudlogging J j c = Inr c' \<Longrightarrow> \<exists>l. c' = c\<lparr>cloudlogging := l\<rparr>"
  by (auto simp: load_defs result_simps Let_def split: option.splits if_splits)
     (metis config.surjective config.update_convs | rule exI)+

text \<open>The tables and arrays of a loaded configuration come from the loops over its document.\<close>

lemma config_load_parts:
  assumes "config_load J E (Some r) config_init = Inr c"
  shows "\<exists>c0 c1. config_load_domains_blacklist J (calloc_blacklist E) (load_malloc E)
       (json_object_object_get J r ''domains_blacklist'') (c0\<lparr>domains_blacklist := None\<rparr>) = Inr c1
       \<and> domains_blacklist c1 = domains_blacklist c"
    "\<exists>c0 c1. config_load_domains_whitelist J (calloc_whitelist E) (load_malloc E)
       (json_object_object_get J r ''domains_whitelist'') (c0\<lparr>domains_whitelist := None\<rparr>) = Inr c1
       \<and> domains_whitelist c1 = domains_whitelist c"
    "\<exists>c0 c1. config_load_categories J (calloc_categories E) (json_object_object_get J r ''categories'')
       (c0\<lparr>categories_length := 0, categories := None\<rparr>) = Inr c1
       \<and> categories_length c1 = categories_length c \<and> categories c1 = categories c"
    "\<exists>c0 c1. config_load_applications J (calloc_applications E) (json_object_object_get J r ''applications'')
       (c0\<lparr>applications_length := 0, applications := None\<rparr>) = Inr c1
       \<and> applications_length c1 = applications_length c \<and> applications c1 = applications c"
    "\<exists>c0 c1. config_load_cloudlogging J (json_object_object_get J r ''cloudlogging'')
       (c0\<lparr>cloudlogging := cloudlogging config_init\<rparr>) = Inr c1 \<and> cloudlogging c1 = cloudlogging c"
proof -
  from assms obtain c1 c2 c3 c4 c5 where l:
    "config_load_serveraddr J (json_object_object_get J r ''serveraddr'') config_init = Inr c1"
    "config_load_categories J (calloc_categories E) (json_object_object_get J r ''categories'') c1 = Inr c2"
    "config_load_applications J (calloc_applications E) (json_object_object_get J r ''applications'') c2 = Inr c3"
    "config_load_domains_blacklist J (calloc_blacklist E) (load_malloc E)
       (json_object_object_get J r ''domains_blacklist'') c3 = Inr c4"
    "config_load_domains_whitelist J (calloc_whitelist E) (load_malloc E)
       (json_object_object_get J r ''domains_whitelist'') c4 = Inr c5"
    "config_load_cloudlogging J (json_object_object_get J r ''cloudlogging'') c5 = Inr c"
    by (auto simp: config_load_def result_simps)
  from load_frame(1) [OF l(1)] load_frame(2) [OF l(2)] load_frame(3) [OF l(3)]
    load_frame(4) [OF l(4)] load_frame(5) [OF l(5)] load_frame(6) [OF l(6)]
  obtain b n x m y t u cl where f: "c1 = config_init\<lparr>serveraddr := b\<rparr>"
    "c2 = c1\<lparr>categories_length := n, categories := x\<rparr>"
    "c3 = c2\<lparr>applications_length := m, applications := y\<rparr>"
    "c4 = c3\<lparr>domains_blacklist := t\<rparr>" "c5 = c4\<lparr>domains_whitelist := u\<rparr>" "c = c5\<lparr>cloudlogging := cl\<rparr>" by blast
  show "\<exists>c0 c1. config_load_domains_blacklist J (calloc_blacklist E) (load_malloc E)
       (json_object_object_get J r ''domains_blacklist'') (c0\<lparr>domains_blacklist := None\<rparr>) = Inr c1
       \<and> domains_blacklist c1 = domains_blacklist c"
    using l(4) f by (intro exI [of _ c3] exI [of _ c4]) (simp add: config_init_def)
  show "\<exists>c0 c1. config_load_domains_whitelist J (calloc_whitelist E) (load_malloc E)
       (json_object_object_get J r ''domains_whitelist'') (c0\<lparr>domains_whitelist := None\<rparr>) = Inr c1
       \<and> domains_whitelist c1 = domains_whitelist c"
    using l(5) f by (intro exI [of _ c4] exI [of _ c5]) (simp add: config_init_def)
  show "\<exists>c0 c1. config_load_categories J (calloc_categories E) (json_object_object_get J r ''categories'')
       (c0\<lparr>categories_length := 0, categories := None\<rparr>) = Inr c1
       \<and> categories_length c1 = categories_length c \<and> categories c1 = categories c"
    using l(2) f by (intro exI [of _ c1] exI [of _ c2]) (simp add: config_init_def)
  show "\<exists>c0 c1. config_load_applications J (calloc_applications E) (json_object_object_get J r ''applications'')
       (c0\<lparr>applications_length := 0, applications := None\<rparr>) = Inr c1
       \<and> applications_length c1 = applications_length c \<and> applications c1 = applications c"
    using l(3) f by (intro exI [of _ c2] exI [of _ c3]) (simp add: config_init_def)
  show "\<exists>c0 c1. config_load_cloudlogging J (json_object_object_get J r ''cloudlogging'')
       (c0\<lparr>cloudlogging := cloudlogging config_init\<rparr>) = Inr c1 \<and> cloudlogging c1 = cloudlogging c"
    using l(6) f by (intro exI [of _ c5] exI [of _ c]) (simp add: config_init_def)
qed

text \<open>The numbers of a JSON array that may be missing.\<close>

definition json_ints_of :: "('j, 't) json_c \<Rightarrow> 'j option \<Rightarrow> int list" where
  "json_ints_of J j = (case j of None \<Rightarrow> [] | Some arr \<Rightarrow> json_ints J arr (array_length_or_0 J arr))"

definition json_strings_of :: "('j, 't) json_c \<Rightarrow> 'j option \<Rightarrow> byte list set" where
  "json_strings_of J j = (case j of None \<Rightarrow> {} | Some arr \<Rightarrow> json_strings J arr (array_length_or_0 J arr))"

lemma domains_ok_keys: "domains_ok n ks tbl \<Longrightarrow> uthash_ok tbl \<and> fst ` set (hash_items tbl) = ks"
  by (simp add: domains_ok_def)

lemma loaded_blacklist:
  assumes "json_strings_ok J" and "\<And>i. f i"
    and "config_load_domains_blacklist J f m j (c0\<lparr>domains_blacklist := None\<rparr>) = Inr c1"
  shows "uthash_ok (domains_blacklist c1)
    \<and> fst ` set (hash_items (domains_blacklist c1)) = config_trunc ` json_strings_of J j"
proof (cases j)
  case None
  with assms(3) show ?thesis
    by (auto simp: config_load_domains_blacklist_def json_strings_of_def ut.invar_empty ut.items_empty)
next
  case (Some arr)
  with assms(3) obtain tbl where tbl: "c1 = c0\<lparr>domains_blacklist := tbl\<rparr>"
    "rfold (blacklist_elem J f m arr) [0..<array_length_or_0 J arr] None = Inr tbl"
    by (auto simp: config_load_domains_blacklist_def result_simps)
  from domains_ok_keys [OF blacklist_loop [OF assms(1,2) tbl(2)]] tbl(1) Some show ?thesis
    by (simp add: json_strings_of_def)
qed

lemma loaded_whitelist:
  assumes "json_strings_ok J" and "\<And>i. f i"
    and "config_load_domains_whitelist J f m j (c0\<lparr>domains_whitelist := None\<rparr>) = Inr c1"
  shows "uthash_ok (domains_whitelist c1)
    \<and> fst ` set (hash_items (domains_whitelist c1)) = config_trunc ` json_strings_of J j"
proof (cases j)
  case None
  with assms(3) show ?thesis
    by (auto simp: config_load_domains_whitelist_def json_strings_of_def ut.invar_empty ut.items_empty)
next
  case (Some arr)
  with assms(3) obtain tbl where tbl: "c1 = c0\<lparr>domains_whitelist := tbl\<rparr>"
    "rfold (whitelist_elem J f m arr) [0..<array_length_or_0 J arr] None = Inr tbl"
    by (auto simp: config_load_domains_whitelist_def result_simps)
  from domains_ok_keys [OF whitelist_loop [OF assms(1,2) tbl(2)]] tbl(1) Some show ?thesis
    by (simp add: json_strings_of_def)
qed

subsection \<open>Properties\<close>

text \<open>
  C9: After a configuration document was loaded, a domain name is blacklisted exactly when the
  name itself or one of its parent domains is among the strings of \<open>domains_blacklist\<close> (cut to
  255 characters when longer than 256), and the question never faults; the same holds for the
  whitelist.
\<close>

theorem domain_lists_match:
  assumes J: "json_strings_ok J" and "\<And>i. calloc_blacklist E i" and "\<And>i. calloc_whitelist E i"
    and load: "config_load J E (Some r) config_init = Inr c" and t: "terminated p"
  shows "config_is_domain_blacklisted c p = Inr (listed_in
       (config_trunc ` json_strings_of J (json_object_object_get J r ''domains_blacklist'')) (cstr p))
    \<and> config_is_domain_whitelisted c p = Inr (listed_in
       (config_trunc ` json_strings_of J (json_object_object_get J r ''domains_whitelist'')) (cstr p))"
proof -
  from config_load_parts(1,2) [OF load] obtain c0 c1 d0 d1 where l:
    "config_load_domains_blacklist J (calloc_blacklist E) (load_malloc E)
       (json_object_object_get J r ''domains_blacklist'') (c0\<lparr>domains_blacklist := None\<rparr>) = Inr c1"
    "domains_blacklist c1 = domains_blacklist c"
    "config_load_domains_whitelist J (calloc_whitelist E) (load_malloc E)
       (json_object_object_get J r ''domains_whitelist'') (d0\<lparr>domains_whitelist := None\<rparr>) = Inr d1"
    "domains_whitelist d1 = domains_whitelist c" by blast
  from loaded_blacklist [OF J assms(2) l(1)] loaded_whitelist [OF J assms(3) l(3)] l(2,4)
  have "uthash_ok (domains_blacklist c)" "uthash_ok (domains_whitelist c)"
    "fst ` set (hash_items (domains_blacklist c)) =
      config_trunc ` json_strings_of J (json_object_object_get J r ''domains_blacklist'')"
    "fst ` set (hash_items (domains_whitelist c)) =
      config_trunc ` json_strings_of J (json_object_object_get J r ''domains_whitelist'')" by simp_all
  then show ?thesis using config_domain_lookup_correct [OF _ t]
    by (simp add: config_is_domain_blacklisted_def config_is_domain_whitelisted_def)
qed

definition all_loads :: load_env where
  "all_loads = \<lparr>calloc_categories = True, calloc_applications = True, calloc_blacklist = (\<lambda>_. True),
     calloc_whitelist = (\<lambda>_. True), load_malloc = True\<rparr>"

definition sample_config :: json_val where
  "sample_config = VObj [(''categories'', VArr [VInt 4, VNull, VInt 9]),
     (''domains_blacklist'', VArr [VStr (bytes ''bad.com'')])]"

lemma sample_strings_ok: "json_strings_ok (json_instance d)"
  unfolding json_strings_ok_def json_instance_def
  by (auto elim!: val_string.elims split: if_splits)

text \<open>A string that leaves room for its terminator is added to a table with room.\<close>

lemma domain_added:
  assumes "0 \<notin> set s" and "length s \<noteq> 256" and "uthash_ok tbl" and "hash_room tbl"
  shows "\<exists>tbl'. rbind (domain_create True i (Some s)) (\<lambda>d. case d of None \<Rightarrow> Inr tbl
     | Some d \<Rightarrow> HASH_ADD_STR True (d_domain d) d tbl) = Inr tbl'"
proof -
  let ?buf = "config_trunc s @ replicate (256 - length (config_trunc s)) 0"
  have t: "terminated ?buf" "cstr ?buf = config_trunc s"
    using config_trunc_buffer(1,2) [OF assms(1)] assms(2) by auto
  show ?thesis
    using ut.add_total [OF assms(3,4), of "config_trunc s" "\<lparr>d_addr = i, d_domain = ?buf\<rparr>"] t
    by (simp add: domain_create_correct [OF assms(1)] HASH_ADD_STR_def c_strlen_def DOMAIN_LENGTH_def)
qed

lemma config_load_serveraddr_total:
  assumes "length (serveraddr c) = SERVERADDR_LENGTH"
  shows "\<exists>b. config_load_serveraddr J j c = Inr (c\<lparr>serveraddr := b\<rparr>)"
proof -
  let ?a = "case j of None \<Rightarrow> configdefault_serveraddr | Some j \<Rightarrow>
     (case json_object_get_string J (Some j) of None \<Rightarrow> configdefault_serveraddr | Some a \<Rightarrow> a)"
  let ?n = "length (cstr (cmem ?a))"
  let ?k = "if SERVERADDR_LENGTH < ?n then SERVERADDR_LENGTH - 1 else ?n"
  have "0 + ?k \<le> length (cmem ?a)" "0 + ?k \<le> length (serveraddr c)"
    using assms length_cstr_le [of "cmem ?a"] by auto
  from c_memcpy_ok [OF this] show ?thesis
    unfolding config_load_serveraddr_def Let_def c_strlen_def terminated_cmem if_True rbind.simps
    by (intro exI) simp
qed

lemma sample_config_loads: "\<exists>c. config_load (json_instance None) all_loads (Some sample_config) config_init = Inr c"
proof -
  let ?J = "json_instance None" and ?s = "bytes ''bad.com''"
  have "uthash_ok (None :: domain_t hash_head)" "hash_room (None :: domain_t hash_head)"
    by (simp_all add: uthash_ok_def hash_room_def)
  from domain_added [OF _ _ this, of ?s 0] obtain h where
    h: "blacklist_elem ?J (\<lambda>_. True) True (VArr [VStr ?s]) 0 None = Inr h"
    by (auto simp: blacklist_elem_def json_instance_def bytes_def)
  obtain b where b: "config_load_serveraddr ?J None config_init = Inr (config_init\<lparr>serveraddr := b\<rparr>)"
    using config_load_serveraddr_total [of config_init ?J None] by (auto simp: config_init_def)
  have get: "json_object_object_get ?J = val_get" "array_length_or_0 ?J (VArr [VStr ?s]) = 1"
    by (simp_all add: json_instance_def array_length_or_0_def int_of_size_def)
  show ?thesis
    using b h by (simp add: config_load_def all_loads_def sample_config_def get config_load_categories_correct
      config_load_applications_def config_load_domains_blacklist_def config_load_domains_whitelist_def
      config_load_cloudlogging_def config_init_def)
qed

theorem domain_lists_match_witness:
  "\<exists>c. config_load (json_instance None) all_loads (Some sample_config) config_init = Inr c
     \<and> config_is_domain_blacklisted c (cmem (bytes ''www.bad.com'')) = Inr True
     \<and> config_is_domain_blacklisted c (cmem (bytes ''notbad.com'')) = Inr False"
proof -
  let ?J = "json_instance None"
  obtain c where c: "config_load ?J all_loads (Some sample_config) config_init = Inr c"
    using sample_config_loads by blast
  have m: "config_is_domain_blacklisted c (cmem p) = Inr (listed_in
       (config_trunc ` json_strings_of ?J (json_object_object_get ?J sample_config ''domains_blacklist'')) (cstr (cmem p)))" for p
    using domain_lists_match [OF sample_strings_ok _ _ c] by (simp add: all_loads_def)
  have "json_strings_of ?J (json_object_object_get ?J sample_config ''domains_blacklist'') = {bytes ''bad.com''}"
    by (auto simp: json_strings_of_def json_strings_def sample_config_def json_instance_def
        array_length_or_0_def int_of_size_def bytes_def)
  moreover have "config_trunc (bytes ''bad.com'') = bytes ''bad.com''"
    by (simp add: config_trunc_def bytes_def DOMAIN_LENGTH_def)
  ultimately have "config_is_domain_blacklisted c (cmem p) = Inr (listed_in {bytes ''bad.com''} (cstr (cmem p)))" for p
    using m by simp
  moreover have "listed_in {bytes ''bad.com''} (bytes ''www.bad.com'')"
    "\<not> listed_in {bytes ''bad.com''} (bytes ''notbad.com'')"
    unfolding listed_in_dot_suffixes by code_simp+
  moreover have "0 \<notin> set (bytes ''www.bad.com'')" "0 \<notin> set (bytes ''notbad.com'')"
    by (simp_all add: bytes_def)
  ultimately show ?thesis using c by simp
qed

text \<open>
  After a configuration document was loaded, a category is blocked exactly when it is one of
  the numbers of the array \<open>categories\<close> (NULL elements skipped), and an application exactly when it
  is one of \<open>applications\<close>; the search never reads outside the arrays.
\<close>

theorem blocked_numbers_match:
  assumes load: "config_load J E (Some r) config_init = Inr c"
    and "calloc_categories E" and "calloc_applications E"
  shows "config_is_category_blocked c v =
      Inr (v \<in> set (json_ints_of J (json_object_object_get J r ''categories'')))
    \<and> config_is_application_blocked c v =
      Inr (v \<in> set (json_ints_of J (json_object_object_get J r ''applications'')))"
proof -
  from config_load_parts(3) [OF load] obtain c0 c1 where 1:
    "config_load_categories J True (json_object_object_get J r ''categories'')
       (c0\<lparr>categories_length := 0, categories := None\<rparr>) = Inr c1"
    "categories_length c1 = categories_length c" "categories c1 = categories c" using assms(2) by auto
  from config_load_parts(4) [OF load] obtain d0 d1 where 2:
    "config_load_applications J True (json_object_object_get J r ''applications'')
       (d0\<lparr>applications_length := 0, applications := None\<rparr>) = Inr d1"
    "applications_length d1 = applications_length c" "applications d1 = applications c" using assms(3) by auto
  have "config_is_category_blocked c1 v =
      Inr (v \<in> set (json_ints_of J (json_object_object_get J r ''categories'')))"
  proof (cases "json_object_object_get J r ''categories''")
    case None
    with 1(1) show ?thesis by (auto simp: config_load_categories_def config_is_category_blocked_def json_ints_of_def)
  next
    case (Some arr)
    with 1(1) show ?thesis
      by (auto simp: config_load_categories_correct config_is_category_blocked_def json_ints_of_def int_array_search_correct)
  qed
  moreover have "config_is_application_blocked d1 v =
      Inr (v \<in> set (json_ints_of J (json_object_object_get J r ''applications'')))"
  proof (cases "json_object_object_get J r ''applications''")
    case None
    with 2(1) show ?thesis by (auto simp: config_load_applications_def config_is_application_blocked_def json_ints_of_def)
  next
    case (Some arr)
    with 2(1) show ?thesis
      by (auto simp: config_load_applications_correct config_is_application_blocked_def json_ints_of_def int_array_search_correct)
  qed
  ultimately show ?thesis
    unfolding config_is_category_blocked_def config_is_application_blocked_def 1(2,3) 2(2,3) by simp
qed

theorem blocked_numbers_match_witness:
  "\<exists>c. config_load (json_instance None) all_loads (Some sample_config) config_init = Inr c
     \<and> config_is_category_blocked c 9 = Inr True \<and> config_is_category_blocked c 0 = Inr False"
proof -
  obtain c where c: "config_load (json_instance None) all_loads (Some sample_config) config_init = Inr c"
    using sample_config_loads by blast
  from blocked_numbers_match [OF c, of 9] blocked_numbers_match [OF c, of 0] c show ?thesis
    by (simp add: all_loads_def json_ints_of_def json_ints_def sample_config_def json_instance_def
        array_length_or_0_def int_of_size_def map_filter_def upt_rec)
qed

text \<open>
  A string of any length other than 256 is stored in the 256-byte field of a \<open>domain_t\<close> with a
  terminator, unchanged up to 255 characters and cut to 255 otherwise.  A string of exactly 256
  characters fills the field, so that the insertion into the table, which takes the length of the
  key with \<open>strlen\<close>, reads past the end of the field.
\<close>

theorem domain_field_termination:
  assumes "0 \<notin> set s"
  shows "\<exists>d. domain_create True a (Some s) = Inr (Some d) \<and> length (d_domain d) = 256
    \<and> (length s \<noteq> 256 \<longrightarrow> terminated (d_domain d)
         \<and> cstr (d_domain d) = (if length s \<le> 255 then s else take 255 s))
    \<and> (length s = 256 \<longrightarrow> HASH_ADD_STR m (d_domain d) d tbl = Inl OobRead)"
  using config_trunc_buffer [OF assms] length_config_trunc [of s]
  by (auto simp: domain_create_correct [OF assms] HASH_ADD_STR_def c_strlen_def DOMAIN_LENGTH_def config_trunc_def)

theorem domain_field_termination_witness:
  "\<exists>d. domain_create True 0 (Some (replicate 256 97)) = Inr (Some d) \<and> length (d_domain d) = 256
     \<and> HASH_ADD_STR True (d_domain d) d None = Inl OobRead"
proof -
  have "0 \<notin> set (replicate 256 (97 :: byte))" by (simp add: set_replicate_conv_if)
  from domain_field_termination [OF this, of 0 True None] show ?thesis by simp
qed

text \<open>
  A NULL element of the blacklist array makes the loader hand a NULL string to \<open>strlen\<close>; the
  whitelist loader skips such an element.
\<close>

theorem null_list_element:
  assumes "json_strings_ok J" and "json_object_array_get_idx J arr i = None" and "calloc_ok i"
  shows "blacklist_elem J calloc_ok m arr i tbl = Inl NullDeref
    \<and> whitelist_elem J calloc_ok m arr i tbl = Inr tbl"
  using assms by (simp add: blacklist_elem_def whitelist_elem_def json_strings_ok_def domain_create_def)

theorem null_list_element_witness:
  "blacklist_elem (json_instance None) (\<lambda>_. True) True (VArr [VNull]) 0 None = Inl NullDeref
    \<and> whitelist_elem (json_instance None) (\<lambda>_. True) True (VArr [VNull]) 0 None = Inr None"
  using null_list_element [OF sample_strings_ok, of None "VArr [VNull]" 0 "\<lambda>_. True" True None]
  by (simp add: json_instance_def)

lemma cloud_field_ok:
  assumes J: "json_strings_ok J" and r: "load_cloud_field J j name cap (replicate n 0) = Inr b" and "cap < n"
  shows "terminated b \<and> length b = n \<and> length (cstr b) \<le> cap"
proof -
  have "b = replicate n 0 \<or> (\<exists>s. 0 \<notin> set s \<and> b = take (min cap (length s)) s @ replicate (n - min cap (length s)) 0)"
  proof -
    { fix s assume z: "0 \<notin> set s" and c: "c_memcpy (replicate n 0) 0 (cmem s) 0 (if cap < length s then cap else length s) = Inr b"
      have m: "(if cap < length s then cap else length s) = min cap (length s)" by auto
      have "b = take (min cap (length s)) s @ replicate (n - min cap (length s)) 0"
        using c assms(3) unfolding m by (subst (asm) memcpy_zero_buffer) auto
      with z have "\<exists>s. 0 \<notin> set s \<and> b = take (min cap (length s)) s @ replicate (n - min cap (length s)) 0" by blast }
    with r J show ?thesis
      by (auto simp: load_cloud_field_def json_strings_ok_def result_simps strlen_cmem c_strlen_def split: option.splits)
  qed
  then show ?thesis
  proof (elim disjE exE conjE)
    assume "b = replicate n 0"
    with cstr_append_zeros [of "[]" n] terminated_append_zeros [of "[]" n] assms(3) show ?thesis by simp
  next
    fix s assume z: "0 \<notin> set s" and b: "b = take (min cap (length s)) s @ replicate (n - min cap (length s)) 0"
    have "0 \<notin> set (take (min cap (length s)) s)" using z by (auto dest: in_set_takeD)
    with b assms(3) show ?thesis by (simp add: terminated_append_zeros)
  qed
qed

text \<open>
  The fields of \<open>cloudlogging\<close> are terminated whatever the document holds: each keeps at most
  one character less than its buffer has bytes, starting from a zeroed buffer.
\<close>

theorem cloudlogging_terminated:
  assumes J: "json_strings_ok J" and load: "config_load J E (Some r) config_init = Inr c"
  shows "list_all terminated [config_get_cloudlogging_auth c, config_get_cloudlogging_addr c,
     config_get_cloudlogging_user c, config_get_cloudlogging_pass c]"
proof -
  from config_load_parts(5) [OF load] obtain c0 c1 where c1:
    "config_load_cloudlogging J (json_object_object_get J r ''cloudlogging'')
       (c0\<lparr>cloudlogging := cloudlogging config_init\<rparr>) = Inr c1" "cloudlogging c1 = cloudlogging c" by blast
  have z: "0 < n \<Longrightarrow> terminated (replicate n 0)" for n by (simp add: terminated_def)
  show ?thesis
  proof (cases "json_object_object_get J r ''cloudlogging''")
    case None
    with c1 show ?thesis
      by (auto simp: config_load_cloudlogging_def config_get_cloudlogging_auth_def config_get_cloudlogging_addr_def
        config_get_cloudlogging_user_def config_get_cloudlogging_pass_def config_init_def z
        SERVERADDR_LENGTH_def USERNAME_LENGTH_def PASSWORD_LENGTH_def dest!: sym [of _ "cloudlogging c"])
  next
    case (Some j)
    from c1 Some obtain a b u p where
      "load_cloud_field J j ''auth'' 255 (replicate 256 0) = Inr a"
      "load_cloud_field J j ''addr'' 255 (replicate 256 0) = Inr b"
      "load_cloud_field J j ''user'' 63 (replicate 64 0) = Inr u"
      "load_cloud_field J j ''pass'' 63 (replicate 64 0) = Inr p"
      "cloudlogging c = \<lparr>cl_auth = a, cl_addr = b, cl_user = u, cl_pass = p\<rparr>"
      by (auto simp: config_load_cloudlogging_def result_simps config_init_def
        SERVERADDR_LENGTH_def USERNAME_LENGTH_def PASSWORD_LENGTH_def)
    with cloud_field_ok [OF J] show ?thesis
      by (auto simp: config_get_cloudlogging_auth_def config_get_cloudlogging_addr_def
        config_get_cloudlogging_user_def config_get_cloudlogging_pass_def)
  qed
qed

theorem cloudlogging_terminated_witness:
  "\<exists>c. config_load (json_instance None) all_loads (Some sample_config) config_init = Inr c
     \<and> list_all terminated [config_get_cloudlogging_auth c, config_get_cloudlogging_addr c,
          config_get_cloudlogging_user c, config_get_cloudlogging_pass c]"
proof -
  obtain c where c: "config_load (json_instance None) all_loads (Some sample_config) config_init = Inr c"
    using sample_config_loads by blast
  with cloudlogging_terminated [OF sample_strings_ok c] show ?thesis by blast
qed

end
