(* ===== verification/Access_Rules.thy ===== *)
theory Access_Rules
  imports Config
begin

text \<open>
  The contract of the configuration that the access decision relies on: four queries that never
  fail and answer from four sets.  \<open>config_rules\<close> states it for any representation;
  the interpretation \<open>cr\<close> shows that the arrays and tables of \<open>config.c\<close> meet it, and
  \<open>config_load_rules\<close> says which sets a loaded document gives.
\<close>

locale config_rules =
  fixes invar :: "'c \<Rightarrow> bool"
    and app_blocked cat_blocked :: "'c \<Rightarrow> int \<Rightarrow> bool result"
    and blacklisted whitelisted :: "'c \<Rightarrow> byte list \<Rightarrow> bool result"
    and apps cats :: "'c \<Rightarrow> int set"
    and black white :: "'c \<Rightarrow> byte list set"
  assumes app_query: "invar c \<Longrightarrow> app_blocked c a = Inr (a \<in> apps c)"
    and cat_query: "invar c \<Longrightarrow> cat_blocked c k = Inr (k \<in> cats c)"
    and black_query: "invar c \<Longrightarrow> terminated p \<Longrightarrow> blacklisted c p = Inr (listed_in (black c) (cstr p))"
    and white_query: "invar c \<Longrightarrow> terminated p \<Longrightarrow> whitelisted c p = Inr (listed_in (white c) (cstr p))"

subsection \<open>The representation\<close>

definition array_ok :: "int list option \<Rightarrow> nat \<Rightarrow> bool" where
  "array_ok arr n \<longleftrightarrow> (case arr of None \<Rightarrow> True | Some xs \<Rightarrow> n \<le> length xs)"

definition array_set :: "int list option \<Rightarrow> nat \<Rightarrow> int set" where
  "array_set arr n = (case arr of None \<Rightarrow> {} | Some xs \<Rightarrow> set (take n xs))"

definition config_ok :: "config \<Rightarrow> bool" where
  "config_ok c \<longleftrightarrow> uthash_ok (domains_blacklist c) \<and> uthash_ok (domains_whitelist c)
     \<and> array_ok (categories c) (categories_length c) \<and> array_ok (applications c) (applications_length c)"

definition blocked_applications :: "config \<Rightarrow> int set" where
  "blocked_applications c = array_set (applications c) (applications_length c)"

definition blocked_categories :: "config \<Rightarrow> int set" where
  "blocked_categories c = array_set (categories c) (categories_length c)"

definition blacklist :: "config \<Rightarrow> byte list set" where
  "blacklist c = fst ` set (hash_items (domains_blacklist c))"

definition whitelist :: "config \<Rightarrow> byte list set" where
  "whitelist c = fst ` set (hash_items (domains_whitelist c))"

interpretation cr: config_rules config_ok config_is_application_blocked config_is_category_blocked
  config_is_domain_blacklisted config_is_domain_whitelisted
  blocked_applications blocked_categories blacklist whitelist
proof unfold_locales
  fix c :: config and a assume "config_ok c"
  then show "config_is_application_blocked c a = Inr (a \<in> blocked_applications c)"
    by (auto simp: config_ok_def config_is_application_blocked_def blocked_applications_def array_ok_def array_set_def
        int_array_search_correct split: option.splits)
next
  fix c :: config and k assume "config_ok c"
  then show "config_is_category_blocked c k = Inr (k \<in> blocked_categories c)"
    by (auto simp: config_ok_def config_is_category_blocked_def blocked_categories_def array_ok_def array_set_def
        int_array_search_correct split: option.splits)
next
  fix c :: config and p assume "config_ok c" "terminated p"
  then show "config_is_domain_blacklisted c p = Inr (listed_in (blacklist c) (cstr p))"
    by (simp add: config_ok_def config_is_domain_blacklisted_def config_domain_lookup_correct blacklist_def)
next
  fix c :: config and p assume "config_ok c" "terminated p"
  then show "config_is_domain_whitelisted c p = Inr (listed_in (whitelist c) (cstr p))"
    by (simp add: config_ok_def config_is_domain_whitelisted_def config_domain_lookup_correct whitelist_def)
qed

lemma config_ok_init: "config_ok config_init"
  by (simp add: config_ok_def config_init_def array_ok_def uthash_ok_def)

subsection \<open>Loaded configurations\<close>

definition load_succeeds :: "load_env \<Rightarrow> bool" where
  "load_succeeds E \<longleftrightarrow> calloc_categories E \<and> calloc_applications E
     \<and> (\<forall>i. calloc_blacklist E i) \<and> (\<forall>i. calloc_whitelist E i)"

lemma loaded_categories:
  assumes "config_load_categories J True j (c0\<lparr>categories_length := 0, categories := None\<rparr>) = Inr c1"
  shows "array_ok (categories c1) (categories_length c1) \<and> array_set (categories c1) (categories_length c1) = set (json_ints_of J j)"
proof (cases j)
  case None
  with assms show ?thesis by (auto simp: config_load_categories_def json_ints_of_def array_ok_def array_set_def)
next
  case (Some arr)
  with assms show ?thesis by (auto simp: config_load_categories_correct json_ints_of_def array_ok_def array_set_def)
qed

lemma loaded_applications:
  assumes "config_load_applications J True j (c0\<lparr>applications_length := 0, applications := None\<rparr>) = Inr c1"
  shows "array_ok (applications c1) (applications_length c1)
    \<and> array_set (applications c1) (applications_length c1) = set (json_ints_of J j)"
proof (cases j)
  case None
  with assms show ?thesis by (auto simp: config_load_applications_def json_ints_of_def array_ok_def array_set_def)
next
  case (Some arr)
  with assms show ?thesis by (auto simp: config_load_applications_correct json_ints_of_def array_ok_def array_set_def)
qed

lemma config_load_rules:
  assumes J: "json_strings_ok J" and E: "load_succeeds E"
    and load: "config_load J E (Some r) config_init = Inr c"
  shows "config_ok c"
    "blocked_applications c = set (json_ints_of J (json_object_object_get J r ''applications''))"
    "blocked_categories c = set (json_ints_of J (json_object_object_get J r ''categories''))"
    "blacklist c = config_trunc ` json_strings_of J (json_object_object_get J r ''domains_blacklist'')"
    "whitelist c = config_trunc ` json_strings_of J (json_object_object_get J r ''domains_whitelist'')"
proof -
  have e: "calloc_categories E" "calloc_applications E" "calloc_blacklist E i" "calloc_whitelist E i" for i
    using E by (simp_all add: load_succeeds_def)
  obtain b0 b1 where b: "config_load_domains_blacklist J (calloc_blacklist E) (load_malloc E)
      (json_object_object_get J r ''domains_blacklist'') (b0\<lparr>domains_blacklist := None\<rparr>) = Inr b1"
    "domains_blacklist b1 = domains_blacklist c" using config_load_parts(1) [OF load] by blast
  note b' = loaded_blacklist [OF J e(3) b(1), unfolded b(2), folded blacklist_def]
  obtain w0 w1 where w: "config_load_domains_whitelist J (calloc_whitelist E) (load_malloc E)
      (json_object_object_get J r ''domains_whitelist'') (w0\<lparr>domains_whitelist := None\<rparr>) = Inr w1"
    "domains_whitelist w1 = domains_whitelist c" using config_load_parts(2) [OF load] by blast
  note w' = loaded_whitelist [OF J e(4) w(1), unfolded w(2), folded whitelist_def]
  obtain k0 k1 where k: "config_load_categories J True (json_object_object_get J r ''categories'')
      (k0\<lparr>categories_length := 0, categories := None\<rparr>) = Inr k1"
    "categories_length k1 = categories_length c" "categories k1 = categories c"
    using config_load_parts(3) [OF load] e(1) by auto
  note k' = loaded_categories [OF k(1), unfolded k(2,3), folded blocked_categories_def]
  obtain a0 a1 where a: "config_load_applications J True (json_object_object_get J r ''applications'')
      (a0\<lparr>applications_length := 0, applications := None\<rparr>) = Inr a1"
    "applications_length a1 = applications_length c" "applications a1 = applications c"
    using config_load_parts(4) [OF load] e(2) by auto
  note a' = loaded_applications [OF a(1), unfolded a(2,3), folded blocked_applications_def]
  from a' k' b' w' show "config_ok c"
    "blocked_applications c = set (json_ints_of J (json_object_object_get J r ''applications''))"
    "blocked_categories c = set (json_ints_of J (json_object_object_get J r ''categories''))"
    "blacklist c = config_trunc ` json_strings_of J (json_object_object_get J r ''domains_blacklist'')"
    "whitelist c = config_trunc ` json_strings_of J (json_object_object_get J r ''domains_whitelist'')"
    by (simp_all add: config_ok_def)
qed

end
