(* ===== verification/Logger.thy ===== *)
theory Logger
  imports C_Prelude
begin

text \<open>
  \<open>logger.c\<close>: the levelled logger.  The state is the static \<open>logger\<close> record together with the
  bytes written to its stream; \<open>timefmt\<close> is the text \<open>strftime\<close> produces for the current time
  and \<open>message\<close> the text \<open>vfprintf\<close> produces for the format and its arguments.  The other
  components record the calls they make as \<open>log_call\<close>s, which \<open>logger_run\<close> executes.
\<close>

datatype logger_loglevel_t =
  LOGLEVEL_DEBUG | LOGLEVEL_INFO | LOGLEVEL_WARNING | LOGLEVEL_ERROR | LOGLEVEL_CRITICAL

fun loglevel_value :: "logger_loglevel_t \<Rightarrow> nat" where
  "loglevel_value LOGLEVEL_DEBUG = 0"
| "loglevel_value LOGLEVEL_INFO = 1"
| "loglevel_value LOGLEVEL_WARNING = 2"
| "loglevel_value LOGLEVEL_ERROR = 3"
| "loglevel_value LOGLEVEL_CRITICAL = 4"

instantiation logger_loglevel_t :: linorder
begin

definition less_eq_logger_loglevel_t :: "logger_loglevel_t \<Rightarrow> logger_loglevel_t \<Rightarrow> bool" where
  "less_eq_logger_loglevel_t a b \<longleftrightarrow> loglevel_value a \<le> loglevel_value b"

definition less_logger_loglevel_t :: "logger_loglevel_t \<Rightarrow> logger_loglevel_t \<Rightarrow> bool" where
  "less_logger_loglevel_t a b \<longleftrightarrow> loglevel_value a < loglevel_value b"

instance
proof
  fix x y :: logger_loglevel_t
  assume "x \<le> y" "y \<le> x"
  then show "x = y"
    by (cases x; cases y) (auto simp: less_eq_logger_loglevel_t_def)
qed (auto simp: less_eq_logger_loglevel_t_def less_logger_loglevel_t_def)

end

text \<open>The stream: the default \<open>stderr\<close>, a file opened for appending, or NULL when \<open>fopen\<close> failed.\<close>

datatype log_stream = STDERR | LOGFILE string | NULL_STREAM

record logger =
  lg_active :: bool
  lg_loglevel :: logger_loglevel_t
  lg_stream :: log_stream
  lg_written :: "byte list"

text \<open>The static initialiser; the stream pointer starts as NULL.\<close>

definition logger_static :: logger where
  "logger_static = \<lparr>lg_active = False, lg_loglevel = LOGLEVEL_INFO, lg_stream = NULL_STREAM, lg_written = []\<rparr>"

definition logger_init :: "(string \<Rightarrow> bool) \<Rightarrow> string option \<Rightarrow> logger \<Rightarrow> logger" where
  "logger_init fopen_ok filename lg =
     lg\<lparr>lg_stream := (case filename of None \<Rightarrow> STDERR
          | Some f \<Rightarrow> if fopen_ok f then LOGFILE f else NULL_STREAM),
        lg_active := True\<rparr>"

definition logger_close :: "logger \<Rightarrow> logger result" where
  "logger_close lg =
    (if lg_stream lg = NULL_STREAM then Inl NullDeref else Inr (lg\<lparr>lg_active := False\<rparr>))"

definition logger_set_loglevel :: "logger_loglevel_t \<Rightarrow> logger \<Rightarrow> logger" where
  "logger_set_loglevel level lg = lg\<lparr>lg_loglevel := level\<rparr>"

definition logger_write ::
    "logger_loglevel_t \<Rightarrow> byte list \<Rightarrow> byte list \<Rightarrow> byte list \<Rightarrow> logger \<Rightarrow> logger result" where
  "logger_write level logfmt timefmt message lg =
    (if lg_active lg \<and> lg_loglevel lg \<le> level
     then if lg_stream lg = NULL_STREAM then Inl NullDeref
          else Inr (lg\<lparr>lg_written := lg_written lg @ timefmt @ logfmt @ message @ [10]\<rparr>)
     else Inr lg)"

fun logfmt_of :: "logger_loglevel_t \<Rightarrow> byte list" where
  "logfmt_of LOGLEVEL_DEBUG = bytes '' [DEBUG]    | ''"
| "logfmt_of LOGLEVEL_INFO = bytes '' [INFO]     | ''"
| "logfmt_of LOGLEVEL_WARNING = bytes '' [WARNING]  | ''"
| "logfmt_of LOGLEVEL_ERROR = bytes '' [ERROR]    | ''"
| "logfmt_of LOGLEVEL_CRITICAL = bytes '' [CRITICAL] | ''"

text \<open>
  A call of one of the functions \<open>MAKE_LOGGER\<close> generates (\<open>logger_debug\<close>, \<open>logger_error\<close>, ...):
  the level and the formatted message.
\<close>

type_synonym log_call = "logger_loglevel_t \<times> byte list"

definition MAKE_LOGGER :: "byte list \<Rightarrow> log_call \<Rightarrow> logger \<Rightarrow> logger result" where
  "MAKE_LOGGER timefmt c lg = (case c of (level, message) \<Rightarrow>
     logger_write level (logfmt_of level) timefmt message lg)"

definition logger_run :: "byte list \<Rightarrow> log_call list \<Rightarrow> logger \<Rightarrow> logger result" where
  "logger_run timefmt cs lg = rfold (MAKE_LOGGER timefmt) cs lg"

subsection \<open>What is written\<close>

definition log_line :: "byte list \<Rightarrow> log_call \<Rightarrow> byte list" where
  "log_line timefmt c = timefmt @ logfmt_of (fst c) @ snd c @ [10]"

lemma logger_run_written:
  assumes "lg_active lg" and "lg_stream lg \<noteq> NULL_STREAM"
  shows "logger_run timefmt cs lg = Inr (lg\<lparr>lg_written := lg_written lg
    @ concat (map (log_line timefmt) (filter (\<lambda>c. lg_loglevel lg \<le> fst c) cs))\<rparr>)"
  using assms
proof (induction cs arbitrary: lg)
  case Nil
  then show ?case by (simp add: logger_run_def)
next
  case (Cons c cs)
  obtain l m where c: "c = (l, m)" by (cases c)
  show ?case
  proof (cases "lg_loglevel lg \<le> l")
    case True
    let ?lg = "lg\<lparr>lg_written := lg_written lg @ log_line timefmt c\<rparr>"
    have "MAKE_LOGGER timefmt c lg = Inr ?lg"
      using Cons.prems True by (simp add: c MAKE_LOGGER_def logger_write_def log_line_def)
    with Cons.IH [of ?lg] Cons.prems True show ?thesis by (simp add: logger_run_def c)
  next
    case False
    with Cons show ?thesis by (simp add: logger_run_def c MAKE_LOGGER_def logger_write_def)
  qed
qed

end
