(* ===== verification/Domain_Lookup.thy ===== *)
theory Domain_Lookup
  imports Config Logger
begin

text \<open>
  \<open>domain_lookup.c\<close>: the category and application of a domain, from a cache in front of the
  query server.  The static variables are one record: the arena of 65536 \<open>domain_info_t\<close>
  slots, the pointer stack of free slots with its index, the cache (a hash table of slot
  numbers) and the time of its last collection.  Calls of the logger are collected in
  \<open>lk_log\<close>.  The transfer, the tokener, the clock, \<open>rand\<close> and the allocator are parameters.

  The lemmas show that the arena never hands out a slot that is in use and never loses one,
  what a hit, a miss, an expired entry and a failing server do, and what the collector keeps.
\<close>

definition DOMAIN_INFO_ARENA_SIZE :: int where "DOMAIN_INFO_ARENA_SIZE = 65536"
definition DOMAIN_INFO_CACHE_GCINTERVAL :: int where "DOMAIN_INFO_CACHE_GCINTERVAL = 5 * 60"
definition DOMAIN_INFO_CACHE_DEFAULT_TTL :: int where "DOMAIN_INFO_CACHE_DEFAULT_TTL = 1 * 60"
definition DOMAIN_INFO_CACHE_DEFAULT_CATEGORY :: int where "DOMAIN_INFO_CACHE_DEFAULT_CATEGORY = 0"
definition DOMAIN_INFO_CACHE_DEFAULT_APPLICATION :: int where "DOMAIN_INFO_CACHE_DEFAULT_APPLICATION = 0"

subsection \<open>Data\<close>

record domain_response =
  rs_category :: int
  rs_application :: int

record domain_info =
  di_domain :: "byte list"
  di_application :: int
  di_category :: int
  di_expire :: int

definition domain_info_zero :: domain_info where
  "domain_info_zero = \<lparr>di_domain = replicate DOMAIN_LENGTH 0, di_application = 0, di_category = 0, di_expire = 0\<rparr>"

record lookup_state =
  arena :: "nat \<Rightarrow> domain_info"
  arena_ptr :: "nat \<Rightarrow> nat"
  arena_index :: int
  cache :: "nat hash_head"
  lastgc :: int
  lk_log :: "log_call list"

definition domain_info_arena_init :: lookup_state where
  "domain_info_arena_init = \<lparr>arena = (\<lambda>_. domain_info_zero), arena_ptr = (\<lambda>i. i), arena_index = 0,
     cache = None, lastgc = 0, lk_log = []\<rparr>"

definition lk_logger :: "logger_loglevel_t \<Rightarrow> byte list \<Rightarrow> lookup_state \<Rightarrow> lookup_state" where
  "lk_logger level msg st = st\<lparr>lk_log := lk_log st @ [(level, msg)]\<rparr>"

subsection \<open>The arena\<close>

definition domain_info_allocate :: "lookup_state \<Rightarrow> (nat option \<times> lookup_state) result" where
  "domain_info_allocate st =
    (if arena_index st < 0 then Inl AssertFail
     else if DOMAIN_INFO_ARENA_SIZE \<le> arena_index st then Inr (None, st)
     else let p = arena_ptr st (nat (arena_index st))
          in Inr (Some p, st\<lparr>arena_index := arena_index st + 1, arena := (arena st)(p := domain_info_zero)\<rparr>))"

definition domain_info_deallocate :: "nat \<Rightarrow> lookup_state \<Rightarrow> lookup_state result" where
  "domain_info_deallocate p st =
    (if \<not> 0 < arena_index st then Inl AssertFail
     else Inr (st\<lparr>arena_index := arena_index st - 1,
                  arena_ptr := (arena_ptr st)(nat (arena_index st - 1) := p)\<rparr>))"

definition domain_info_free :: "nat \<Rightarrow> lookup_state \<Rightarrow> lookup_state result" where
  "domain_info_free p st = domain_info_deallocate p st"

definition domain_info_create ::
    "byte list \<Rightarrow> int \<Rightarrow> int \<Rightarrow> int \<Rightarrow> lookup_state \<Rightarrow> (nat option \<times> lookup_state) result" where
  "domain_info_create domain application category expire st =
     rbind (domain_info_allocate st) (\<lambda>(p, st).
       case p of
         None \<Rightarrow> Inr (None, lk_logger LOGLEVEL_ERROR (bytes ''domain_info allocation failed'') st)
       | Some p \<Rightarrow>
           rbind (c_strlen domain) (\<lambda>n.
           rbind (c_memcpy (di_domain (arena st p)) 0 domain 0 n) (\<lambda>buf.
             Inr (Some p, st\<lparr>arena := (arena st)(p := \<lparr>di_domain = buf, di_application = application,
                                di_category = category, di_expire = expire\<rparr>)\<rparr>))))"

subsection \<open>The cache\<close>

function domain_info_cache_lookup :: "nat hash_head \<Rightarrow> byte list \<Rightarrow> nat option result" where
  "domain_info_cache_lookup c ptr =
     rbind (HASH_FIND_STR c ptr) (\<lambda>d.
       if d \<noteq> None then Inr d
       else rbind (c_strchr 46 ptr) (\<lambda>i.
         case i of None \<Rightarrow> Inr None
         | Some i \<Rightarrow> domain_info_cache_lookup c (drop (Suc i) ptr)))"
  by pat_completeness auto
termination
  by (relation "measure (\<lambda>(c, p). length p)") (auto dest: c_strchr_Some_bound)

declare domain_info_cache_lookup.simps [simp del]

definition domain_info_cache_delete :: "nat \<Rightarrow> lookup_state \<Rightarrow> lookup_state result" where
  "domain_info_cache_delete p st = rbind (HASH_DEL p (cache st)) (\<lambda>c. Inr (st\<lparr>cache := c\<rparr>))"

text \<open>
  One iteration of the collector, for the \<open>i\<close>-th entry \<open>d\<close>.  \<open>rand () < 0.2\<close> compares an \<open>int\<close>
  with a \<open>double\<close>; \<open>5 * r < 1\<close> is the same comparison on integers.
\<close>

definition gc_step :: "int \<Rightarrow> (nat \<Rightarrow> int) \<Rightarrow> nat \<times> nat \<Rightarrow> lookup_state \<Rightarrow> lookup_state result" where
  "gc_step now rnd e st = (case e of (i, d) \<Rightarrow>
     if di_expire (arena st d) < now \<or> 5 * rnd i < 1
     then rbind (c_str (di_domain (arena st d))) (\<lambda>name.
          rbind (domain_info_cache_delete d (lk_logger LOGLEVEL_DEBUG (bytes ''[gc] '' @ name) st))
            (domain_info_free d))
     else Inr st)"

definition domain_info_cache_insert ::
    "bool \<Rightarrow> int \<Rightarrow> (nat \<Rightarrow> int) \<Rightarrow> nat \<Rightarrow> lookup_state \<Rightarrow> lookup_state result" where
  "domain_info_cache_insert malloc_ok now rnd p st =
     rbind (if lastgc st < now - DOMAIN_INFO_CACHE_GCINTERVAL
            then let before = HASH_COUNT (cache st)
                 in rbind (rfold (gc_step now rnd) (enumerate 0 (HASH_ITER (cache st)))
                             (lk_logger LOGLEVEL_DEBUG (bytes ''[gc] start'') st)) (\<lambda>st.
                    let after = HASH_COUNT (cache st)
                    in Inr (lk_logger LOGLEVEL_DEBUG
                              (bytes ''[gc] end; '' @ show_nat (unat (ucast before - ucast after :: u64))
                               @ bytes '' domains gc'' @ 39 # bytes ''d'')
                              (st\<lparr>lastgc := now\<rparr>)))
            else Inr st) (\<lambda>st.
     rbind (HASH_ADD_STR malloc_ok (di_domain (arena st p)) p (cache st)) (\<lambda>c.
       Inr (st\<lparr>cache := c\<rparr>)))"

subsection \<open>The query\<close>

definition domain_request_to_json_object :: "byte list \<Rightarrow> json_doc" where
  "domain_request_to_json_object domain = JObject [(''domain'', JString domain)]"

text \<open>The buffer of a transfer: the tokener and the last object it returned.\<close>

type_synonym ('j, 't) curl_json_buffer = "'t \<times> 'j option"

definition curl_write_cb :: "('j, 't) json_c \<Rightarrow> byte list \<Rightarrow> ('j, 't) curl_json_buffer \<Rightarrow> ('j, 't) curl_json_buffer" where
  "curl_write_cb J contents b = json_tokener_parse_ex J (fst b) contents"

definition domain_lookup_opts :: "byte list \<Rightarrow> byte list \<Rightarrow> curl_opt list" where
  "domain_lookup_opts url data =
    [CURLOPT_URL url, CURLOPT_HTTP_VERSION_2TLS, CURLOPT_CUSTOMREQUEST ''POST'',
     CURLOPT_BUFFERSIZE 102400, CURLOPT_TIMEOUT_MS 10000, CURLOPT_USERAGENT ''curl/8.10.1'',
     CURLOPT_HTTPHEADER [bytes ''content-type: application/json''],
     CURLOPT_WRITEFUNCTION, CURLOPT_POSTFIELDS data, CURLOPT_WRITEDATA,
     CURLOPT_NOPROGRESS 1, CURLOPT_MAXREDIRS 50, CURLOPT_TCP_KEEPALIVE 1]"

definition domain_lookup_curl ::
    "('j, 't) json_c \<Rightarrow> curl \<Rightarrow> config \<Rightarrow> ('j, 't) curl_json_buffer \<Rightarrow> byte list
      \<Rightarrow> (bool \<times> ('j, 't) curl_json_buffer) result" where
  "domain_lookup_curl J curl cfg b data =
     rbind (c_str (config_get_serveraddr cfg)) (\<lambda>url.
       let (ok, chunks) = curl (domain_lookup_opts url data)
       in Inr (ok, fold (curl_write_cb J) chunks b))"

text \<open>What the outside world answers during one call of \<open>domain_lookup\<close>.\<close>

record lookup_env =
  lk_now :: int                        \<comment> \<open>\<open>time (NULL)\<close> in \<open>domain_lookup\<close>\<close>
  lk_insert_now :: "nat \<Rightarrow> int"        \<comment> \<open>\<open>time (NULL)\<close> in the \<open>i\<close>-th insertion\<close>
  lk_rand :: "nat \<Rightarrow> nat \<Rightarrow> int"      \<comment> \<open>\<open>rand ()\<close> for an entry during the \<open>i\<close>-th insertion\<close>
  lk_malloc :: bool                    \<comment> \<open>whether the table's allocations succeed\<close>
  lk_curl :: curl
  lk_to_string :: "json_doc \<Rightarrow> byte list"

text \<open>The fields of a reply.\<close>

definition reply_category :: "('j, 't) json_c \<Rightarrow> 'j \<Rightarrow> int" where
  "reply_category J obj =
    (case json_object_object_get J obj ''category'' of None \<Rightarrow> 0
     | Some j \<Rightarrow> json_object_get_int J (Some j))"

definition reply_application :: "('j, 't) json_c \<Rightarrow> 'j \<Rightarrow> int" where
  "reply_application J obj =
    (if json_object_object_get J obj ''category'' \<noteq> None
     then json_object_get_int J (json_object_object_get J obj ''application'') else 0)"

definition reply_ttl :: "('j, 't) json_c \<Rightarrow> 'j \<Rightarrow> int" where
  "reply_ttl J obj =
    (case json_object_object_get J obj ''ttl'' of
       None \<Rightarrow> 0
     | Some j \<Rightarrow> (let ttl = json_object_get_int64 J (Some j)
                 in if ttl = 0 then DOMAIN_INFO_CACHE_DEFAULT_TTL else ttl))"

text \<open>Create an entry and insert it; an entry that cannot be allocated is skipped.\<close>

definition create_and_insert ::
    "lookup_env \<Rightarrow> nat \<Rightarrow> byte list \<Rightarrow> int \<Rightarrow> int \<Rightarrow> int \<Rightarrow> lookup_state \<Rightarrow> lookup_state result" where
  "create_and_insert E i domain application category expire st =
     rbind (domain_info_create domain application category expire st) (\<lambda>(p, st).
       case p of None \<Rightarrow> Inr st
       | Some p \<Rightarrow> domain_info_cache_insert (lk_malloc E) (lk_insert_now E i) (lk_rand E i) p st)"

definition cache_domain_step ::
    "('j, 't) json_c \<Rightarrow> lookup_env \<Rightarrow> 'j \<Rightarrow> int \<Rightarrow> int \<Rightarrow> int \<Rightarrow> nat \<Rightarrow> lookup_state \<Rightarrow> lookup_state result" where
  "cache_domain_step J E arr application category expire i st =
    (case json_object_array_get_idx J arr i of
       None \<Rightarrow> Inr st
     | Some j \<Rightarrow>
         (case json_object_get_string J (Some j) of
            None \<Rightarrow> Inr st
          | Some domain \<Rightarrow> create_and_insert E i (cmem domain) application category expire st))"

text \<open>The part of \<open>domain_lookup\<close> after a reply object was received.\<close>

definition lookup_reply ::
    "('j, 't) json_c \<Rightarrow> lookup_env \<Rightarrow> byte list \<Rightarrow> 'j \<Rightarrow> lookup_state \<Rightarrow> lookup_state result" where
  "lookup_reply J E domain obj st =
    (let category = reply_category J obj;
         application = reply_application J obj;
         expire = to_s64 (lk_now E + reply_ttl J obj)
     in case json_object_object_get J obj ''cache_domains'' of
          Some arr \<Rightarrow> rfold (cache_domain_step J E arr application category expire)
                        [0..<nat (int_of_size (json_object_array_length J arr))] st
        | None \<Rightarrow> create_and_insert E 0 domain application category expire st)"

text \<open>The failed query (a curl error or no JSON object) and the answered one.\<close>

definition lookup_answer ::
    "('j, 't) json_c \<Rightarrow> lookup_env \<Rightarrow> byte list \<Rightarrow> byte list \<Rightarrow> bool \<Rightarrow> 'j option \<Rightarrow> lookup_state \<Rightarrow> lookup_state result" where
  "lookup_answer J E domain name ok obj st =
    (case (if ok then obj else None) of
       None \<Rightarrow> create_and_insert E 0 domain DOMAIN_INFO_CACHE_DEFAULT_APPLICATION
                DOMAIN_INFO_CACHE_DEFAULT_CATEGORY (to_s64 (lk_now E + DOMAIN_INFO_CACHE_DEFAULT_TTL))
                (lk_logger LOGLEVEL_ERROR (bytes ''curl lookup failed: '' @ name) st)
     | Some obj \<Rightarrow> lookup_reply J E domain obj st)"

text \<open>The part of \<open>domain_lookup\<close> after the cache did not answer.\<close>

definition lookup_miss ::
    "('j, 't) json_c \<Rightarrow> lookup_env \<Rightarrow> config \<Rightarrow> byte list \<Rightarrow> lookup_state \<Rightarrow> lookup_state result" where
  "lookup_miss J E cfg domain st =
     rbind (c_str domain) (\<lambda>name.
     rbind (domain_lookup_curl J (lk_curl E) cfg (json_tokener_new J, None)
              (lk_to_string E (domain_request_to_json_object name))) (\<lambda>(ok, b).
       lookup_answer J E domain name ok (snd b) st))"

definition domain_lookup ::
    "('j, 't) json_c \<Rightarrow> lookup_env \<Rightarrow> config \<Rightarrow> byte list \<Rightarrow> domain_response \<Rightarrow> lookup_state
      \<Rightarrow> (domain_response \<times> lookup_state) result" where
  "domain_lookup J E cfg domain resp st =
     rbind (domain_info_cache_lookup (cache st) domain) (\<lambda>d.
       case d of
         None \<Rightarrow> rbind (lookup_miss J E cfg domain st) (\<lambda>st. Inr (resp, st))
       | Some d \<Rightarrow>
           if lk_now E < di_expire (arena st d)
           then Inr (\<lparr>rs_category = di_category (arena st d), rs_application = di_application (arena st d)\<rparr>, st)
           else rbind (domain_info_cache_delete d st) (\<lambda>st.
                rbind (domain_info_free d st) (\<lambda>st.
                rbind (lookup_miss J E cfg domain st) (\<lambda>st. Inr (resp, st)))))"

subsection \<open>The arena invariant\<close>

definition free_slots :: "lookup_state \<Rightarrow> nat list" where
  "free_slots st = map (arena_ptr st) [nat (arena_index st)..<65536]"

definition cached_slots :: "lookup_state \<Rightarrow> nat list" where
  "cached_slots st = map snd (hash_items (cache st))"

definition slot_ok :: "(nat \<Rightarrow> domain_info) \<Rightarrow> byte list \<times> nat \<Rightarrow> bool" where
  "slot_ok a p \<longleftrightarrow> terminated (di_domain (a (snd p))) \<and> fst p = cstr (di_domain (a (snd p)))"

text \<open>
  Every slot is pending (allocated and not yet cached), cached or free, and none is two of
  these; the key of a cached slot is the name stored in it.
\<close>

definition lookup_ok :: "nat list \<Rightarrow> lookup_state \<Rightarrow> bool" where
  "lookup_ok pend st \<longleftrightarrow>
     0 \<le> arena_index st \<and> arena_index st \<le> 65536 \<and> uthash_ok (cache st)
     \<and> distinct (pend @ cached_slots st @ free_slots st)
     \<and> set (pend @ cached_slots st @ free_slots st) = {0..<65536}
     \<and> list_all (slot_ok (arena st)) (hash_items (cache st))"

lemma lookup_ok_init: "lookup_ok [] domain_info_arena_init"
  by (simp add: lookup_ok_def domain_info_arena_init_def cached_slots_def free_slots_def
      ut.invar_empty ut.items_empty)

lemma lookup_ok_log [simp]:
  "lookup_ok pend (lk_logger l m st) = lookup_ok pend st"
  "cache (lk_logger l m st) = cache st" "arena (lk_logger l m st) = arena st"
  "lastgc (lk_logger l m st) = lastgc st" "arena_index (lk_logger l m st) = arena_index st"
  "arena_ptr (lk_logger l m st) = arena_ptr st"
  by (simp_all add: lookup_ok_def lk_logger_def cached_slots_def free_slots_def)

lemma lookup_ok_lastgc [simp]:
  "lookup_ok pend (st\<lparr>lastgc := t\<rparr>) = lookup_ok pend st"
  by (simp add: lookup_ok_def cached_slots_def free_slots_def)

text \<open>Writing to a slot that is not cached leaves the invariant alone.\<close>

lemma slot_ok_update:
  assumes "p \<notin> set (cached_slots st)" and "x \<in> set (hash_items (cache st))"
  shows "slot_ok ((arena st)(p := v)) x = slot_ok (arena st) x"
proof -
  have "snd x \<noteq> p" using assms by (metis cached_slots_def image_eqI set_map)
  then show ?thesis by (simp add: slot_ok_def)
qed

lemma lookup_ok_write:
  assumes "lookup_ok pend st" and "p \<notin> set (cached_slots st)"
  shows "lookup_ok pend (st\<lparr>arena := (arena st)(p := v)\<rparr>)"
proof -
  have "list_all (slot_ok ((arena st)(p := v))) (hash_items (cache st))"
    using assms slot_ok_update [OF assms(2)] by (simp add: lookup_ok_def list_all_iff)
  with assms(1) show ?thesis by (simp add: lookup_ok_def cached_slots_def free_slots_def)
qed

text \<open>The index counts the slots in use.\<close>

lemma lookup_ok_index:
  assumes "lookup_ok pend st"
  shows "arena_index st = int (length pend + length (hash_items (cache st)))"
proof -
  have "card (set (pend @ cached_slots st @ free_slots st)) = length (pend @ cached_slots st @ free_slots st)"
    using assms unfolding lookup_ok_def by (metis distinct_card)
  then have "65536 = length pend + length (cached_slots st) + length (free_slots st)"
    using assms unfolding lookup_ok_def by simp
  moreover have "0 \<le> arena_index st" "arena_index st \<le> 65536"
    using assms by (auto simp: lookup_ok_def)
  ultimately show ?thesis by (simp add: cached_slots_def free_slots_def)
qed

lemma domain_info_allocate_correct:
  assumes ok: "lookup_ok [] st"
  shows "\<exists>r st'. domain_info_allocate st = Inr (r, st') \<and>
    (case r of
       None \<Rightarrow> arena_index st = 65536 \<and> st' = st
     | Some p \<Rightarrow> arena_index st < 65536 \<and> p \<in> set (free_slots st) \<and> lookup_ok [p] st'
         \<and> cache st' = cache st \<and> lastgc st' = lastgc st \<and> arena st' = (arena st)(p := domain_info_zero))"
proof (cases "arena_index st < 65536")
  case False
  with ok show ?thesis
    by (auto simp: domain_info_allocate_def DOMAIN_INFO_ARENA_SIZE_def lookup_ok_def)
next
  case True
  let ?n = "nat (arena_index st)"
  let ?p = "arena_ptr st ?n"
  let ?st = "st\<lparr>arena_index := arena_index st + 1, arena := (arena st)(?p := domain_info_zero)\<rparr>"
  have i: "0 \<le> arena_index st" using ok by (simp add: lookup_ok_def)
  have "[?n..<65536] = ?n # [Suc ?n..<65536]" using True i by (simp add: upt_conv_Cons)
  then have fs: "free_slots st = ?p # free_slots ?st" using i by (simp add: free_slots_def nat_add_distrib)
  have nc: "?p \<notin> set (cached_slots st)" using ok fs by (auto simp: lookup_ok_def)
  then have "list_all (slot_ok (arena ?st)) (hash_items (cache st))"
    using ok slot_ok_update [OF nc] by (simp add: lookup_ok_def list_all_iff)
  then have "lookup_ok [?p] ?st"
    using ok fs True i by (auto simp: lookup_ok_def cached_slots_def)
  then show ?thesis using True i fs
    by (simp add: domain_info_allocate_def DOMAIN_INFO_ARENA_SIZE_def Let_def)
qed

lemma domain_info_deallocate_correct:
  assumes ok: "lookup_ok (p # pend) st"
  shows "\<exists>st'. domain_info_free p st = Inr st' \<and> lookup_ok pend st' \<and> cache st' = cache st
     \<and> arena st' = arena st \<and> lastgc st' = lastgc st"
proof -
  let ?n = "nat (arena_index st)"
  let ?st = "st\<lparr>arena_index := arena_index st - 1, arena_ptr := (arena_ptr st)(nat (arena_index st - 1) := p)\<rparr>"
  have pos: "0 < arena_index st" and le: "arena_index st \<le> 65536"
    using lookup_ok_index [OF ok] ok by (auto simp: lookup_ok_def)
  have "[?n - 1..<65536] = (?n - 1) # [?n..<65536]"
    using pos le by (subst upt_conv_Cons) auto
  moreover have "nat (arena_index st - 1) = ?n - 1" using pos by simp
  ultimately have "free_slots ?st = p # free_slots st"
    using pos by (simp add: free_slots_def)
  then have "lookup_ok pend ?st"
    using ok pos le by (auto simp: lookup_ok_def cached_slots_def)
  then show ?thesis using pos by (simp add: domain_info_free_def domain_info_deallocate_def)
qed

lemma domain_info_cache_delete_correct:
  assumes ok: "lookup_ok pend st" and mem: "d \<in> set (cached_slots st)"
  shows "\<exists>st'. domain_info_cache_delete d st = Inr st' \<and> lookup_ok (d # pend) st'
     \<and> hash_items (cache st') = filter (\<lambda>p. snd p \<noteq> d) (hash_items (cache st))
     \<and> arena st' = arena st \<and> lastgc st' = lastgc st"
proof -
  from mem obtain k where k: "(k, d) \<in> set (hash_items (cache st))" by (auto simp: cached_slots_def)
  have u: "uthash_ok (cache st)" using ok by (simp add: lookup_ok_def)
  from ut.del_correct [OF u k] obtain c where c: "HASH_DEL d (cache st) = Inr c" "uthash_ok c"
    "hash_items c = filter (\<lambda>p. snd p \<noteq> d) (hash_items (cache st))" by blast
  have "cached_slots (st\<lparr>cache := c\<rparr>) = filter (\<lambda>x. x \<noteq> d) (cached_slots st)"
    using c(3) by (simp add: cached_slots_def filter_map comp_def)
  moreover have "free_slots (st\<lparr>cache := c\<rparr>) = free_slots st" by (simp add: free_slots_def)
  ultimately have "lookup_ok (d # pend) (st\<lparr>cache := c\<rparr>)"
    using ok mem c by (auto simp: lookup_ok_def list_all_iff)
  with c show ?thesis by (simp add: domain_info_cache_delete_def)
qed

text \<open>Removing an entry and giving its slot back.\<close>

lemma delete_and_free:
  assumes "lookup_ok pend st" and "d \<in> set (cached_slots st)"
  shows "\<exists>st'. rbind (domain_info_cache_delete d st) (domain_info_free d) = Inr st' \<and> lookup_ok pend st'
     \<and> hash_items (cache st') = filter (\<lambda>p. snd p \<noteq> d) (hash_items (cache st))
     \<and> arena st' = arena st \<and> lastgc st' = lastgc st"
  using domain_info_cache_delete_correct [OF assms] domain_info_deallocate_correct
  by fastforce

subsection \<open>Collection and insertion\<close>

definition gc_victim :: "int \<Rightarrow> (nat \<Rightarrow> int) \<Rightarrow> (nat \<Rightarrow> domain_info) \<Rightarrow> nat \<times> nat \<Rightarrow> bool" where
  "gc_victim now rnd a e \<longleftrightarrow> di_expire (a (snd e)) < now \<or> 5 * rnd (fst e) < 1"

definition gc_victims :: "int \<Rightarrow> (nat \<Rightarrow> int) \<Rightarrow> (nat \<Rightarrow> domain_info) \<Rightarrow> (nat \<times> nat) list \<Rightarrow> nat set" where
  "gc_victims now rnd a es = snd ` {e \<in> set es. gc_victim now rnd a e}"

lemma gc_step_correct:
  assumes ok: "lookup_ok pend st" and mem: "snd e \<in> set (cached_slots st)"
  shows "\<exists>st'. gc_step now rnd e st = Inr st' \<and> lookup_ok pend st'
     \<and> hash_items (cache st') = filter (\<lambda>p. \<not> (snd p = snd e \<and> gc_victim now rnd (arena st) e)) (hash_items (cache st))
     \<and> arena st' = arena st \<and> lastgc st' = lastgc st"
proof (cases "gc_victim now rnd (arena st) e")
  case False
  with ok show ?thesis by (cases e) (auto simp: gc_step_def gc_victim_def)
next
  case True
  obtain i d where e: "e = (i, d)" by (cases e)
  obtain k where "(k, d) \<in> set (hash_items (cache st))" using mem by (auto simp: e cached_slots_def)
  then have t: "terminated (di_domain (arena st d))"
    using ok by (auto simp: lookup_ok_def list_all_iff slot_ok_def)
  let ?m = "bytes ''[gc] '' @ cstr (di_domain (arena st d))"
  have "lookup_ok pend (lk_logger LOGLEVEL_DEBUG ?m st)" using ok by simp
  moreover have "d \<in> set (cached_slots (lk_logger LOGLEVEL_DEBUG ?m st))"
    using mem by (simp add: e cached_slots_def)
  ultimately show ?thesis
    using delete_and_free [of pend "lk_logger LOGLEVEL_DEBUG ?m st" d] True t
    by (auto simp: e gc_step_def gc_victim_def c_str_Inr)
qed

lemma gc_loop:
  assumes "lookup_ok pend st" and "distinct (map snd es)" and "snd ` set es \<subseteq> set (cached_slots st)"
  shows "\<exists>st'. rfold (gc_step now rnd) es st = Inr st' \<and> lookup_ok pend st'
     \<and> hash_items (cache st') = filter (\<lambda>p. snd p \<notin> gc_victims now rnd (arena st) es) (hash_items (cache st))
     \<and> arena st' = arena st \<and> lastgc st' = lastgc st"
  using assms
proof (induction es arbitrary: st)
  case Nil
  then show ?case by (simp add: gc_victims_def)
next
  case (Cons e es)
  from Cons.prems(3) have "snd e \<in> set (cached_slots st)" by simp
  from gc_step_correct [OF Cons.prems(1) this, of now rnd] obtain s1 where s1:
    "gc_step now rnd e st = Inr s1" "lookup_ok pend s1"
    "hash_items (cache s1) = filter (\<lambda>p. \<not> (snd p = snd e \<and> gc_victim now rnd (arena st) e)) (hash_items (cache st))"
    "arena s1 = arena st" "lastgc s1 = lastgc st" by blast
  have "set (cached_slots s1) = {d \<in> set (cached_slots st). \<not> (d = snd e \<and> gc_victim now rnd (arena st) e)}"
    using s1(3) by (auto simp: cached_slots_def)
  moreover have "d \<noteq> snd e" "d \<in> set (cached_slots st)" if "d \<in> snd ` set es" for d
    using Cons.prems(2,3) that by (metis distinct.simps(2) list.simps(9) set_map, auto)
  ultimately have "snd ` set es \<subseteq> set (cached_slots s1)" by blast
  from Cons.IH [OF s1(2) _ this] Cons.prems(2) obtain s2 where s2:
    "rfold (gc_step now rnd) es s1 = Inr s2" "lookup_ok pend s2"
    "hash_items (cache s2) = filter (\<lambda>p. snd p \<notin> gc_victims now rnd (arena st) es) (hash_items (cache s1))"
    "arena s2 = arena st" "lastgc s2 = lastgc st" using s1(4,5) by auto
  have v: "gc_victims now rnd (arena st) (e # es) =
     (if gc_victim now rnd (arena st) e then {snd e} else {}) \<union> gc_victims now rnd (arena st) es"
    by (auto simp: gc_victims_def)
  show ?case
    using s1 s2 by (auto simp: v filter_filter intro!: filter_cong)
qed

text \<open>The entries an insertion at time \<open>now\<close> keeps.\<close>

definition kept_items :: "int \<Rightarrow> (nat \<Rightarrow> int) \<Rightarrow> lookup_state \<Rightarrow> (byte list \<times> nat) list" where
  "kept_items now rnd st =
    (if lastgc st < now - 300
     then filter (\<lambda>p. snd p \<notin> gc_victims now rnd (arena st) (enumerate 0 (cached_slots st))) (hash_items (cache st))
     else hash_items (cache st))"

lemma domain_info_cache_insert_gc:
  assumes ok: "lookup_ok [p] st"
  shows "\<exists>s1. domain_info_cache_insert m now rnd p st =
       rbind (HASH_ADD_STR m (di_domain (arena st p)) p (cache s1)) (\<lambda>c. Inr (s1\<lparr>cache := c\<rparr>))
     \<and> lookup_ok [p] s1 \<and> hash_items (cache s1) = kept_items now rnd st \<and> arena s1 = arena st
     \<and> lastgc s1 = (if lastgc st < now - 300 then now else lastgc st)"
proof (cases "lastgc st < now - 300")
  case False
  with ok show ?thesis
    by (auto simp: domain_info_cache_insert_def DOMAIN_INFO_CACHE_GCINTERVAL_def kept_items_def)
next
  case True
  let ?l = "lk_logger LOGLEVEL_DEBUG (bytes ''[gc] start'') st"
  let ?es = "enumerate 0 (cached_slots st)"
  have "lookup_ok [p] ?l" using ok by simp
  moreover have "distinct (map snd ?es)" using ok by (simp add: lookup_ok_def)
  moreover have "snd ` set ?es \<subseteq> set (cached_slots ?l)"
    by (metis cached_slots_def lookup_ok_log(2) map_snd_enumerate order_refl set_map)
  ultimately obtain s1 where s1: "rfold (gc_step now rnd) ?es ?l = Inr s1" "lookup_ok [p] s1"
    "hash_items (cache s1) = kept_items now rnd st" "arena s1 = arena st"
    using gc_loop [of "[p]" ?l ?es now rnd] True by (auto simp: kept_items_def)
  let ?msg = "bytes ''[gc] end; '' @ show_nat (unat (ucast (HASH_COUNT (cache st)) - ucast (HASH_COUNT (cache s1)) :: u64))
     @ bytes '' domains gc'' @ 39 # bytes ''d''"
  let ?s2 = "lk_logger LOGLEVEL_DEBUG ?msg (s1\<lparr>lastgc := now\<rparr>)"
  have "domain_info_cache_insert m now rnd p st =
       rbind (HASH_ADD_STR m (di_domain (arena st p)) p (cache ?s2)) (\<lambda>c. Inr (?s2\<lparr>cache := c\<rparr>))"
    using True s1
    by (simp add: domain_info_cache_insert_def DOMAIN_INFO_CACHE_GCINTERVAL_def Let_def
        HASH_ITER_items cached_slots_def [symmetric])
  with s1 True show ?thesis by (intro exI [of _ ?s2]) simp
qed

lemma kept_items_sub: "set (kept_items now rnd st) \<subseteq> set (hash_items (cache st))"
  by (auto simp: kept_items_def)

lemma domain_info_cache_insert_Inr:
  assumes ok: "lookup_ok [p] st" and ins: "domain_info_cache_insert m now rnd p st = Inr st'"
  shows "lookup_ok [] st' \<and> terminated (di_domain (arena st p)) \<and> arena st' = arena st
     \<and> hash_items (cache st') = kept_items now rnd st @ [(cstr (di_domain (arena st p)), p)]"
proof -
  from domain_info_cache_insert_gc [OF ok, of m now rnd] obtain s1 where s1:
    "domain_info_cache_insert m now rnd p st =
       rbind (HASH_ADD_STR m (di_domain (arena st p)) p (cache s1)) (\<lambda>c. Inr (s1\<lparr>cache := c\<rparr>))"
    "lookup_ok [p] s1" "hash_items (cache s1) = kept_items now rnd st" "arena s1 = arena st" by blast
  let ?k = "cstr (di_domain (arena st p))"
  from ins s1(1) obtain c where c: "HASH_ADD_STR m (di_domain (arena st p)) p (cache s1) = Inr c"
    "st' = s1\<lparr>cache := c\<rparr>" by (auto simp: result_simps)
  then have t: "terminated (di_domain (arena st p))"
    by (auto simp: HASH_ADD_STR_def c_strlen_def split: if_splits)
  with c(1) have "HASH_ADD m ?k p (cache s1) = Inr c"
    by (simp add: HASH_ADD_STR_def c_strlen_Inr take_cstr)
  moreover have "p \<notin> snd ` set (hash_items (cache s1))"
    using s1(2) by (auto simp: lookup_ok_def cached_slots_def)
  ultimately have "uthash_ok c \<and> hash_items c = hash_items (cache s1) @ [(?k, p)]"
    using ut.add_Inr s1(2) by (metis lookup_ok_def)
  moreover have "free_slots st' = free_slots s1" by (simp add: c(2) free_slots_def)
  ultimately show ?thesis using s1 c(2) t
    by (auto simp: lookup_ok_def cached_slots_def slot_ok_def)
qed

subsection \<open>Creating entries\<close>

text \<open>
  \<open>entry_added\<close>: either the arena is full and only the log grew, or one slot was taken for
  \<open>domain\<close> and the cache holds the entries the collector kept and the new one.
\<close>

definition entry_added ::
    "int \<Rightarrow> (nat \<Rightarrow> int) \<Rightarrow> byte list \<Rightarrow> int \<Rightarrow> int \<Rightarrow> int \<Rightarrow> lookup_state \<Rightarrow> lookup_state \<Rightarrow> bool" where
  "entry_added now rnd name app cat expire st st' \<longleftrightarrow>
    (if arena_index st = 65536 then cache st' = cache st \<and> arena st' = arena st
     else \<exists>p b. p \<in> set (free_slots st)
       \<and> arena st' = (arena st)(p := \<lparr>di_domain = b, di_application = app, di_category = cat, di_expire = expire\<rparr>)
       \<and> terminated b \<and> cstr b = name
       \<and> hash_items (cache st') = kept_items now rnd st @ [(name, p)])"

lemma entry_addedI:
  assumes "arena_index st < 65536" and "p \<in> set (free_slots st)" and "terminated b" and "cstr b = name"
    and "arena st' = (arena st)(p := \<lparr>di_domain = b, di_application = app, di_category = cat, di_expire = expire\<rparr>)"
    and "hash_items (cache st') = kept_items now rnd st @ [(name, p)]"
  shows "entry_added now rnd name app cat expire st st'"
proof -
  have "arena_index st \<noteq> 65536" using assms(1) by simp
  with assms(2-6) show ?thesis unfolding entry_added_def by (metis (no_types, lifting))
qed

lemma cstr_copy:
  assumes "terminated d" and "length (cstr d) \<le> n"
  shows "c_memcpy (replicate n 0) 0 d 0 (length (cstr d)) = Inr (cstr d @ replicate (n - length (cstr d)) 0)"
  using assms length_cstr_le [of d] by (subst c_memcpy_ok) (auto simp: take_cstr)

lemma domain_info_create_Some:
  assumes ok: "lookup_ok [] st" and r: "domain_info_create d app cat ex st = Inr (Some p, st')"
  shows "lookup_ok [p] st' \<and> p \<in> set (free_slots st) \<and> cache st' = cache st \<and> lastgc st' = lastgc st
    \<and> arena_index st < 65536 \<and> terminated d
    \<and> arena st' = (arena st)(p := \<lparr>di_domain = cstr d @ replicate (256 - length (cstr d)) 0,
        di_application = app, di_category = cat, di_expire = ex\<rparr>)"
proof -
  from domain_info_allocate_correct [OF ok] obtain q s1 where s1: "domain_info_allocate st = Inr (q, s1)"
    "case q of None \<Rightarrow> arena_index st = 65536 \<and> s1 = st
     | Some p \<Rightarrow> arena_index st < 65536 \<and> p \<in> set (free_slots st) \<and> lookup_ok [p] s1
         \<and> cache s1 = cache st \<and> lastgc s1 = lastgc st \<and> arena s1 = (arena st)(p := domain_info_zero)"
    by blast
  with r have q: "q = Some p" by (cases q) (auto simp: domain_info_create_def result_simps)
  from r s1 q obtain buf where buf: "c_memcpy (replicate 256 0) 0 d 0 (length (cstr d)) = Inr buf"
    "terminated d" "st' = s1\<lparr>arena := (arena s1)(p := \<lparr>di_domain = buf, di_application = app,
       di_category = cat, di_expire = ex\<rparr>)\<rparr>"
    by (auto simp: domain_info_create_def result_simps c_strlen_def domain_info_zero_def
        DOMAIN_LENGTH_def split: if_splits)
  then have "length (cstr d) \<le> 256"
    by (auto simp: c_memcpy_def result_simps mem_write_def mem_read_def split: if_splits)
  with buf have b: "buf = cstr d @ replicate (256 - length (cstr d)) 0" by (simp add: cstr_copy)
  have p: "p \<notin> set (cached_slots s1)" using s1(2) q by (auto simp: lookup_ok_def)
  from s1(2) q have "lookup_ok [p] s1" by simp
  from lookup_ok_write [OF this p] buf(3) have "lookup_ok [p] st'" by simp
  with s1 q buf(2,3) b show ?thesis by simp
qed

lemma domain_info_create_None:
  assumes ok: "lookup_ok [] st" and r: "domain_info_create d app cat ex st = Inr (None, st')"
  shows "lookup_ok [] st' \<and> cache st' = cache st \<and> arena st' = arena st \<and> arena_index st = 65536"
  using domain_info_allocate_correct [OF ok] r ok
  by (auto simp: domain_info_create_def result_simps split: option.splits prod.splits)

lemma create_and_insert_Inr:
  assumes ok: "lookup_ok [] st" and r: "create_and_insert E i d app cat ex st = Inr st'"
  shows "lookup_ok [] st' \<and> entry_added (lk_insert_now E i) (lk_rand E i) (cstr d) app cat ex st st'"
proof -
  from r obtain p s1 where s1: "domain_info_create d app cat ex st = Inr (p, s1)"
    "(case p of None \<Rightarrow> Inr s1 | Some p \<Rightarrow>
       domain_info_cache_insert (lk_malloc E) (lk_insert_now E i) (lk_rand E i) p s1) = Inr st'"
    by (auto simp: create_and_insert_def result_simps)
  show ?thesis
  proof (cases p)
    case None
    with s1 domain_info_create_None [OF ok] show ?thesis by (auto simp: entry_added_def)
  next
    case (Some q)
    with s1(1) domain_info_create_Some [OF ok] have c: "lookup_ok [q] s1" "q \<in> set (free_slots st)"
      "cache s1 = cache st" "lastgc s1 = lastgc st" "arena_index st < 65536" "terminated d"
      "arena s1 = (arena st)(q := \<lparr>di_domain = cstr d @ replicate (256 - length (cstr d)) 0,
        di_application = app, di_category = cat, di_expire = ex\<rparr>)" by blast+
    from s1(2) Some domain_info_cache_insert_Inr [OF c(1)] have i: "lookup_ok [] st'"
      "terminated (di_domain (arena s1 q))" "arena st' = arena s1"
      "hash_items (cache st') = kept_items (lk_insert_now E i) (lk_rand E i) s1 @ [(cstr (di_domain (arena s1 q)), q)]"
      by auto
    have nq: "q \<notin> set (cached_slots st)" using c(2) ok by (auto simp: lookup_ok_def)
    have "gc_victims now rnd (arena s1) (enumerate 0 (cached_slots st))
        = gc_victims now rnd (arena st) (enumerate 0 (cached_slots st))" for now rnd
    proof -
      have "snd e \<noteq> q" if "e \<in> set (enumerate 0 (cached_slots st))" for e
        using that nq by (metis image_eqI map_snd_enumerate set_map)
      then show ?thesis unfolding gc_victims_def gc_victim_def c(7) by (auto intro!: image_cong)
    qed
    then have "kept_items now rnd s1 = kept_items now rnd st" for now rnd
      using c(3,4) by (simp add: kept_items_def cached_slots_def)
    with i(4) c(7) cstr_no_zero [of d]
    have "hash_items (cache st') = kept_items (lk_insert_now E i) (lk_rand E i) st @ [(cstr d, q)]" by simp
    then have "entry_added (lk_insert_now E i) (lk_rand E i) (cstr d) app cat ex st st'"
      using i(2,3) c(2,5,7) cstr_no_zero [of d]
      by (intro entry_addedI [where p = q and b = "cstr d @ replicate (256 - length (cstr d)) 0"]) auto
    with i(1) show ?thesis by simp
  qed
qed

subsection \<open>Looking a domain up\<close>

interpretation dl: suffix_table None HASH_ADD HASH_FIND HASH_DEL hash_items uthash_ok hash_room
  "Some :: nat \<Rightarrow> nat option" None domain_info_cache_lookup
proof unfold_locales
  fix h :: "nat hash_head" and p
  show "domain_info_cache_lookup h p = rbind (c_strlen p) (\<lambda>n. rbind (HASH_FIND (take n p) h) (\<lambda>d.
      case d of Some e \<Rightarrow> Inr (Some e)
      | None \<Rightarrow> rbind (c_strchr 46 p) (\<lambda>i.
          case i of None \<Rightarrow> Inr None | Some i \<Rightarrow> domain_info_cache_lookup h (drop (Suc i) p))))"
    by (subst domain_info_cache_lookup.simps)
       (auto simp: HASH_FIND_STR_def rbind_assoc split: option.splits intro!: rbind_cong)
qed

lemma cache_lookup_None:
  assumes "uthash_ok c" and "terminated p" and "\<not> listed_in (fst ` set (hash_items c)) (cstr p)"
  shows "domain_info_cache_lookup c p = Inr None"
proof -
  have "find (\<lambda>s. s \<in> fst ` set (hash_items c)) (dot_suffixes (cstr p)) = None"
    using assms(3) unfolding listed_in_dot_suffixes find_None_iff by blast
  with dl.search_spec [OF assms(1,2)] show ?thesis by auto
qed

lemma cache_lookup_Some:
  assumes "uthash_ok c" and "terminated p" and "listed_in (fst ` set (hash_items c)) (cstr p)"
  shows "\<exists>s d. (s, d) \<in> set (hash_items c) \<and> listed_in {s} (cstr p)
     \<and> domain_info_cache_lookup c p = Inr (Some d)"
proof -
  let ?f = "find (\<lambda>s. s \<in> fst ` set (hash_items c)) (dot_suffixes (cstr p))"
  have "?f \<noteq> None" using assms(3) unfolding listed_in_dot_suffixes find_None_iff by blast
  then obtain s where s: "?f = Some s" by blast
  then have "s \<in> set (dot_suffixes (cstr p))" by (auto simp: find_Some_iff)
  then have "listed_in {s} (cstr p)" by (simp add: listed_in_dot_suffixes)
  with dl.search_spec [OF assms(1,2)] s show ?thesis by auto
qed

lemma cache_lookup_exact:
  assumes "uthash_ok c" and "terminated p" and "cstr p \<in> fst ` set (hash_items c)"
  shows "\<exists>d. (cstr p, d) \<in> set (hash_items c) \<and> domain_info_cache_lookup c p = Inr (Some d)"
proof -
  have "find (\<lambda>s. s \<in> fst ` set (hash_items c)) (dot_suffixes (cstr p)) = Some (cstr p)"
    using assms(3) by (simp add: dot_suffixes.simps [of "cstr p"])
  with dl.search_spec [OF assms(1,2)] show ?thesis by auto
qed

lemma lookup_reply_ok:
  assumes "lookup_ok [] st" and "lookup_reply J E domain obj st = Inr st'"
  shows "lookup_ok [] st'"
proof (cases "json_object_object_get J obj ''cache_domains''")
  case None
  with assms create_and_insert_Inr show ?thesis by (auto simp: lookup_reply_def Let_def)
next
  case (Some arr)
  let ?f = "cache_domain_step J E arr (reply_application J obj) (reply_category J obj)
     (to_s64 (lk_now E + reply_ttl J obj))"
  from assms(2) Some have "rfold ?f [0..<nat (int_of_size (json_object_array_length J arr))] st = Inr st'"
    by (simp add: lookup_reply_def Let_def)
  then show ?thesis
  proof (rule rfold_invariant [where I = "lookup_ok []"])
    show "lookup_ok [] st" by (rule assms(1))
  next
    fix x s s' assume "lookup_ok [] s" and "?f x s = Inr s'"
    then show "lookup_ok [] s'"
      by (auto simp: cache_domain_step_def split: option.splits dest: create_and_insert_Inr)
  qed
qed

lemma lookup_answer_ok:
  assumes "lookup_ok [] st" and "lookup_answer J E domain name ok obj st = Inr st'"
  shows "lookup_ok [] st'"
proof (cases "if ok then obj else None")
  case None
  have "lookup_ok [] (lk_logger LOGLEVEL_ERROR (bytes ''curl lookup failed: '' @ name) st)"
    using assms(1) by simp
  with None assms(2) create_and_insert_Inr show ?thesis by (fastforce simp: lookup_answer_def)
next
  case (Some obj)
  with assms lookup_reply_ok show ?thesis by (auto simp: lookup_answer_def)
qed

lemma lookup_miss_ok:
  assumes "lookup_ok [] st" and "lookup_miss J E cfg domain st = Inr st'"
  shows "lookup_ok [] st'"
  using assms by (auto simp: lookup_miss_def result_simps split: prod.splits dest: lookup_answer_ok)

lemma domain_lookup_ok:
  assumes ok: "lookup_ok [] st" and r: "domain_lookup J E cfg domain resp st = Inr (resp', st')"
  shows "lookup_ok [] st'"
proof -
  have u: "uthash_ok (cache st)" using ok by (simp add: lookup_ok_def)
  from r obtain d where d: "domain_info_cache_lookup (cache st) domain = Inr d"
    by (auto simp: domain_lookup_def result_simps)
  have t: "terminated domain" using d dl.search_unterminated by fastforce
  show ?thesis
  proof (cases d)
    case None
    with r d ok show ?thesis by (auto simp: domain_lookup_def result_simps dest: lookup_miss_ok)
  next
    case (Some p)
    with d cache_lookup_None [OF u t] have "listed_in (fst ` set (hash_items (cache st))) (cstr domain)" by auto
    from cache_lookup_Some [OF u t this] d Some have p: "p \<in> set (cached_slots st)"
      by (force simp: cached_slots_def)
    from delete_and_free [OF ok p] obtain s1 where
      "rbind (domain_info_cache_delete p st) (domain_info_free p) = Inr s1" "lookup_ok [] s1" by blast
    with r d Some ok show ?thesis
      by (auto simp: domain_lookup_def result_simps split: if_splits dest: lookup_miss_ok)
  qed
qed

subsection \<open>Assertions\<close>

lemma c_string_no_assert [simp]: "c_strlen p \<noteq> Inl AssertFail" "c_str p \<noteq> Inl AssertFail"
  by (simp_all add: c_strlen_def c_str_def)

lemma domain_info_create_no_assert:
  assumes "lookup_ok [] st"
  shows "domain_info_create d app cat ex st \<noteq> Inl AssertFail"
  using domain_info_allocate_correct [OF assms]
  by (auto simp: domain_info_create_def result_simps c_memcpy_def mem_read_def mem_write_def split: option.splits if_splits)

lemma create_and_insert_no_assert:
  assumes "lookup_ok [] st"
  shows "create_and_insert E i d app cat ex st \<noteq> Inl AssertFail"
proof (cases "domain_info_create d app cat ex st")
  case (Inl e)
  with domain_info_create_no_assert [OF assms] show ?thesis by (auto simp: create_and_insert_def)
next
  case (Inr r)
  obtain q s1 where r: "r = (q, s1)" by (cases r)
  show ?thesis
  proof (cases q)
    case None
    with Inr r show ?thesis by (simp add: create_and_insert_def)
  next
    case (Some p)
    with domain_info_create_Some [OF assms] Inr r have "lookup_ok [p] s1" by blast
    from domain_info_cache_insert_gc [OF this, of "lk_malloc E" "lk_insert_now E i" "lk_rand E i"] obtain s2 where
      "domain_info_cache_insert (lk_malloc E) (lk_insert_now E i) (lk_rand E i) p s1 =
        rbind (HASH_ADD_STR (lk_malloc E) (di_domain (arena s1 p)) p (cache s2)) (\<lambda>c. Inr (s2\<lparr>cache := c\<rparr>))" by blast
    moreover have "HASH_ADD_STR m d p c \<noteq> Inl AssertFail" for m d and c :: "nat hash_head"
      by (simp add: HASH_ADD_STR_def result_simps HASH_ADD_no_assert)
    ultimately show ?thesis using Some Inr r by (simp add: create_and_insert_def rbind_Inl_iff)
  qed
qed

lemma lookup_reply_no_assert:
  assumes "lookup_ok [] st"
  shows "lookup_reply J E domain obj st \<noteq> Inl AssertFail"
proof (cases "json_object_object_get J obj ''cache_domains''")
  case None
  with create_and_insert_no_assert [OF assms] show ?thesis by (simp add: lookup_reply_def Let_def)
next
  case (Some arr)
  have "rfold (cache_domain_step J E arr app cat ex) xs st \<noteq> Inl AssertFail" for app cat ex xs
    by (rule rfold_avoids [where I = "lookup_ok []"])
       (auto simp: assms cache_domain_step_def create_and_insert_no_assert split: option.splits dest: create_and_insert_Inr)
  with Some show ?thesis by (simp add: lookup_reply_def Let_def)
qed

lemma lookup_miss_no_assert:
  assumes "lookup_ok [] st"
  shows "lookup_miss J E cfg domain st \<noteq> Inl AssertFail"
proof -
  have "lookup_answer J E domain name ok obj st \<noteq> Inl AssertFail" for name ok obj
    using assms by (auto simp: lookup_answer_def create_and_insert_no_assert lookup_reply_no_assert split: option.splits)
  then show ?thesis
    by (auto simp: lookup_miss_def domain_lookup_curl_def result_simps Let_def split: prod.splits)
qed

text \<open>The assertions of \<open>domain_info_allocate\<close> and \<open>domain_info_deallocate\<close> hold whenever a lookup reaches them.\<close>

lemma domain_lookup_no_assert:
  assumes ok: "lookup_ok [] st"
  shows "domain_lookup J E cfg domain resp st \<noteq> Inl AssertFail"
proof (cases "terminated domain")
  case False
  with dl.search_unterminated show ?thesis by (simp add: domain_lookup_def)
next
  case True
  have u: "uthash_ok (cache st)" using ok by (simp add: lookup_ok_def)
  show ?thesis
  proof (cases "listed_in (fst ` set (hash_items (cache st))) (cstr domain)")
    case False
    from lookup_miss_no_assert [OF ok] cache_lookup_None [OF u True False] show ?thesis
      by (auto simp: domain_lookup_def result_simps)
  next
    case listed: True
    from cache_lookup_Some [OF u True listed] obtain p where
      p: "domain_info_cache_lookup (cache st) domain = Inr (Some p)" "p \<in> set (cached_slots st)" by (force simp: cached_slots_def)
    from delete_and_free [OF ok p(2)] obtain s1 where
      s1: "rbind (domain_info_cache_delete p st) (domain_info_free p) = Inr s1" "lookup_ok [] s1" by blast
    from p(1) s1(1) show ?thesis by (auto simp: domain_lookup_def result_simps lookup_miss_no_assert [OF s1(2)])
  qed
qed

subsection \<open>After a miss\<close>

text \<open>An insertion after which only the new entry is cached does not fail.\<close>

lemma domain_info_cache_insert_total:
  assumes ok: "lookup_ok [p] st" and t: "terminated (di_domain (arena st p))" and k: "kept_items now rnd st = []"
  shows "\<exists>st'. domain_info_cache_insert True now rnd p st = Inr st'"
proof -
  from domain_info_cache_insert_gc [OF ok, of True now rnd] k obtain s1 where
    s1: "domain_info_cache_insert True now rnd p st =
      rbind (HASH_ADD_STR True (di_domain (arena st p)) p (cache s1)) (\<lambda>c. Inr (s1\<lparr>cache := c\<rparr>))"
    "lookup_ok [p] s1" "hash_items (cache s1) = []" by auto
  then have "cache s1 = None" by (cases "cache s1") (auto simp: lookup_ok_def uthash_ok_def hash_items_def)
  moreover have "\<exists>h. HASH_ADD_STR True (di_domain (arena st p)) p None = Inr h"
    using ut.add_total [of None _ p] t
    by (simp add: HASH_ADD_STR_def c_strlen_def uthash_ok_def hash_room_def)
  ultimately show ?thesis using s1(1) by auto
qed

text \<open>A name that fits its buffer gets a slot while there is one.\<close>

lemma domain_info_create_total:
  assumes ok: "lookup_ok [] st" and d: "terminated d" "length (cstr d) < 256" and full: "arena_index st < 65536"
  shows "\<exists>p st'. domain_info_create d app cat ex st = Inr (Some p, st')"
proof -
  from domain_info_allocate_correct [OF ok] full obtain p s1 where "domain_info_allocate st = Inr (Some p, s1)"
    "arena s1 = (arena st)(p := domain_info_zero)" by (fastforce split: option.splits)
  then show ?thesis using d cstr_copy [OF d(1), of 256]
    by (simp add: domain_info_create_def c_strlen_Inr domain_info_zero_def DOMAIN_LENGTH_def)
qed

lemma create_and_insert_total:
  assumes ok: "lookup_ok [] st" and d: "terminated d" "length (cstr d) < 256"
    and m: "lk_malloc E" and e: "hash_items (cache st) = []"
  shows "\<exists>st'. create_and_insert E i d app cat ex st = Inr st'"
proof -
  have "arena_index st < 65536" using lookup_ok_index [OF ok] e by simp
  from domain_info_create_total [OF ok d this] obtain p s1 where
    s1: "domain_info_create d app cat ex st = Inr (Some p, s1)" by blast
  from domain_info_create_Some [OF ok this] have c: "lookup_ok [p] s1" "cache s1 = cache st"
    "terminated (di_domain (arena s1 p))" using d(2) cstr_no_zero [of d] by (simp_all add: terminated_append_zeros)
  have "kept_items (lk_insert_now E i) (lk_rand E i) s1 = []" using c(2) e by (simp add: kept_items_def)
  from domain_info_cache_insert_total [OF c(1,3) this] s1 m show ?thesis by (simp add: create_and_insert_def)
qed

text \<open>What was cached for a name nothing was cached for answers the next lookup of the name.\<close>

lemma entry_added_answers:
  assumes ok: "lookup_ok [] st'" and a: "entry_added now rnd name app cat ex st st'"
    and full: "arena_index st < 65536" and n: "\<not> listed_in (fst ` set (hash_items (cache st))) name"
    and d: "terminated d" "cstr d = name" and t: "lk_now E < ex"
  shows "domain_lookup J E cfg d resp st' = Inr (\<lparr>rs_category = cat, rs_application = app\<rparr>, st')"
proof -
  from a full obtain p b where p:
    "arena st' = (arena st)(p := \<lparr>di_domain = b, di_application = app, di_category = cat, di_expire = ex\<rparr>)"
    "hash_items (cache st') = kept_items now rnd st @ [(name, p)]" by (auto simp: entry_added_def)
  have u: "uthash_ok (cache st')" using ok by (simp add: lookup_ok_def)
  from cache_lookup_exact [OF u d(1)] d(2) p(2) obtain q where
    q: "(name, q) \<in> set (hash_items (cache st'))" "domain_info_cache_lookup (cache st') d = Inr (Some q)" by auto
  have "name \<notin> fst ` set (kept_items now rnd st)"
    using n kept_items_sub [of now rnd st] by (auto simp: listed_in_def)
  with q(1) p(2) have "q = p" by force
  with q p t show ?thesis by (simp add: domain_lookup_def)
qed

lemma domain_lookup_miss:
  assumes ok: "lookup_ok [] st" and d: "terminated d"
    and n: "\<not> listed_in (fst ` set (hash_items (cache st))) (cstr d)"
  shows "domain_lookup J E cfg d resp st = rbind (lookup_miss J E cfg d st) (\<lambda>st. Inr (resp, st))"
  using ok cache_lookup_None [OF _ d n] by (simp add: domain_lookup_def lookup_ok_def)

text \<open>The result of the transfer for a name.\<close>

definition query_result :: "('j, 't) json_c \<Rightarrow> lookup_env \<Rightarrow> config \<Rightarrow> byte list \<Rightarrow> 'j option" where
  "query_result J E cfg name =
    (let (ok, chunks) = lk_curl E (domain_lookup_opts (cstr (serveraddr cfg))
           (lk_to_string E (domain_request_to_json_object name)))
     in if ok then snd (fold (curl_write_cb J) chunks (json_tokener_new J, None)) else None)"

lemma lookup_miss_eq:
  assumes "terminated d" and "terminated (serveraddr cfg)"
  shows "lookup_miss J E cfg d st = (case query_result J E cfg (cstr d) of
      None \<Rightarrow> create_and_insert E 0 d 0 0 (to_s64 (lk_now E + 60))
                (lk_logger LOGLEVEL_ERROR (bytes ''curl lookup failed: '' @ cstr d) st)
    | Some obj \<Rightarrow> lookup_reply J E d obj st)"
  using assms
  by (auto simp: lookup_miss_def domain_lookup_curl_def config_get_serveraddr_def c_str_Inr query_result_def
      lookup_answer_def DOMAIN_INFO_CACHE_DEFAULT_APPLICATION_def DOMAIN_INFO_CACHE_DEFAULT_CATEGORY_def
      DOMAIN_INFO_CACHE_DEFAULT_TTL_def Let_def split: prod.splits option.splits)

subsection \<open>After a reply\<close>

text \<open>
  The names a reply caches, each with the index of its insertion: those of its list \<open>cache_domains\<close>, or the name
  that was asked for when it has none.
\<close>

definition reply_entries :: "('j, 't) json_c \<Rightarrow> byte list \<Rightarrow> 'j \<Rightarrow> (nat \<times> byte list) list" where
  "reply_entries J domain obj =
    (case json_object_object_get J obj ''cache_domains'' of
       None \<Rightarrow> [(0, domain)]
     | Some arr \<Rightarrow> List.map_filter (\<lambda>i. case json_object_array_get_idx J arr i of None \<Rightarrow> None
           | Some j \<Rightarrow> map_option (\<lambda>s. (i, cmem s)) (json_object_get_string J (Some j)))
         [0..<nat (int_of_size (json_object_array_length J arr))])"

lemma lookup_reply_entries:
  "lookup_reply J E domain obj st = rfold (\<lambda>(i, d). create_and_insert E i d (reply_application J obj) (reply_category J obj)
     (to_s64 (lk_now E + reply_ttl J obj))) (reply_entries J domain obj) st"
proof (cases "json_object_object_get J obj ''cache_domains''")
  case None
  then show ?thesis
    by (cases "create_and_insert E 0 domain (reply_application J obj) (reply_category J obj) (to_s64 (lk_now E + reply_ttl J obj)) st")
       (simp_all add: lookup_reply_def reply_entries_def Let_def)
next
  case (Some arr)
  then show ?thesis unfolding lookup_reply_def reply_entries_def Let_def
    by (simp del: upt.simps) (rule rfold_map_filter, simp add: cache_domain_step_def split: option.splits)
qed

text \<open>All entries that answer \<open>name\<close> carry the same data; and there is one.\<close>

definition answers_alike :: "byte list \<Rightarrow> int \<Rightarrow> int \<Rightarrow> int \<Rightarrow> lookup_state \<Rightarrow> bool" where
  "answers_alike name app cat ex st \<longleftrightarrow> (\<forall>(k, e) \<in> set (hash_items (cache st)). listed_in {k} name \<longrightarrow>
     di_application (arena st e) = app \<and> di_category (arena st e) = cat \<and> di_expire (arena st e) = ex)"

definition cached_for :: "byte list \<Rightarrow> lookup_state \<Rightarrow> bool" where
  "cached_for name st \<longleftrightarrow> listed_in (fst ` set (hash_items (cache st))) name"

lemma listed_in_each: "listed_in S s \<longleftrightarrow> (\<exists>x \<in> S. listed_in {x} s)"
  by (auto simp: listed_in_def)

lemma cached_for_iff: "cached_for name st \<longleftrightarrow> (\<exists>(k, e) \<in> set (hash_items (cache st)). listed_in {k} name)"
  unfolding cached_for_def by (subst listed_in_each) force

text \<open>The insertion number \<open>i\<close> collects no entry that expires at \<open>ex\<close>.\<close>

definition collects_none :: "lookup_env \<Rightarrow> int \<Rightarrow> nat \<Rightarrow> bool" where
  "collects_none E ex i \<longleftrightarrow> lk_insert_now E i \<le> ex \<and> (\<forall>k. 0 < lk_rand E i k)"

lemma create_and_insert_answers:
  assumes ok: "lookup_ok [] st" and a: "answers_alike name app cat ex st" and r: "create_and_insert E i d app cat ex st = Inr st'"
  shows "lookup_ok [] st'" and "answers_alike name app cat ex st'" and "arena_index st' \<le> arena_index st + 1"
    and "arena_index st < 65536 \<Longrightarrow> listed_in {cstr d} name \<Longrightarrow> cached_for name st'"
    and "cached_for name st \<Longrightarrow> collects_none E ex i \<Longrightarrow> cached_for name st'"
proof -
  let ?now = "lk_insert_now E i" and ?rnd = "lk_rand E i"
  from create_and_insert_Inr [OF ok r] have ok': "lookup_ok [] st'" and e: "entry_added ?now ?rnd (cstr d) app cat ex st st'" by auto
  show "lookup_ok [] st'" by (rule ok')
  have "answers_alike name app cat ex st' \<and> arena_index st' \<le> arena_index st + 1
    \<and> (arena_index st < 65536 \<longrightarrow> listed_in {cstr d} name \<longrightarrow> cached_for name st')
    \<and> (cached_for name st \<longrightarrow> collects_none E ex i \<longrightarrow> cached_for name st')"
  proof (cases "arena_index st = 65536")
    case True
    with e have c: "cache st' = cache st" "arena st' = arena st" by (simp_all add: entry_added_def)
    then show ?thesis using a True lookup_ok_index [OF ok'] lookup_ok_index [OF ok]
      by (simp add: answers_alike_def cached_for_def)
  next
    case False
    with e obtain p b where p: "p \<in> set (free_slots st)"
      "arena st' = (arena st)(p := \<lparr>di_domain = b, di_application = app, di_category = cat, di_expire = ex\<rparr>)"
      "hash_items (cache st') = kept_items ?now ?rnd st @ [(cstr d, p)]" by (auto simp: entry_added_def)
    have np: "q \<noteq> p" if "(k, q) \<in> set (hash_items (cache st))" for k q
      using that p(1) ok by (force simp: lookup_ok_def cached_slots_def)
    have "answers_alike name app cat ex st'" unfolding answers_alike_def
    proof (clarify)
      fix k q assume q: "(k, q) \<in> set (hash_items (cache st'))" "listed_in {k} name"
      show "di_application (arena st' q) = app \<and> di_category (arena st' q) = cat \<and> di_expire (arena st' q) = ex"
      proof (cases "q = p")
        case True
        then show ?thesis by (simp add: p(2))
      next
        case False
        then have "(k, q) \<in> set (hash_items (cache st))" using q(1) kept_items_sub [of ?now ?rnd st] by (auto simp: p(3))
        with a q(2) False show ?thesis by (auto simp: answers_alike_def p(2))
      qed
    qed
    moreover have "length (kept_items ?now ?rnd st) \<le> length (hash_items (cache st))" by (simp add: kept_items_def)
    then have "arena_index st' \<le> arena_index st + 1"
      using lookup_ok_index [OF ok'] lookup_ok_index [OF ok] p(3) by simp
    moreover have "listed_in {cstr d} name \<longrightarrow> cached_for name st'" using p(3) by (auto simp: cached_for_iff)
    moreover have "cached_for name st'" if c: "cached_for name st" and n: "collects_none E ex i"
    proof -
      from c obtain k q where q: "(k, q) \<in> set (hash_items (cache st))" "listed_in {k} name" by (auto simp: cached_for_iff)
      with a have x: "di_expire (arena st q) = ex" by (auto simp: answers_alike_def)
      have "\<not> gc_victim ?now ?rnd (arena st) (j, q)" for j
      proof -
        have "0 < ?rnd j" "?now \<le> ex" using n by (simp_all add: collects_none_def)
        then show ?thesis by (simp add: gc_victim_def x)
      qed
      then have "q \<notin> gc_victims ?now ?rnd (arena st) es" for es by (force simp: gc_victims_def)
      then have "(k, q) \<in> set (kept_items ?now ?rnd st)" using q(1) by (simp add: kept_items_def)
      with p(3) q(2) show ?thesis by (auto simp: cached_for_iff)
    qed
    ultimately show ?thesis by blast
  qed
  then show "answers_alike name app cat ex st'" "arena_index st' \<le> arena_index st + 1"
    "arena_index st < 65536 \<Longrightarrow> listed_in {cstr d} name \<Longrightarrow> cached_for name st'"
    "cached_for name st \<Longrightarrow> collects_none E ex i \<Longrightarrow> cached_for name st'" by simp_all
qed

lemma reply_fold:
  assumes "lookup_ok [] st" and "answers_alike name app cat ex st"
    and "rfold (\<lambda>(i, d). create_and_insert E i d app cat ex) es st = Inr st'"
    and "cached_for name st \<or> (\<exists>x \<in> set es. listed_in {cstr (snd x)} name)" and "arena_index st + int (length es) \<le> 65536"
    and "\<And>x. x \<in> set (if cached_for name st then es else tl es) \<Longrightarrow> collects_none E ex (fst x)"
  shows "lookup_ok [] st' \<and> answers_alike name app cat ex st' \<and> cached_for name st'"
  using assms
proof (induction es arbitrary: st)
  case Nil
  then show ?case by simp
next
  case (Cons x es)
  obtain i d where x: "x = (i, d)" by (cases x)
  from Cons.prems(3) x obtain s1 where s1: "create_and_insert E i d app cat ex st = Inr s1"
    "rfold (\<lambda>(i, d). create_and_insert E i d app cat ex) es s1 = Inr st'" by (auto simp: result_simps)
  note c = create_and_insert_answers [OF Cons.prems(1,2) s1(1)]
  have "collects_none E ex (fst y)" if "y \<in> set es" for y using Cons.prems(6) [of y] that by (auto split: if_splits)
  then have safe: "collects_none E ex (fst y)" if "y \<in> set (if cached_for name s1 then es else tl es)" for y
    using that by (cases es) (auto split: if_splits)
  have "collects_none E ex i" if "cached_for name st" using Cons.prems(6) [of x] that x by simp
  then have "cached_for name s1 \<or> (\<exists>x \<in> set es. listed_in {cstr (snd x)} name)"
    using Cons.prems(4,5) c(4,5) x by auto
  moreover have "arena_index s1 + int (length es) \<le> 65536" using Cons.prems(5) c(3) by simp
  ultimately show ?case by (rule Cons.IH [OF c(1,2) s1(2) _ _ safe])
qed

text \<open>Entries that agree, of which there is one, answer a lookup until they expire.\<close>

lemma cached_answers:
  assumes ok: "lookup_ok [] st" and a: "answers_alike name app cat ex st" and c: "cached_for name st"
    and d: "terminated d" "cstr d = name" and t: "lk_now E < ex"
  shows "domain_lookup J E cfg d resp st = Inr (\<lparr>rs_category = cat, rs_application = app\<rparr>, st)"
proof -
  have u: "uthash_ok (cache st)" using ok by (simp add: lookup_ok_def)
  from c d(2) have "listed_in (fst ` set (hash_items (cache st))) (cstr d)" by (simp add: cached_for_def)
  from cache_lookup_Some [OF u d(1) this] obtain k e where e: "(k, e) \<in> set (hash_items (cache st))" "listed_in {k} (cstr d)"
    "domain_info_cache_lookup (cache st) d = Inr (Some e)" by blast
  with a d(2) have "di_application (arena st e) = app" "di_category (arena st e) = cat" "di_expire (arena st e) = ex"
    by (auto simp: answers_alike_def)
  with e(3) t show ?thesis by (simp add: domain_lookup_def)
qed

lemma reply_answers:
  assumes ok: "lookup_ok [] st" and d: "terminated domain" "terminated (serveraddr cfg)"
    and n: "\<not> listed_in (fst ` set (hash_items (cache st))) (cstr domain)"
    and q: "query_result J E cfg (cstr domain) = Some obj"
    and es: "\<exists>x \<in> set (reply_entries J domain obj). listed_in {cstr (snd x)} (cstr domain)"
    and full: "arena_index st + int (length (reply_entries J domain obj)) \<le> 65536"
    and safe: "\<And>x. x \<in> set (tl (reply_entries J domain obj)) \<Longrightarrow> collects_none E (to_s64 (lk_now E + reply_ttl J obj)) (fst x)"
    and r: "domain_lookup J E cfg domain resp st = Inr (resp', st')"
    and d': "terminated d'" "cstr d' = cstr domain" and t: "lk_now E' < to_s64 (lk_now E + reply_ttl J obj)"
  shows "domain_lookup J E' cfg d' resp2 st' =
    Inr (\<lparr>rs_category = reply_category J obj, rs_application = reply_application J obj\<rparr>, st')"
proof -
  let ?app = "reply_application J obj" and ?cat = "reply_category J obj" and ?ex = "to_s64 (lk_now E + reply_ttl J obj)"
  have run: "rfold (\<lambda>(i, d). create_and_insert E i d ?app ?cat ?ex) (reply_entries J domain obj) st = Inr st'"
    using r unfolding domain_lookup_miss [OF ok d(1) n] lookup_miss_eq [OF d] by (auto simp: q lookup_reply_entries result_simps)
  have nc: "\<not> cached_for (cstr domain) st" using n by (simp add: cached_for_def)
  then have "answers_alike (cstr domain) ?app ?cat ?ex st" by (auto simp: answers_alike_def cached_for_iff)
  from reply_fold [OF ok this run _ full] es safe nc have
    "lookup_ok [] st' \<and> answers_alike (cstr domain) ?app ?cat ?ex st' \<and> cached_for (cstr domain) st'" by auto
  then show ?thesis using cached_answers [OF _ _ _ d' t] by blast
qed

lemma reply_entries_None:
  "json_object_object_get J obj ''cache_domains'' = None \<Longrightarrow> reply_entries J domain obj = [(0, domain)]"
  by (simp add: reply_entries_def)

lemma listed_in_self [simp]: "listed_in {s} s"
  by (simp add: listed_in_def)

text \<open>A lookup in an empty cache does not fail when the reply lists no domains.\<close>

lemma first_lookup_total:
  assumes ok: "lookup_ok [] st" and d: "terminated d" "length (cstr d) < 256" and a: "terminated (serveraddr cfg)"
    and e: "hash_items (cache st) = []" and m: "lk_malloc E"
    and c: "\<And>obj. query_result J E cfg (cstr d) = Some obj \<Longrightarrow> json_object_object_get J obj ''cache_domains'' = None"
  shows "\<exists>st'. domain_lookup J E cfg d resp st = Inr (resp, st')"
proof -
  have n: "\<not> listed_in (fst ` set (hash_items (cache st))) (cstr d)" by (simp add: e listed_in_def)
  have "\<exists>st'. lookup_miss J E cfg d st = Inr st'"
  proof (cases "query_result J E cfg (cstr d)")
    case None
    let ?s = "lk_logger LOGLEVEL_ERROR (bytes ''curl lookup failed: '' @ cstr d) st"
    have "lookup_ok [] ?s" "hash_items (cache ?s) = []" using ok e by simp_all
    from create_and_insert_total [OF this(1) d m this(2)] None show ?thesis by (simp add: lookup_miss_eq [OF d(1) a])
  next
    case (Some obj)
    with create_and_insert_total [OF ok d m e] c [OF Some] show ?thesis
      by (simp add: lookup_miss_eq [OF d(1) a] lookup_reply_def Let_def)
  qed
  then show ?thesis unfolding domain_lookup_miss [OF ok d(1) n] by auto
qed

lemma entry_added_log:
  "entry_added now rnd name app cat ex (lk_logger l m st) st' = entry_added now rnd name app cat ex st st'"
  by (simp add: entry_added_def kept_items_def cached_slots_def free_slots_def)

subsection \<open>Properties\<close>

text \<open>
  C10: No lookup leaks or double-books an arena slot: whatever the server, the clock and \<open>rand\<close>
  answer, a lookup that starts with every slot either free or in the cache runs into no failed assertion about the
  arena index; when it completes (it does not when a name overruns its buffer or memory is exhausted), every slot
  is again either free or in the cache and not both, and the index equals the number of cached entries.
\<close>

theorem lookup_arena_safe:
  assumes "lookup_ok [] st"
  shows "domain_lookup J E cfg domain resp st \<noteq> Inl AssertFail
    \<and> (\<forall>resp' st'. domain_lookup J E cfg domain resp st = Inr (resp', st') \<longrightarrow>
         lookup_ok [] st' \<and> distinct (cached_slots st' @ free_slots st')
         \<and> set (cached_slots st' @ free_slots st') = {0..<65536}
         \<and> arena_index st' = int (length (hash_items (cache st'))))"
proof (intro conjI allI impI)
  show "domain_lookup J E cfg domain resp st \<noteq> Inl AssertFail" by (rule domain_lookup_no_assert [OF assms])
next
  fix resp' st'
  assume "domain_lookup J E cfg domain resp st = Inr (resp', st')"
  then have ok: "lookup_ok [] st'" by (rule domain_lookup_ok [OF assms])
  then show "lookup_ok [] st'" "distinct (cached_slots st' @ free_slots st')"
    "set (cached_slots st' @ free_slots st') = {0..<65536}" by (simp_all add: lookup_ok_def)
  from lookup_ok_index [OF ok] show "arena_index st' = int (length (hash_items (cache st')))" by simp
qed

text \<open>A world whose server cannot be reached, and one that answers with a document.\<close>

definition sample_env :: "int \<Rightarrow> bool \<Rightarrow> lookup_env" where
  "sample_env now ok = \<lparr>lk_now = now, lk_insert_now = (\<lambda>_. now), lk_rand = (\<lambda>_ _. 1), lk_malloc = True,
     lk_curl = (\<lambda>_. (ok, [[]])), lk_to_string = (\<lambda>_. [])\<rparr>"

definition sample_reply :: json_val where
  "sample_reply = VObj [(''category'', VInt 7), (''application'', VInt 3), (''ttl'', VInt 600)]"

definition sample_domain :: "byte list" where
  "sample_domain = cmem (bytes ''a.com'')"

lemma sample_domain_ok: "terminated sample_domain" "length (cstr sample_domain) < 256"
  by (simp_all add: sample_domain_def cmem_def bytes_def cstr_def terminated_def)

lemma config_init_serveraddr: "terminated (serveraddr config_init)"
  by (simp add: config_init_def terminated_def SERVERADDR_LENGTH_def)

lemma init_not_listed: "\<not> listed_in (fst ` set (hash_items (cache domain_info_arena_init))) s"
  by (simp add: listed_in_def domain_info_arena_init_def hash_items_def)

lemma sample_query: "query_result (json_instance (Some sample_reply)) (sample_env t ok) config_init s
   = (if ok then Some sample_reply else None)"
  by (simp add: query_result_def sample_env_def curl_write_cb_def json_instance_def)

lemma sample_reply_fields:
  "reply_category (json_instance r) sample_reply = 7" "reply_application (json_instance r) sample_reply = 3"
  "reply_ttl (json_instance r) sample_reply = 600"
  "json_object_object_get (json_instance r) sample_reply ''cache_domains'' = None"
  by (simp_all add: reply_category_def reply_application_def reply_ttl_def json_instance_def sample_reply_def)

lemma sample_lookup: "\<exists>st. domain_lookup (json_instance (Some sample_reply)) (sample_env t ok) config_init
   sample_domain resp domain_info_arena_init = Inr (resp, st)"
  by (rule first_lookup_total [OF lookup_ok_init sample_domain_ok config_init_serveraddr])
     (auto simp: domain_info_arena_init_def hash_items_def sample_query sample_reply_fields split: if_splits,
      simp add: sample_env_def)

text \<open>The state after the server was asked once.\<close>

lemma sample_cached: "\<exists>st p. domain_lookup (json_instance (Some sample_reply)) (sample_env t True) config_init
   sample_domain resp domain_info_arena_init = Inr (resp, st)
   \<and> lookup_ok [] st \<and> hash_items (cache st) = [(cstr sample_domain, p)]
   \<and> di_expire (arena st p) = to_s64 (t + 600) \<and> di_category (arena st p) = 7 \<and> di_application (arena st p) = 3"
proof -
  let ?J = "json_instance (Some sample_reply)" and ?E = "sample_env t True" and ?s = domain_info_arena_init
  obtain st where st: "domain_lookup ?J ?E config_init sample_domain resp ?s = Inr (resp, st)"
    using sample_lookup by blast
  then have "create_and_insert ?E 0 sample_domain 3 7 (to_s64 (lk_now ?E + 600)) ?s = Inr st"
    unfolding domain_lookup_miss [OF lookup_ok_init sample_domain_ok(1) init_not_listed]
      lookup_miss_eq [OF sample_domain_ok(1) config_init_serveraddr]
    by (auto simp: sample_query lookup_reply_def sample_reply_fields result_simps)
  from create_and_insert_Inr [OF lookup_ok_init this] st show ?thesis
    by (auto simp: entry_added_def domain_info_arena_init_def kept_items_def hash_items_def sample_env_def)
qed

theorem lookup_arena_safe_witness:
  "\<exists>st. domain_lookup (json_instance (Some sample_reply)) (sample_env 0 True) config_init sample_domain
      \<lparr>rs_category = 0, rs_application = 0\<rparr> domain_info_arena_init = Inr (\<lparr>rs_category = 0, rs_application = 0\<rparr>, st)
    \<and> lookup_ok [] st \<and> arena_index st = int (length (hash_items (cache st)))"
  using sample_lookup [of 0 True "\<lparr>rs_category = 0, rs_application = 0\<rparr>"] lookup_arena_safe [OF lookup_ok_init] by blast

text \<open>
  A name that is cached, itself or by a parent domain, is answered from one of those entries
  as long as the entry has not expired: the response is the entry's category and application, no
  request is sent and no state changes.
\<close>

theorem lookup_hit:
  assumes ok: "lookup_ok [] st" and d: "terminated domain"
    and l: "listed_in (fst ` set (hash_items (cache st))) (cstr domain)"
  shows "\<exists>s e. (s, e) \<in> set (hash_items (cache st)) \<and> listed_in {s} (cstr domain)
    \<and> (lk_now E < di_expire (arena st e) \<longrightarrow> domain_lookup J E cfg domain resp st =
        Inr (\<lparr>rs_category = di_category (arena st e), rs_application = di_application (arena st e)\<rparr>, st))"
proof -
  have u: "uthash_ok (cache st)" using ok by (simp add: lookup_ok_def)
  from cache_lookup_Some [OF u d l] obtain s e where e: "(s, e) \<in> set (hash_items (cache st))"
    "listed_in {s} (cstr domain)" "domain_info_cache_lookup (cache st) domain = Inr (Some e)" by blast
  then have "lk_now E < di_expire (arena st e) \<longrightarrow> domain_lookup J E cfg domain resp st =
        Inr (\<lparr>rs_category = di_category (arena st e), rs_application = di_application (arena st e)\<rparr>, st)"
    by (simp add: domain_lookup_def)
  with e show ?thesis by blast
qed

theorem lookup_hit_witness:
  "\<exists>st. domain_lookup (json_instance (Some sample_reply)) (sample_env 1000 True) config_init sample_domain
        \<lparr>rs_category = 0, rs_application = 0\<rparr> domain_info_arena_init = Inr (\<lparr>rs_category = 0, rs_application = 0\<rparr>, st)
    \<and> domain_lookup (json_instance None) (sample_env 1001 True) config_init (cmem (bytes ''b.a.com''))
        \<lparr>rs_category = 0, rs_application = 0\<rparr> st = Inr (\<lparr>rs_category = 7, rs_application = 3\<rparr>, st)"
proof -
  let ?r = "\<lparr>rs_category = 0, rs_application = 0\<rparr> :: domain_response" and ?d = "cmem (bytes ''b.a.com'')"
  from sample_cached [of 1000 ?r] obtain st p where st: "domain_lookup (json_instance (Some sample_reply))
      (sample_env 1000 True) config_init sample_domain ?r domain_info_arena_init = Inr (?r, st)"
    "lookup_ok [] st" "hash_items (cache st) = [(cstr sample_domain, p)]"
    "di_expire (arena st p) = to_s64 1600" "di_category (arena st p) = 7" "di_application (arena st p) = 3"
    by auto
  have "cstr sample_domain = bytes ''a.com''" "cstr ?d = bytes ''b.a.com''"
    by (simp_all add: sample_domain_def cmem_def bytes_def cstr_def)
  moreover have "listed_in {bytes ''a.com''} (bytes ''b.a.com'')"
    unfolding listed_in_dot_suffixes by code_simp
  ultimately have "listed_in (fst ` set (hash_items (cache st))) (cstr ?d)" using st(3) by simp
  from lookup_hit [OF st(2) _ this, of "sample_env 1001 True" "json_instance None" config_init ?r] st
  show ?thesis by (auto simp: sample_env_def to_s64_def)
qed

text \<open>
  A name that is not cached is never answered from the reply: whatever the server sends, the
  response the caller passed in comes back unchanged, so the first packet for a domain is judged
  with the caller's initial category and application.
\<close>

theorem lookup_miss_keeps_response:
  assumes "lookup_ok [] st" and "terminated domain"
    and "\<not> listed_in (fst ` set (hash_items (cache st))) (cstr domain)"
    and "domain_lookup J E cfg domain resp st = Inr (resp', st')"
  shows "resp' = resp"
  using assms(4) unfolding domain_lookup_miss [OF assms(1-3)] by (auto simp: result_simps)

theorem lookup_miss_keeps_response_witness:
  "\<exists>r st. domain_lookup (json_instance (Some sample_reply)) (sample_env 0 True) config_init sample_domain
      \<lparr>rs_category = 0, rs_application = 0\<rparr> domain_info_arena_init = Inr (r, st) \<and> r = \<lparr>rs_category = 0, rs_application = 0\<rparr>
    \<and> reply_category (json_instance (Some sample_reply)) sample_reply = 7"
  using sample_lookup [of 0 True "\<lparr>rs_category = 0, rs_application = 0\<rparr>"]
    lookup_miss_keeps_response [OF lookup_ok_init sample_domain_ok(1) init_not_listed]
  by (fastforce simp: sample_reply_fields)

text \<open>
  C32: After a miss that the server answered with an object, the next lookup of the name returns the object's
  category and application without a request and without a change of the cache, until the object's time to live
  has passed.  It has to cache the name: the name or a parent domain is in its list \<open>cache_domains\<close>, or it has no
  such list; the arena has to have a free slot for every name it lists; and, when it lists several, no collection
  during the later insertions may take an entry of this reply (\<open>rand\<close> returns no 0 and the reply does not
  expire meanwhile).
\<close>

theorem lookup_then_hit:
  assumes ok: "lookup_ok [] st" and d: "terminated domain" "terminated (serveraddr cfg)"
    and n: "\<not> listed_in (fst ` set (hash_items (cache st))) (cstr domain)"
    and q: "query_result J E cfg (cstr domain) = Some obj"
    and es: "\<exists>x \<in> set (reply_entries J domain obj). listed_in {cstr (snd x)} (cstr domain)"
    and full: "arena_index st + int (length (reply_entries J domain obj)) \<le> 65536"
    and safe: "\<And>x. x \<in> set (tl (reply_entries J domain obj)) \<Longrightarrow> collects_none E (to_s64 (lk_now E + reply_ttl J obj)) (fst x)"
    and r: "domain_lookup J E cfg domain resp st = Inr (resp', st')"
    and t: "lk_now E' < to_s64 (lk_now E + reply_ttl J obj)"
  shows "domain_lookup J E' cfg domain resp2 st' =
    Inr (\<lparr>rs_category = reply_category J obj, rs_application = reply_application J obj\<rparr>, st')"
  using reply_answers [OF ok d n q es full safe r d(1) refl t] .

theorem lookup_then_hit_witness:
  "\<exists>st r. domain_lookup (json_instance (Some sample_reply)) (sample_env 1000 True) config_init sample_domain
        \<lparr>rs_category = 0, rs_application = 0\<rparr> domain_info_arena_init = Inr (r, st)
    \<and> domain_lookup (json_instance (Some sample_reply)) (sample_env 1599 False) config_init sample_domain
        \<lparr>rs_category = 0, rs_application = 0\<rparr> st = Inr (\<lparr>rs_category = 7, rs_application = 3\<rparr>, st)"
proof -
  let ?J = "json_instance (Some sample_reply)"
  obtain st where st: "domain_lookup ?J (sample_env 1000 True) config_init sample_domain
     \<lparr>rs_category = 0, rs_application = 0\<rparr> domain_info_arena_init = Inr (\<lparr>rs_category = 0, rs_application = 0\<rparr>, st)"
    using sample_lookup by blast
  have es: "reply_entries ?J sample_domain sample_reply = [(0, sample_domain)]"
    by (rule reply_entries_None [OF sample_reply_fields(4)])
  have q: "query_result ?J (sample_env 1000 True) config_init (cstr sample_domain) = Some sample_reply" by (simp add: sample_query)
  have t: "lk_now (sample_env 1599 False) < to_s64 (lk_now (sample_env 1000 True) + reply_ttl ?J sample_reply)"
    by (simp add: sample_reply_fields) (simp add: sample_env_def to_s64_def)
  have "domain_lookup ?J (sample_env 1599 False) config_init sample_domain \<lparr>rs_category = 0, rs_application = 0\<rparr> st =
      Inr (\<lparr>rs_category = reply_category ?J sample_reply, rs_application = reply_application ?J sample_reply\<rparr>, st)"
    by (rule lookup_then_hit [OF lookup_ok_init sample_domain_ok(1) config_init_serveraddr init_not_listed q _ _ _ st t])
       (simp_all add: es domain_info_arena_init_def)
  with st
  show ?thesis by (auto simp: sample_reply_fields)
qed

text \<open>
  When the server cannot be reached or sends no JSON object, the name is cached with category
  and application 0, so that lookups in the next 60 seconds return 0 and 0 and send no request.
\<close>

theorem lookup_failure_cached:
  assumes ok: "lookup_ok [] st" and d: "terminated domain" "terminated (serveraddr cfg)"
    and n: "\<not> listed_in (fst ` set (hash_items (cache st))) (cstr domain)"
    and full: "arena_index st < 65536"
    and q: "query_result J E cfg (cstr domain) = None"
    and r: "domain_lookup J E cfg domain resp st = Inr (resp', st')"
    and t: "lk_now E' < to_s64 (lk_now E + 60)"
  shows "domain_lookup J E' cfg domain resp2 st' = Inr (\<lparr>rs_category = 0, rs_application = 0\<rparr>, st')"
proof -
  let ?st = "lk_logger LOGLEVEL_ERROR (bytes ''curl lookup failed: '' @ cstr domain) st"
  from r have "create_and_insert E 0 domain 0 0 (to_s64 (lk_now E + 60)) ?st = Inr st'"
    unfolding domain_lookup_miss [OF ok d(1) n] lookup_miss_eq [OF d] by (auto simp: q result_simps)
  from create_and_insert_Inr [OF _ this] ok show ?thesis
    using entry_added_answers [OF _ _ full n d(1) refl t] unfolding entry_added_log lookup_ok_log by blast
qed

theorem lookup_failure_cached_witness:
  "\<exists>st r. domain_lookup (json_instance (Some sample_reply)) (sample_env 1000 False) config_init sample_domain
        \<lparr>rs_category = 5, rs_application = 5\<rparr> domain_info_arena_init = Inr (r, st)
    \<and> domain_lookup (json_instance (Some sample_reply)) (sample_env 1059 True) config_init sample_domain
        \<lparr>rs_category = 5, rs_application = 5\<rparr> st = Inr (\<lparr>rs_category = 0, rs_application = 0\<rparr>, st)"
proof -
  let ?J = "json_instance (Some sample_reply)"
  obtain st where st: "domain_lookup ?J (sample_env 1000 False) config_init sample_domain
     \<lparr>rs_category = 5, rs_application = 5\<rparr> domain_info_arena_init = Inr (\<lparr>rs_category = 5, rs_application = 5\<rparr>, st)"
    using sample_lookup by blast
  have "arena_index domain_info_arena_init < 65536"
    "query_result ?J (sample_env 1000 False) config_init (cstr sample_domain) = None"
    "lk_now (sample_env 1059 True) < to_s64 (lk_now (sample_env 1000 False) + 60)"
    by (simp_all add: domain_info_arena_init_def sample_query) (simp add: sample_env_def to_s64_def)
  from lookup_failure_cached [OF lookup_ok_init sample_domain_ok(1) config_init_serveraddr init_not_listed this(1,2)
      st this(3)] st
  show ?thesis by auto
qed

text \<open>
  C33: An insertion more than five minutes after the last collection first removes exactly the
  entries that have expired or for which \<open>rand\<close> returned 0; all others stay, the new one is added
  and the time of the collection is recorded.
\<close>

theorem gc_keeps_exactly:
  assumes ok: "lookup_ok [p] st" and old: "lastgc st < now - 300" and rnd: "\<And>i. 0 \<le> rnd i"
    and ins: "domain_info_cache_insert m now rnd p st = Inr st'"
    and i: "i < length (hash_items (cache st))"
  shows "(hash_items (cache st) ! i \<in> set (hash_items (cache st')) \<longleftrightarrow>
      now \<le> di_expire (arena st (snd (hash_items (cache st) ! i))) \<and> rnd i \<noteq> 0)
    \<and> last (hash_items (cache st')) = (cstr (di_domain (arena st p)), p)
    \<and> lookup_ok [] st' \<and> lastgc st' = now"
proof -
  let ?xs = "hash_items (cache st)"
  let ?v = "gc_victims now rnd (arena st) (enumerate 0 (cached_slots st))"
  from domain_info_cache_insert_Inr [OF ok ins] have r: "lookup_ok [] st'"
    "hash_items (cache st') = kept_items now rnd st @ [(cstr (di_domain (arena st p)), p)]" by auto
  have "lastgc st' = now"
    using domain_info_cache_insert_gc [OF ok, of m now rnd] ins old unfolding ins
    by (auto simp: result_simps dest!: sym [of "Inr st'"])
  moreover have "snd (?xs ! i) \<noteq> p"
    using ok i by (auto simp: lookup_ok_def cached_slots_def)
  moreover have "distinct (cached_slots st)" using ok by (simp add: lookup_ok_def)
  then have "snd (?xs ! i) \<in> ?v \<longleftrightarrow> gc_victim now rnd (arena st) (i, snd (?xs ! i))"
    using i unfolding gc_victims_def
    by (auto simp: in_set_enumerate_eq cached_slots_def nth_eq_iff_index_eq image_iff)
       (metis length_map nth_eq_iff_index_eq nth_map)
  ultimately show ?thesis
    using r i old rnd [of i] by (auto simp: kept_items_def gc_victim_def)
qed

theorem gc_keeps_exactly_witness:
  "\<exists>p st st'. lookup_ok [p] st \<and> length (hash_items (cache st)) = 1
     \<and> domain_info_cache_insert True 5000 (\<lambda>_. 1) p st = Inr st'
     \<and> hash_items (cache st) ! 0 \<notin> set (hash_items (cache st')) \<and> lookup_ok [] st'"
proof -
  from sample_cached [of 1000 "\<lparr>rs_category = 0, rs_application = 0\<rparr>"] obtain s1 q where s1: "lookup_ok [] s1"
    "hash_items (cache s1) = [(cstr sample_domain, q)]" "di_expire (arena s1 q) = 1600"
    by (auto simp: to_s64_def)
  have "arena_index s1 < 65536" using lookup_ok_index [OF s1(1)] s1(2) by simp
  from domain_info_create_total [OF s1(1) sample_domain_ok this, of 0 0 0] obtain p st where
    p: "domain_info_create sample_domain 0 0 0 s1 = Inr (Some p, st)" by blast
  from domain_info_create_Some [OF s1(1) p] have st: "lookup_ok [p] st" "cache st = cache s1"
    "terminated (di_domain (arena st p))" "lastgc st = lastgc s1" and "p \<in> set (free_slots s1)"
    and ar: "arena st q = (if q = p then arena st p else arena s1 q)"
    using sample_domain_ok cstr_no_zero [of sample_domain] by (auto simp: terminated_append_zeros)
  then have "q \<noteq> p" using s1(1,2) by (auto simp: lookup_ok_def cached_slots_def)
  with ar s1(3) have e: "di_expire (arena st q) = 1600" by simp
  let ?st = "st\<lparr>lastgc := 0\<rparr>"
  have g: "lookup_ok [p] ?st" "terminated (di_domain (arena ?st p))" "lastgc ?st < 5000 - 300"
    "length (hash_items (cache ?st)) = 1" "cached_slots ?st = [q]" using st s1(2) by (simp_all add: cached_slots_def)
  have "kept_items 5000 (\<lambda>_. 1) ?st = []"
    using g(5) e st(2) s1(2) by (auto simp: kept_items_def gc_victims_def gc_victim_def image_iff)
  from domain_info_cache_insert_total [OF g(1,2) this] obtain st' where
    i: "domain_info_cache_insert True 5000 (\<lambda>_. 1) p ?st = Inr st'" by blast
  from gc_keeps_exactly [OF g(1,3) _ i, of 0] g(1,4) i e st(2) s1(2) show ?thesis
    by (intro exI [of _ p] exI [of _ ?st] exI [of _ st']) simp
qed

text \<open>
  A name of \<open>cache_domains\<close> longer than the 256-byte field is copied past its end, and one
  of exactly 256 characters is stored without terminator and read past its end when it is inserted.
\<close>

theorem long_cache_domain_faults:
  assumes ok: "lookup_ok [] st" and full: "arena_index st < 65536" and z: "0 \<notin> set s" and l: "256 \<le> length s"
  shows "create_and_insert E i (cmem s) app cat ex st = Inl (if length s = 256 then OobRead else OobWrite)"
proof -
  from domain_info_allocate_correct [OF ok] full obtain p s1 where s1: "domain_info_allocate st = Inr (Some p, s1)"
    "lookup_ok [p] s1" "arena s1 = (arena st)(p := domain_info_zero)"
    by (fastforce split: option.splits)
  show ?thesis
  proof (cases "length s = 256")
    case False
    then show ?thesis using l z s1(1,3)
      by (simp add: create_and_insert_def domain_info_create_def c_strlen_def domain_info_zero_def DOMAIN_LENGTH_def
          c_memcpy_def mem_read_def mem_write_def)
  next
    case True
    let ?s2 = "s1\<lparr>arena := (arena s1)(p := \<lparr>di_domain = s, di_application = app, di_category = cat, di_expire = ex\<rparr>)\<rparr>"
    have c: "domain_info_create (cmem s) app cat ex st = Inr (Some p, ?s2)"
      using True z s1(1,3) memcpy_zero_buffer [of 256 256 s]
      by (simp add: domain_info_create_def c_strlen_def domain_info_zero_def DOMAIN_LENGTH_def)
    have "p \<notin> set (cached_slots s1)" using s1(2) by (auto simp: lookup_ok_def)
    with lookup_ok_write [OF s1(2)] have "lookup_ok [p] ?s2" by blast
    from domain_info_cache_insert_gc [OF this, of "lk_malloc E" "lk_insert_now E i" "lk_rand E i"] c z True
    show ?thesis by (auto simp: create_and_insert_def HASH_ADD_STR_def c_strlen_def terminated_def)
  qed
qed

theorem long_cache_domain_faults_witness:
  "create_and_insert (sample_env 0 True) 0 (cmem (replicate 300 97)) 0 0 0 domain_info_arena_init = Inl OobWrite"
proof -
  have "arena_index domain_info_arena_init < 65536" by (simp add: domain_info_arena_init_def)
  from long_cache_domain_faults [OF lookup_ok_init this, of "replicate 300 97" "sample_env 0 True" 0 0 0 0]
  show ?thesis by (simp add: set_replicate_conv_if)
qed

end
