(* ===== verification/Utils.thy ===== *)
theory Utils
  imports C_Prelude
begin

text \<open>
  \<open>utils.c\<close>: the dotted decimal form of an IPv4 address.  The address is read as it lies in the
  packet, in network order, so that on the little-endian host its first octet is the least
  significant byte.  \<open>die\<close> prints a message and exits; in the model it is the fault \<open>Exit\<close>.

  The lemmas show that the text is the four octets in decimal with dots, that it fits the
  16-byte buffer with its terminator, and that the address can be read back from it.
\<close>

definition IPADDR_LENGTH :: nat where "IPADDR_LENGTH = 16"

definition die :: "'a result" where "die = Inl Exit"

definition MASK1 :: "u32 \<Rightarrow> u32" where "MASK1 value = drop_bit 24 (value AND 0xFF000000)"
definition MASK2 :: "u32 \<Rightarrow> u32" where "MASK2 value = drop_bit 16 (value AND 0x00FF0000)"
definition MASK3 :: "u32 \<Rightarrow> u32" where "MASK3 value = drop_bit 8 (value AND 0x0000FF00)"
definition MASK4 :: "u32 \<Rightarrow> u32" where "MASK4 value = value AND 0x000000FF"

text \<open>The assignment \<open>ipaddr[index++] = d + '0'\<close>, for the buffer and the index.\<close>

definition put_char :: "byte \<Rightarrow> byte list \<times> nat \<Rightarrow> (byte list \<times> nat) result" where
  "put_char c st = rbind (wr8 (fst st) (snd st) c) (\<lambda>buf. Inr (buf, snd st + 1))"

definition uint_to_string :: "u32 \<Rightarrow> byte list \<times> nat \<Rightarrow> (byte list \<times> nat) result" where
  "uint_to_string u32_ip st =
     rbind (if 99 < u32_ip
            then let u32_ip_1 = u32_ip mod 10; u32_ip = u32_ip div 10;
                     u32_ip_10 = u32_ip mod 10; u32_ip = u32_ip div 10;
                     u32_ip_100 = u32_ip mod 10
                 in rbind (put_char (ucast u32_ip_100 + 48) st) (\<lambda>st.
                    rbind (put_char (ucast u32_ip_10 + 48) st) (put_char (ucast u32_ip_1 + 48)))
            else if 9 < u32_ip
            then let u32_ip_1 = u32_ip mod 10; u32_ip = u32_ip div 10; u32_ip_10 = u32_ip mod 10
                 in rbind (put_char (ucast u32_ip_10 + 48) st) (put_char (ucast u32_ip_1 + 48))
            else let u32_ip_1 = u32_ip mod 10 in put_char (ucast u32_ip_1 + 48) st)
       (put_char 46)"

definition ipaddr_uint32_to_string :: "byte list \<Rightarrow> u32 \<Rightarrow> byte list result" where
  "ipaddr_uint32_to_string ipaddr u32_ipaddr =
    (let u32_ip1 = MASK1 u32_ipaddr; u32_ip2 = MASK2 u32_ipaddr;
         u32_ip3 = MASK3 u32_ipaddr; u32_ip4 = MASK4 u32_ipaddr
     in rbind (uint_to_string u32_ip4 (ipaddr, 0)) (\<lambda>st.
        rbind (uint_to_string u32_ip3 st) (\<lambda>st.
        rbind (uint_to_string u32_ip2 st) (\<lambda>st.
        rbind (uint_to_string u32_ip1 st) (\<lambda>(buf, index).
          wr8 buf (index - 1) 0)))))"

subsection \<open>Digits\<close>

lemma show_nat_1: "n < 10 \<Longrightarrow> show_nat n = [of_nat (48 + n)]"
  by (simp add: show_nat.simps [of n])

lemma show_nat_2: "10 \<le> n \<Longrightarrow> n < 100 \<Longrightarrow> show_nat n = [of_nat (48 + n div 10), of_nat (48 + n mod 10)]"
  by (subst show_nat.simps) (simp add: show_nat_1 div_less_dividend less_mult_imp_div_less)

lemma show_nat_3: "100 \<le> n \<Longrightarrow> n < 1000 \<Longrightarrow> show_nat n =
     [of_nat (48 + n div 100), of_nat (48 + n div 10 mod 10), of_nat (48 + n mod 10)]"
  by (subst show_nat.simps) (simp add: show_nat_2 less_mult_imp_div_less div_mult2_eq [symmetric] le_div_geq less_eq_div_iff_mult_less_eq)

lemmas show_nat_digits = show_nat_1 show_nat_2 show_nat_3

lemma length_show_nat_octet: "n < 256 \<Longrightarrow> 0 < length (show_nat n) \<and> length (show_nat n) \<le> 3"
  by (cases "n < 10"; cases "n < 100") (auto simp: show_nat_digits)

text \<open>Appending text at the index.\<close>

definition put_text :: "byte list \<Rightarrow> byte list \<times> nat \<Rightarrow> byte list \<times> nat" where
  "put_text s st = (take (snd st) (fst st) @ s @ drop (snd st + length s) (fst st), snd st + length s)"

lemma put_char_text:
  assumes "snd st < length (fst st)"
  shows "put_char c st = Inr (put_text [c] st)"
  using assms by (simp add: put_char_def put_text_def wr8_def upd_conv_take_nth_drop)

lemma put_text_append:
  assumes "snd st + length s + length t \<le> length (fst st)"
  shows "put_text t (put_text s st) = put_text (s @ t) st"
  using assms by (simp add: put_text_def ac_simps)

lemma put_text_fst_length:
  "snd st + length s \<le> length (fst st) \<Longrightarrow> length (fst (put_text s st)) = length (fst st)"
  by (simp add: put_text_def)

lemma put_text_snd: "snd (put_text s st) = snd st + length s"
  by (simp add: put_text_def)

lemma unat_digit: "unat (v :: u32) < 256 \<Longrightarrow> (ucast (v mod 10) :: byte) = of_nat (unat v mod 10)"
  "unat v < 256 \<Longrightarrow> (ucast (v div 10 mod 10) :: byte) = of_nat (unat v div 10 mod 10)"
  "unat v < 256 \<Longrightarrow> (ucast (v div 10 div 10 mod 10) :: byte) = of_nat (unat v div 100)"
  by (simp_all add: word_unat_eq_iff unsigned_ucast_eq unat_mod unat_div unsigned_of_nat take_bit_nat_eq_self_iff div_mult2_eq [symmetric])

lemma uint_to_string_text:
  assumes v: "unat v < 256" and r: "snd st + length (show_nat (unat v)) + 1 \<le> length (fst st)"
  shows "uint_to_string v st = Inr (put_text (show_nat (unat v) @ [46]) st)"
proof -
  have l: "(99 < v) = (99 < unat v)" "(9 < v) = (9 < unat v)" by (simp_all add: word_less_nat_alt)
  consider "100 \<le> unat v" | "10 \<le> unat v" "unat v < 100" | "unat v < 10" by linarith
  then show ?thesis
  proof cases
    case 1
    with r v show ?thesis
      by (simp add: uint_to_string_def l Let_def show_nat_3 unat_digit put_char_text put_text_snd
          put_text_fst_length put_text_append add.commute)
  next
    case 2
    with r v show ?thesis
      by (simp add: uint_to_string_def l Let_def show_nat_2 unat_digit put_char_text put_text_snd
          put_text_fst_length put_text_append add.commute)
  next
    case 3
    with r v show ?thesis
      by (simp add: uint_to_string_def l Let_def show_nat_1 unat_digit put_char_text put_text_snd
          put_text_fst_length put_text_append add.commute)
  qed
qed

subsection \<open>Addresses\<close>

lemma MASK_octets:
  "unat (MASK4 a) = unat a mod 256" "unat (MASK3 a) = unat a div 256 mod 256"
  "unat (MASK2 a) = unat a div 65536 mod 256" "unat (MASK1 a) = unat a div 16777216"
proof -
  have c: "(0xFF000000 :: u32) = push_bit 24 (mask 8)" "(0x00FF0000 :: u32) = push_bit 16 (mask 8)"
    "(0x0000FF00 :: u32) = push_bit 8 (mask 8)" "(0x000000FF :: u32) = mask 8"
    by (simp_all add: mask_eq_exp_minus_1 push_bit_eq_mult)
  have m: "MASK4 a = take_bit 8 a" "MASK3 a = take_bit 8 (drop_bit 8 a)"
    "MASK2 a = take_bit 8 (drop_bit 16 a)" "MASK1 a = drop_bit 24 a"
    unfolding MASK1_def MASK2_def MASK3_def MASK4_def c
    by (rule bit_word_eqI; auto simp: bit_simps dest: bit_imp_le_length)+
  show "unat (MASK4 a) = unat a mod 256" "unat (MASK3 a) = unat a div 256 mod 256"
    "unat (MASK2 a) = unat a div 65536 mod 256" "unat (MASK1 a) = unat a div 16777216"
    unfolding m by (simp_all add: unat_mod unat_div take_bit_eq_mod drop_bit_eq_div)
qed

text \<open>The octets of an address, in the order of the packet.\<close>

definition ip_octets :: "u32 \<Rightarrow> nat list" where
  "ip_octets a = [unat a mod 256, unat a div 256 mod 256, unat a div 65536 mod 256, unat a div 16777216]"

lemma ip_octets_less: "x \<in> set (ip_octets a) \<Longrightarrow> x < 256"
proof -
  have "unat a < 4294967296" using unsigned_less [of a] by simp
  then show "x \<in> set (ip_octets a) \<Longrightarrow> x < 256" by (auto simp: ip_octets_def less_mult_imp_div_less)
qed

lemma ip_octets_nth: "ip_octets a ! 0 < 256" "ip_octets a ! 1 < 256" "ip_octets a ! 2 < 256" "ip_octets a ! 3 < 256"
proof -
  have "length (ip_octets a) = 4" by (simp add: ip_octets_def)
  then have "ip_octets a ! i < 256" if "i < 4" for i using that ip_octets_less [OF nth_mem, of i a] by simp
  then show "ip_octets a ! 0 < 256" "ip_octets a ! 1 < 256" "ip_octets a ! 2 < 256" "ip_octets a ! 3 < 256" by simp_all
qed

definition ip_text :: "u32 \<Rightarrow> byte list" where
  "ip_text a = concat (map (\<lambda>n. show_nat n @ [46]) (ip_octets a))"

lemma length_ip_text: "length (ip_text a) \<le> 16" "0 < length (ip_text a)"
proof -
  have "length (show_nat x) \<le> 3" if "x \<in> set (ip_octets a)" for x
    using length_show_nat_octet [OF ip_octets_less [OF that]] by simp
  from this [of "ip_octets a ! 0"] this [of "ip_octets a ! 1"] this [of "ip_octets a ! 2"] this [of "ip_octets a ! 3"]
  show "length (ip_text a) \<le> 16" by (simp add: ip_text_def ip_octets_def)
  show "0 < length (ip_text a)" by (simp add: ip_text_def ip_octets_def)
qed

lemma ipaddr_text_at:
  assumes "length buf = 16"
  shows "ipaddr_uint32_to_string buf a = Inr (butlast (ip_text a) @ 0 # drop (length (ip_text a)) buf)"
proof -
  let ?o = "ip_octets a"
  have o: "unat (MASK4 a) = ?o ! 0" "unat (MASK3 a) = ?o ! 1" "unat (MASK2 a) = ?o ! 2" "unat (MASK1 a) = ?o ! 3"
    by (simp_all add: MASK_octets ip_octets_def)
  note l = ip_octets_nth [of a]
  let ?s = "\<lambda>i. show_nat (?o ! i) @ [46]"
  have t: "ip_text a = ?s 0 @ ?s 1 @ ?s 2 @ ?s 3" by (simp add: ip_text_def ip_octets_def)
  have b: "length (show_nat (?o ! 0)) \<le> 3" "length (show_nat (?o ! 1)) \<le> 3"
    "length (show_nat (?o ! 2)) \<le> 3" "length (show_nat (?o ! 3)) \<le> 3"
    using l by (simp_all add: length_show_nat_octet)
  let ?p = "\<lambda>s. put_text s (buf, 0)"
  have step: "uint_to_string v (?p s) = Inr (?p (s @ show_nat (unat v) @ [46]))"
    if "unat v < 256" "length s + length (show_nat (unat v)) + 1 \<le> 16" for v s
    using that assms uint_to_string_text [of v "?p s"] put_text_append [of "(buf, 0)" s "show_nat (unat v) @ [46]"]
    by (simp add: put_text_snd put_text_fst_length)
  have "?p [] = (buf, 0)" by (simp add: put_text_def)
  with step [of "MASK4 a" "[]"] have 0: "uint_to_string (MASK4 a) (buf, 0) = Inr (?p (?s 0))"
    using l(1) b(1) by (simp only: o) simp
  have "ipaddr_uint32_to_string buf a = (case ?p (ip_text a) of (b, i) \<Rightarrow> wr8 b (i - 1) 0)"
    unfolding ipaddr_uint32_to_string_def Let_def 0
    using step [of "MASK3 a" "?s 0"] step [of "MASK2 a" "?s 0 @ ?s 1"] step [of "MASK1 a" "?s 0 @ ?s 1 @ ?s 2"] l b
    by (simp add: o t)
  also have "\<dots> = Inr ((ip_text a)[length (ip_text a) - 1 := 0] @ drop (length (ip_text a)) buf)"
    using length_ip_text [of a] assms
    by (simp add: put_text_def wr8_def list_update_append)
  also have "(ip_text a)[length (ip_text a) - 1 := 0] = butlast (ip_text a) @ [0]"
    using length_ip_text(2) [of a] by (cases "ip_text a" rule: rev_cases) (auto simp: list_update_append)
  finally show ?thesis by simp
qed

text \<open>Reading the text back: decimal numbers between dots.\<close>

fun read_dotted :: "nat \<Rightarrow> byte list \<Rightarrow> nat list" where
  "read_dotted n [] = [n]"
| "read_dotted n (c # cs) = (if c = 46 then n # read_dotted 0 cs else read_dotted (10 * n + unat (c - 48)) cs)"

lemma unat_digit_char: "d < 10 \<Longrightarrow> unat (of_nat (48 + d) :: byte) = 48 + d"
  by (subst unsigned_of_nat) (simp add: take_bit_nat_eq_self)

lemma digit_char: "d < 10 \<Longrightarrow> unat ((of_nat (48 + d) :: byte) - 48) = d" "d < 10 \<Longrightarrow> (of_nat (48 + d) :: byte) \<noteq> 46"
  "d < 10 \<Longrightarrow> (of_nat (48 + d) :: byte) \<noteq> 0"
proof -
  assume d: "d < 10"
  have "unat ((of_nat (48 + d) :: byte) - 48) = unat (of_nat d :: byte)" by simp
  also have "\<dots> = d" using d by (simp add: unsigned_of_nat take_bit_nat_eq_self)
  finally show "unat ((of_nat (48 + d) :: byte) - 48) = d" .
  show "(of_nat (48 + d) :: byte) \<noteq> 46" "(of_nat (48 + d) :: byte) \<noteq> 0"
    using unat_digit_char [OF d] by (auto simp del: of_nat_add)
qed

text \<open>An octet is printed with one, two or three digits.\<close>

lemma octet_digits:
  assumes "n < 256"
  obtains "n < 10" "show_nat n = [of_nat (48 + n)]"
  | a b where "a < 10" "b < 10" "n = 10 * a + b" "show_nat n = [of_nat (48 + a), of_nat (48 + b)]"
  | a b c where "a < 10" "b < 10" "c < 10" "n = 100 * a + 10 * b + c"
      "show_nat n = [of_nat (48 + a), of_nat (48 + b), of_nat (48 + c)]"
proof -
  consider "n < 10" | "10 \<le> n" "n < 100" | "100 \<le> n" by linarith
  then show thesis
  proof cases
    case 1
    then show thesis using that(1) show_nat_1 by blast
  next
    case 2
    then have "n div 10 < 10" by (simp add: less_mult_imp_div_less)
    with 2 show thesis using that(2) [of "n div 10" "n mod 10"] show_nat_2 [of n] by simp
  next
    case 3
    have "n = 10 * (n div 10) + n mod 10" "n div 10 = 10 * (n div 10 div 10) + n div 10 mod 10" by simp_all
    moreover have "n div 10 div 10 = n div 100" by (simp add: div_mult2_eq [symmetric])
    ultimately have "n = 100 * (n div 100) + 10 * (n div 10 mod 10) + n mod 10" by linarith
    moreover have "n div 100 < 10" using assms by (simp add: less_mult_imp_div_less)
    ultimately show thesis
      using 3 assms that(3) [of "n div 100" "n div 10 mod 10" "n mod 10"] show_nat_3 [of n] by simp
  qed
qed

lemma read_dotted_octet: "n < 256 \<Longrightarrow> read_dotted 0 (show_nat n @ r) = read_dotted n r"
  by (erule octet_digits) (simp_all add: digit_char del: of_nat_add)

lemma show_nat_octet_no_zero: "n < 256 \<Longrightarrow> 0 \<notin> set (show_nat n)"
  using digit_char(3) by (erule_tac octet_digits) (auto simp del: of_nat_add dest!: sym)

lemma ip_text_butlast:
  "butlast (ip_text a) = show_nat (ip_octets a ! 0) @ 46 # show_nat (ip_octets a ! 1)
     @ 46 # show_nat (ip_octets a ! 2) @ 46 # show_nat (ip_octets a ! 3)"
  by (simp add: ip_text_def ip_octets_def butlast_append)

lemma read_dotted_quad:
  assumes "x < 256" "y < 256" "z < 256" "w < 256"
  shows "read_dotted 0 (show_nat x @ 46 # show_nat y @ 46 # show_nat z @ 46 # show_nat w) = [x, y, z, w]"
  using assms read_dotted_octet [of w "[]"] by (simp add: read_dotted_octet)

lemma ip_text_read: "read_dotted 0 (butlast (ip_text a)) = ip_octets a"
  unfolding ip_text_butlast read_dotted_quad [OF ip_octets_nth] by (simp add: ip_octets_def)

lemma ip_text_no_zero: "0 \<notin> set (butlast (ip_text a))"
  unfolding ip_text_butlast using show_nat_octet_no_zero [OF ip_octets_nth(1)] show_nat_octet_no_zero [OF ip_octets_nth(2)]
    show_nat_octet_no_zero [OF ip_octets_nth(3)] show_nat_octet_no_zero [OF ip_octets_nth(4)] by simp

lemma ip_octets_inject:
  "unat a = ip_octets a ! 0 + 256 * (ip_octets a ! 1) + 65536 * (ip_octets a ! 2) + 16777216 * (ip_octets a ! 3)"
proof -
  have "unat a = unat a mod 256 + 256 * (unat a div 256)" by simp
  also have "unat a div 256 = unat a div 256 mod 256 + 256 * (unat a div 256 div 256)" by (metis mod_mult_div_eq)
  also have "unat a div 256 div 256 = unat a div 65536" by (simp add: div_mult2_eq [symmetric])
  also have "unat a div 65536 = unat a div 65536 mod 256 + 256 * (unat a div 65536 div 256)" by (metis mod_mult_div_eq)
  also have "unat a div 65536 div 256 = unat a div 16777216" by (simp add: div_mult2_eq [symmetric])
  finally show ?thesis by (simp add: ip_octets_def)
qed

subsection \<open>Properties\<close>

text \<open>
  C39: The text of an address always fits the 16-byte buffer with its terminator; it consists of the
  four octets of the address in decimal, in the order they have in the packet, separated by dots,
  and the address can be recovered from it.
\<close>

theorem ipaddr_text_roundtrip:
  assumes "length buf = IPADDR_LENGTH"
  shows "\<exists>buf'. ipaddr_uint32_to_string buf a = Inr buf' \<and> length buf' = IPADDR_LENGTH \<and> terminated buf'
    \<and> read_dotted 0 (cstr buf') =
        [unat a mod 256, unat a div 256 mod 256, unat a div 65536 mod 256, unat a div 16777216]
    \<and> (\<forall>a2. ipaddr_uint32_to_string buf a2 = Inr buf' \<longrightarrow> a2 = a)"
proof -
  have l: "length buf = 16" using assms by (simp add: IPADDR_LENGTH_def)
  let ?b = "\<lambda>a. butlast (ip_text a) @ 0 # drop (length (ip_text a)) buf"
  have c: "cstr (?b a) = butlast (ip_text a)" for a using ip_text_no_zero by simp
  have "a2 = a" if "?b a2 = ?b a" for a2
  proof -
    have "butlast (ip_text a2) = butlast (ip_text a)" using that c by metis
    then have "ip_octets a2 = ip_octets a" using ip_text_read by metis
    then show ?thesis using ip_octets_inject [of a] ip_octets_inject [of a2] by (simp add: word_unat_eq_iff)
  qed
  moreover have "length (?b a) = 16" using length_ip_text [of a] l by (cases "length (ip_text a)") auto
  moreover have "read_dotted 0 (cstr (?b a)) =
      [unat a mod 256, unat a div 256 mod 256, unat a div 65536 mod 256, unat a div 16777216]"
    unfolding c ip_text_read by (simp add: ip_octets_def)
  ultimately show ?thesis using ipaddr_text_at [OF l] by (auto simp: IPADDR_LENGTH_def)
qed

theorem ipaddr_text_roundtrip_witness:
  "\<exists>buf. ipaddr_uint32_to_string (replicate 16 0) 0x0100A8C0 = Inr buf
     \<and> read_dotted 0 (cstr buf) = [192, 168, 0, 1]"
  using ipaddr_text_roundtrip [of "replicate 16 0" "0x0100A8C0"] by (auto simp: IPADDR_LENGTH_def)

end
