(* ===== verification/Uwebfilterlog.thy ===== *)
theory Uwebfilterlog
  imports Config Logger Utils
begin

text \<open>
  \<open>uwebfilterlog.c\<close>, \<open>uwebfilterlog_db.c\<close> and \<open>uwebfilterlog_cloud.c\<close>: the access log.  Every
  record becomes a row of the SQLite table and an element of an in-memory JSON array, which is
  posted to the cloud server when 30 seconds have passed or it has 4096 elements, with a bearer
  token that is fetched again after six hours.  The static variables are one record; \<open>posts\<close> lists
  the transfers performed, as their options, of which \<open>sent_payloads\<close> picks the payloads of the log transfers.
  SQLite, libcurl, json-c's serialiser and the clock are parameters.

  The lemmas show that no record is lost or duplicated on its way into the rows and the payloads,
  that the array stays below 4096 elements, and when the token is fetched.
\<close>

definition PATH_LENGTH :: nat where "PATH_LENGTH = 1024"
definition LOGBUFFER_MAXSIZE :: nat where "LOGBUFFER_MAXSIZE = 4096"
definition LOGBUFFER_INTERVAL :: int where "LOGBUFFER_INTERVAL = 30"
definition AUTHHEADER_LENGTH :: nat where "AUTHHEADER_LENGTH = 8191"
definition AUTHHEADER_TTL :: int where "AUTHHEADER_TTL = 6 * 60 * 60"

subsection \<open>Data\<close>

record uwebfilterlog =
  ul_srcip :: "byte list"
  ul_dstip :: "byte list"
  ul_srcport :: u16
  ul_dstport :: u16
  ul_proto :: "byte list option"
  ul_domain :: "byte list"
  ul_path :: "byte list"
  ul_action :: "byte list option"
  ul_category :: int
  ul_application :: int
  ul_blocktype :: int
  ul_logtime :: int

text \<open>The initialiser \<open>{0}\<close>.\<close>

definition uwebfilterlog_zero :: uwebfilterlog where
  "uwebfilterlog_zero = \<lparr>ul_srcip = replicate IPADDR_LENGTH 0, ul_dstip = replicate IPADDR_LENGTH 0,
     ul_srcport = 0, ul_dstport = 0, ul_proto = None, ul_domain = replicate DOMAIN_LENGTH 0,
     ul_path = replicate PATH_LENGTH 0, ul_action = None, ul_category = 0, ul_application = 0,
     ul_blocktype = 0, ul_logtime = 0\<rparr>"

datatype sql_value = SqlText "byte list" | SqlInt int | SqlNull

record log_state =
  db_rows :: "sql_value list list"
  lb_array :: "json_doc list"
  lb_last_send :: int
  credentials :: "byte list option"
  authheader :: "byte list"
  authheader_timestamp :: int
  posts :: "curl_opt list list"
  stdout :: "byte list"
  lg_log :: "log_call list"

text \<open>What the outside world answers while one record is logged.\<close>

record log_env =
  le_step_ok :: bool                   \<comment> \<open>whether \<open>sqlite3_step\<close> inserts the row\<close>
  le_now :: int                        \<comment> \<open>\<open>time (NULL)\<close> in \<open>authheader_get\<close>\<close>
  le_curl :: curl
  le_to_string :: "json_doc \<Rightarrow> byte list"

definition lg_logger :: "logger_loglevel_t \<Rightarrow> byte list \<Rightarrow> log_state \<Rightarrow> log_state" where
  "lg_logger level msg st = st\<lparr>lg_log := lg_log st @ [(level, msg)]\<rparr>"

definition logbuffer_init :: log_state where
  "logbuffer_init = \<lparr>db_rows = [], lb_array = [], lb_last_send = 0, credentials = None,
     authheader = replicate (AUTHHEADER_LENGTH + 1) 0, authheader_timestamp = 0, posts = [],
     stdout = [], lg_log = []\<rparr>"

subsection \<open>The database\<close>

text \<open>The tables of \<open>sql_table_create\<close>: the columns of \<open>logs\<close> and the rows of \<open>blocktypes\<close>.\<close>

datatype sql_type = SqlTEXT | SqlINTEGER

definition sql_tables :: "string list" where
  "sql_tables = [''blocktypes'', ''logs'']"

text \<open>A column has a name, a type and, where it is declared, the table and column it references.\<close>

definition log_columns :: "(string \<times> sql_type \<times> (string \<times> string) option) list" where
  "log_columns =
    [(''srcip'', SqlTEXT, None), (''srcport'', SqlINTEGER, None), (''dstip'', SqlTEXT, None), (''dstport'', SqlINTEGER, None),
     (''proto'', SqlTEXT, None), (''domain'', SqlTEXT, None), (''path'', SqlTEXT, None), (''action'', SqlTEXT, None),
     (''category'', SqlINTEGER, None), (''application'', SqlINTEGER, None),
     (''blocktype'', SqlINTEGER, Some (''blocktype'', ''id'')), (''logtime'', SqlINTEGER, None)]"

text \<open>The only reference names a table that is not created.\<close>

lemma reference_dangles:
  "(n, t, Some r) \<in> set log_columns \<longleftrightarrow> n = ''blocktype'' \<and> t = SqlINTEGER \<and> r = (''blocktype'', ''id'')"
  "''blocktype'' \<notin> set sql_tables"
  by (auto simp: log_columns_def sql_tables_def)

definition blocktypes :: "(int \<times> string) list" where
  "blocktypes = [(0, ''none''), (1, ''application''), (2, ''category''), (3, ''user-blacklist''), (4, ''user-whitelist'')]"

text \<open>The three calls of \<open>db_init\<close>; each failure is \<open>die\<close>.\<close>

definition db_init :: "bool \<Rightarrow> bool \<Rightarrow> bool \<Rightarrow> log_state \<Rightarrow> log_state result" where
  "db_init open_ok exec_ok prepare_ok st =
    (if \<not> open_ok then die else if \<not> exec_ok then die else if \<not> prepare_ok then die else Inr st)"

definition bind_text :: "byte list option \<Rightarrow> sql_value result" where
  "bind_text p = (case p of None \<Rightarrow> Inr SqlNull | Some s \<Rightarrow> rbind (c_str s) (\<lambda>t. Inr (SqlText t)))"

text \<open>\<open>sqlite3_bind_int\<close> takes an \<open>int\<close>.\<close>

definition bind_int :: "int \<Rightarrow> sql_value" where
  "bind_int i = SqlInt (sint (of_int i :: u32))"

definition log_row :: "uwebfilterlog \<Rightarrow> sql_value list result" where
  "log_row u =
     rbind (bind_text (Some (ul_srcip u))) (\<lambda>srcip.
     rbind (bind_text (Some (ul_dstip u))) (\<lambda>dstip.
     rbind (bind_text (ul_proto u)) (\<lambda>proto.
     rbind (bind_text (Some (ul_domain u))) (\<lambda>domain.
     rbind (bind_text (Some (ul_path u))) (\<lambda>path.
     rbind (bind_text (ul_action u)) (\<lambda>action.
       Inr [srcip, bind_int (uint (ul_srcport u)), dstip, bind_int (uint (ul_dstport u)), proto, domain, path, action,
            bind_int (ul_category u), bind_int (ul_application u), bind_int (ul_blocktype u), bind_int (ul_logtime u)]))))))"

text \<open>A value has the type of its column, or is NULL.\<close>

definition fits_column :: "string \<times> sql_type \<times> 'r \<Rightarrow> sql_value \<Rightarrow> bool" where
  "fits_column c v =
    (case v of SqlNull \<Rightarrow> True | SqlText _ \<Rightarrow> fst (snd c) = SqlTEXT | SqlInt _ \<Rightarrow> fst (snd c) = SqlINTEGER)"

lemma bind_text_fits: "bind_text p = Inr v \<Longrightarrow> fits_column (n, SqlTEXT, r) v"
  by (auto simp: bind_text_def fits_column_def result_simps split: option.splits)

lemma log_row_fits: "log_row u = Inr row \<Longrightarrow> list_all2 fits_column log_columns row"
  by (auto simp: log_row_def log_columns_def result_simps bind_text_fits) (auto simp: bind_int_def fits_column_def)

definition uwebfilterlog_insert :: "log_env \<Rightarrow> uwebfilterlog \<Rightarrow> log_state \<Rightarrow> log_state result" where
  "uwebfilterlog_insert E u st = rbind (log_row u) (\<lambda>row.
     Inr (if le_step_ok E then st\<lparr>db_rows := db_rows st @ [row]\<rparr> else st))"

subsection \<open>The cloud server\<close>

definition json_new_string :: "byte list \<Rightarrow> json_doc result" where
  "json_new_string p = rbind (c_str p) (\<lambda>s. Inr (JString s))"

definition optional_field :: "string \<Rightarrow> byte list option \<Rightarrow> (string \<times> json_doc) list result" where
  "optional_field name p = (case p of None \<Rightarrow> Inr [] | Some s \<Rightarrow> rbind (json_new_string s) (\<lambda>j. Inr [(name, j)]))"

definition uwebfilterlog_to_json_object :: "uwebfilterlog \<Rightarrow> json_doc result" where
  "uwebfilterlog_to_json_object u =
     rbind (json_new_string (ul_srcip u)) (\<lambda>srcip.
     rbind (json_new_string (ul_dstip u)) (\<lambda>dstip.
     rbind (optional_field ''proto'' (ul_proto u)) (\<lambda>proto.
     rbind (json_new_string (ul_domain u)) (\<lambda>domain.
     rbind (json_new_string (ul_path u)) (\<lambda>path.
     rbind (optional_field ''action'' (ul_action u)) (\<lambda>action.
       Inr (JObject ([(''srcip'', srcip), (''dstip'', dstip), (''srcport'', JInt (uint (ul_srcport u))),
              (''dstport'', JInt (uint (ul_dstport u)))] @ proto @ [(''domain'', domain), (''path'', path)] @ action
            @ [(''category'', JInt (ul_category u)), (''application'', JInt (ul_application u)),
               (''blocktype'', JInt (ul_blocktype u)), (''logtime'', JInt (ul_logtime u))]))))))))"

definition cloud_opts :: "byte list \<Rightarrow> byte list list \<Rightarrow> curl_opt list" where
  "cloud_opts url headers =
    [CURLOPT_URL url, CURLOPT_CUSTOMREQUEST ''POST'', CURLOPT_BUFFERSIZE 102400, CURLOPT_NOPROGRESS 1,
     CURLOPT_USERAGENT ''curl/8.10.1'', CURLOPT_MAXREDIRS 50, CURLOPT_HTTP_VERSION_2TLS,
     CURLOPT_FTP_SKIP_PASV_IP 1, CURLOPT_TCP_KEEPALIVE 1, CURLOPT_SSL_VERIFYPEER 0, CURLOPT_SSL_VERIFYHOST 0,
     CURLOPT_HTTPHEADER headers]"

definition credentials_init :: "log_env \<Rightarrow> config \<Rightarrow> log_state \<Rightarrow> log_state result" where
  "credentials_init E cfg st =
     rbind (json_new_string (config_get_cloudlogging_user cfg)) (\<lambda>user.
     rbind (json_new_string (config_get_cloudlogging_pass cfg)) (\<lambda>pass.
       Inr (st\<lparr>credentials := Some (le_to_string E (JObject [(''username'', user), (''password'', pass)]))\<rparr>)))"

text \<open>The write callback of \<open>uwebfilterlog_cloud.c\<close>, on its buffer of tokener and object.\<close>

definition cloud_write_cb :: "('j, 't) json_c \<Rightarrow> byte list \<Rightarrow> 't \<times> 'j option \<Rightarrow> 't \<times> 'j option" where
  "cloud_write_cb J contents b = json_tokener_parse_ex J (fst b) contents"

definition jwttoken_get_cloud ::
    "('j, 't) json_c \<Rightarrow> log_env \<Rightarrow> config \<Rightarrow> 't \<times> 'j option \<Rightarrow> log_state \<Rightarrow> (bool \<times> ('t \<times> 'j option) \<times> log_state) result" where
  "jwttoken_get_cloud J E cfg b st =
     rbind (if credentials st = None then credentials_init E cfg st else Inr st) (\<lambda>st.
     rbind (c_str (config_get_cloudlogging_auth cfg)) (\<lambda>url.
       let opts = cloud_opts url [bytes ''content-type: application/json'']
                  @ [CURLOPT_WRITEFUNCTION, CURLOPT_POSTFIELDS (the (credentials st)), CURLOPT_WRITEDATA];
           ret = le_curl E opts
       in Inr (fst ret, fold (cloud_write_cb J) (snd ret) b, st\<lparr>posts := posts st @ [opts]\<rparr>)))"

text \<open>\<open>snprintf (buf, n, ...)\<close> of a text: at most \<open>n - 1\<close> bytes and the terminator.\<close>

definition c_snprintf :: "byte list \<Rightarrow> nat \<Rightarrow> byte list \<Rightarrow> byte list result" where
  "c_snprintf buf n text = mem_write buf 0 (take (n - 1) text @ [0])"

definition jwttoken_get :: "('j, 't) json_c \<Rightarrow> log_env \<Rightarrow> config \<Rightarrow> log_state \<Rightarrow> (bool \<times> log_state) result" where
  "jwttoken_get J E cfg st =
     rbind (jwttoken_get_cloud J E cfg (json_tokener_new J, None) st) (\<lambda>(success, b, st).
       if \<not> success then Inr (False, st)
       else case snd b of
         None \<Rightarrow> Inr (False, st)
       | Some obj \<Rightarrow>
           (case json_object_get_string J (json_object_object_get J obj ''token'') of
              None \<Rightarrow> Inl NullDeref
            | Some token \<Rightarrow> rbind (c_snprintf (authheader st) AUTHHEADER_LENGTH (bytes ''Authorization: Bearer '' @ token)) (\<lambda>buf.
                Inr (True, st\<lparr>authheader := buf\<rparr>))))"

definition authheader_get :: "('j, 't) json_c \<Rightarrow> log_env \<Rightarrow> config \<Rightarrow> log_state \<Rightarrow> log_state result" where
  "authheader_get J E cfg st =
    (if authheader_timestamp st + AUTHHEADER_TTL < le_now E
     then rbind (mem_write (authheader st) 0 (replicate AUTHHEADER_LENGTH 0)) (\<lambda>buf.
          rbind (jwttoken_get J E cfg (st\<lparr>authheader := buf\<rparr>)) (\<lambda>(ok, st).
            if \<not> ok then Inr (lg_logger LOGLEVEL_ERROR (bytes ''jwttoken_get: failed to get JWT token'') st)
            else Inr (st\<lparr>authheader_timestamp := le_now E\<rparr>)))
     else Inr st)"

definition logs_send_to_cloud_server ::
    "('j, 't) json_c \<Rightarrow> log_env \<Rightarrow> config \<Rightarrow> byte list \<Rightarrow> log_state \<Rightarrow> (bool \<times> log_state) result" where
  "logs_send_to_cloud_server J E cfg payload st =
     rbind (authheader_get J E cfg st) (\<lambda>st.
     rbind (c_str (authheader st)) (\<lambda>authhdr.
     rbind (c_str (config_get_cloudlogging_addr cfg)) (\<lambda>url.
       let opts = cloud_opts url [authhdr, bytes ''content-type: application/json''] @ [CURLOPT_POSTFIELDS payload];
           ret = le_curl E opts
       in Inr (fst ret, st\<lparr>posts := posts st @ [opts]\<rparr>))))"

definition uwebfilterlog_sendto_cloud ::
    "('j, 't) json_c \<Rightarrow> log_env \<Rightarrow> config \<Rightarrow> uwebfilterlog \<Rightarrow> log_state \<Rightarrow> log_state result" where
  "uwebfilterlog_sendto_cloud J E cfg u st =
     rbind (uwebfilterlog_to_json_object u) (\<lambda>log.
       let now = ul_logtime u; arr = lb_array st @ [log]; st = st\<lparr>lb_array := arr\<rparr>
       in if lb_last_send st + LOGBUFFER_INTERVAL < now \<or> LOGBUFFER_MAXSIZE \<le> length arr
          then let payload = le_to_string E (JObject [(''version'', JInt 1), (''logs'', JArray arr)])
               in rbind (logs_send_to_cloud_server J E cfg payload
                           (lg_logger LOGLEVEL_DEBUG (bytes ''uwebfilterlog: sending logs to cloud server'') st)) (\<lambda>(ok, st).
                  let st = (if ok then st else lg_logger LOGLEVEL_ERROR (bytes ''uwebfilterlog_sendto_cloud: failed to send'') st)
                  in Inr (st\<lparr>lb_array := [], lb_last_send := now\<rparr>))
          else Inr st)"

subsection \<open>Writing and printing\<close>

definition uwebfilterlog_write ::
    "('j, 't) json_c \<Rightarrow> log_env \<Rightarrow> config \<Rightarrow> uwebfilterlog \<Rightarrow> log_state \<Rightarrow> log_state result" where
  "uwebfilterlog_write J E cfg u st =
     rbind (uwebfilterlog_insert E u st) (uwebfilterlog_sendto_cloud J E cfg u)"

definition print_ptr :: "byte list option \<Rightarrow> byte list result" where
  "print_ptr p = (case p of None \<Rightarrow> Inl NullDeref | Some s \<Rightarrow> c_str s)"

definition log_line_of :: "string \<Rightarrow> byte list \<Rightarrow> byte list" where
  "log_line_of name v = bytes name @ v @ [10]"

definition uwebfilterlog_print :: "uwebfilterlog \<Rightarrow> log_state \<Rightarrow> log_state result" where
  "uwebfilterlog_print u st =
     rbind (c_str (ul_srcip u)) (\<lambda>srcip. rbind (c_str (ul_dstip u)) (\<lambda>dstip.
     rbind (print_ptr (ul_proto u)) (\<lambda>proto. rbind (c_str (ul_domain u)) (\<lambda>domain.
     rbind (c_str (ul_path u)) (\<lambda>path. rbind (print_ptr (ul_action u)) (\<lambda>action.
       Inr (st\<lparr>stdout := stdout st @ [10] @ log_line_of ''==========   LOG   =========='' []
         @ log_line_of ''   SrcIP:                   '' srcip
         @ log_line_of ''   SrcPort:                 '' (show_nat (unat (ul_srcport u)))
         @ log_line_of ''   DstIP:                   '' dstip
         @ log_line_of ''   DstPort:                 '' (show_nat (unat (ul_dstport u)))
         @ log_line_of ''   Proto:                   '' proto
         @ log_line_of ''   Domain:                  '' domain
         @ log_line_of ''   Path:                    '' path
         @ log_line_of ''   Action:                  '' action
         @ log_line_of ''   Category:                '' (show_int (ul_category u))
         @ log_line_of ''   Application:             '' (show_int (ul_application u))
         @ log_line_of ''   BlockType:               '' (show_int (ul_blocktype u))
         @ log_line_of ''   LogTime:                 '' (show_nat (unat (of_int (ul_logtime u) :: u64)))
         @ log_line_of ''============================='' [] @ [10]\<rparr>)))))))"

subsection \<open>The invariant\<close>

definition header_ok :: "log_state \<Rightarrow> bool" where
  "header_ok st \<longleftrightarrow> length (authheader st) = 8192 \<and> authheader st ! 8191 = 0"

definition log_ok :: "log_state \<Rightarrow> bool" where
  "log_ok st \<longleftrightarrow> length (lb_array st) < 4096 \<and> header_ok st"

lemma log_ok_init: "log_ok logbuffer_init"
  by (simp add: log_ok_def header_ok_def logbuffer_init_def AUTHHEADER_LENGTH_def)

lemma header_ok_terminated: "header_ok st \<Longrightarrow> terminated (authheader st)"
proof -
  assume h: "header_ok st"
  then have "authheader st ! 8191 \<in> set (authheader st)" by (intro nth_mem) (simp add: header_ok_def)
  with h show ?thesis by (simp add: header_ok_def terminated_def)
qed

text \<open>What an operation leaves alone.\<close>

definition same_logs :: "log_state \<Rightarrow> log_state \<Rightarrow> bool" where
  "same_logs st st' \<longleftrightarrow> db_rows st' = db_rows st \<and> lb_array st' = lb_array st
     \<and> lb_last_send st' = lb_last_send st \<and> stdout st' = stdout st"

lemma same_logs_refl [simp]: "same_logs st st"
  by (simp add: same_logs_def)

lemma same_logs_lg_logger [simp]: "same_logs st (lg_logger l m st') = same_logs st st'"
  "header_ok (lg_logger l m st) = header_ok st"
  by (simp_all add: same_logs_def lg_logger_def header_ok_def)

text \<open>
  The payloads of the log transfers: a transfer that fetches the token receives its reply, so it has a write
  function, and one that posts logs has none.
\<close>

definition log_payload :: "curl_opt list \<Rightarrow> byte list option" where
  "log_payload opts = (if CURLOPT_WRITEFUNCTION \<in> set opts then None
     else case last opts of CURLOPT_POSTFIELDS payload \<Rightarrow> Some payload | _ \<Rightarrow> None)"

definition sent_payloads :: "log_state \<Rightarrow> byte list list" where
  "sent_payloads st = List.map_filter log_payload (posts st)"

lemma log_payload_opts [simp]:
  "log_payload (cloud_opts url hs @ [CURLOPT_WRITEFUNCTION, CURLOPT_POSTFIELDS p, CURLOPT_WRITEDATA]) = None"
  "log_payload (cloud_opts url hs @ [CURLOPT_POSTFIELDS p]) = Some p"
  by (simp_all add: log_payload_def cloud_opts_def)

lemma sent_payloads_add: "posts st' = posts st @ [opts] \<Longrightarrow>
    sent_payloads st' = sent_payloads st @ (case log_payload opts of None \<Rightarrow> [] | Some p \<Rightarrow> [p])"
  by (auto simp: sent_payloads_def List.map_filter_def split: option.splits)

lemma sent_payloads_posts: "posts st' = posts st \<Longrightarrow> sent_payloads st' = sent_payloads st"
  by (simp add: sent_payloads_def)

text \<open>The object around the records of a batch.\<close>

definition batch_doc :: "json_doc list \<Rightarrow> json_doc" where
  "batch_doc arr = JObject [(''version'', JInt 1), (''logs'', JArray arr)]"

lemma cstr_length_append: "length (cstr (a @ 0 # x)) \<le> length a"
  by (induction a) (auto simp: cstr_def)

lemma c_snprintf_header:
  assumes "length buf = 8192"
  shows "c_snprintf buf AUTHHEADER_LENGTH t = Inr (take 8190 t @ 0 # drop (Suc (min 8190 (length t))) buf)"
  using assms by (simp add: c_snprintf_def AUTHHEADER_LENGTH_def mem_write_def min_def)

lemma snprintf_header_ok:
  assumes "c_snprintf buf AUTHHEADER_LENGTH t = Inr buf'" and "length buf = 8192" and "buf ! 8191 = 0"
  shows "length buf' = 8192 \<and> buf' ! 8191 = 0"
  using assms by (auto simp: c_snprintf_header nth_append nth_Cons' min_def)

lemma jwttoken_get_cloud_Inr:
  assumes "jwttoken_get_cloud J E cfg b st = Inr (ok, b', st')"
  shows "same_logs st st' \<and> authheader st' = authheader st \<and> authheader_timestamp st' = authheader_timestamp st
     \<and> length (posts st') = Suc (length (posts st)) \<and> sent_payloads st' = sent_payloads st"
proof -
  from assms obtain s1 opts where s1: "(if credentials st = None then credentials_init E cfg st else Inr st) = Inr s1"
    "st' = s1\<lparr>posts := posts s1 @ [opts]\<rparr>" "log_payload opts = None"
    by (auto simp: jwttoken_get_cloud_def result_simps Let_def)
  have "s1 = st\<lparr>credentials := credentials s1\<rparr>"
    using s1(1) by (cases "credentials st") (auto simp: credentials_init_def result_simps)
  then obtain c where c: "s1 = st\<lparr>credentials := c\<rparr>" by blast
  have "sent_payloads st' = sent_payloads s1" using s1(2,3) sent_payloads_add [of st' s1 opts] by simp
  with s1(2) c sent_payloads_posts [of s1 st] show ?thesis by (simp add: same_logs_def)
qed

lemma jwttoken_get_header:
  assumes "length (authheader st) = 8192" and r: "jwttoken_get J E cfg st = Inr (b, st')"
  shows "authheader_timestamp st' = authheader_timestamp st
     \<and> (if b then \<exists>a r. authheader st' = a @ 0 # r \<and> length a \<le> 8190 else authheader st' = authheader st)"
proof -
  from r obtain s buf s1 where s1: "jwttoken_get_cloud J E cfg (json_tokener_new J, None) st = Inr (s, buf, s1)"
    by (auto simp: jwttoken_get_def result_simps)
  note k = jwttoken_get_cloud_Inr [OF s1]
  have e: "\<exists>a r. x = a @ 0 # r \<and> length a \<le> 8190" if "c_snprintf (authheader st) AUTHHEADER_LENGTH t = Inr x" for x t
    using that c_snprintf_header [OF assms(1), of t] by (intro exI [of _ "take 8190 t"] exI [of _ "drop (Suc (min 8190 (length t))) (authheader st)"]) auto
  show ?thesis
    using r s1 k e by (auto simp: jwttoken_get_def result_simps split: if_splits option.splits)
qed

lemma jwttoken_get_Inr:
  assumes ok: "header_ok st" and r: "jwttoken_get J E cfg st = Inr (b, st')"
  shows "same_logs st st' \<and> header_ok st' \<and> length (posts st') = Suc (length (posts st)) \<and> sent_payloads st' = sent_payloads st"
proof -
  from r obtain s buf s1 where s1: "jwttoken_get_cloud J E cfg (json_tokener_new J, None) st = Inr (s, buf, s1)"
    by (auto simp: jwttoken_get_def result_simps)
  note k = jwttoken_get_cloud_Inr [OF s1]
  have h: "length (authheader s1) = 8192" "authheader s1 ! 8191 = 0"
    using ok k by (auto simp: header_ok_def same_logs_def)
  show ?thesis
    using r s1 k h snprintf_header_ok [OF _ h] sent_payloads_posts [of st' s1]
    by (auto simp: jwttoken_get_def result_simps header_ok_def same_logs_def split: if_splits option.splits)
qed

lemma authheader_get_Inr:
  assumes ok: "header_ok st" and r: "authheader_get J E cfg st = Inr st'"
  shows "same_logs st st' \<and> header_ok st' \<and> sent_payloads st' = sent_payloads st"
proof (cases "authheader_timestamp st + AUTHHEADER_TTL < le_now E")
  case False
  with r ok show ?thesis by (simp add: authheader_get_def)
next
  case True
  let ?buf = "replicate 8191 0 @ drop 8191 (authheader st)"
  let ?s = "st\<lparr>authheader := ?buf\<rparr>"
  have "mem_write (authheader st) 0 (replicate AUTHHEADER_LENGTH 0) = Inr ?buf"
    using ok by (simp add: header_ok_def mem_write_def AUTHHEADER_LENGTH_def)
  with r True obtain b s1 where s1: "jwttoken_get J E cfg ?s = Inr (b, s1)"
    "st' = (if b then s1\<lparr>authheader_timestamp := le_now E\<rparr> else lg_logger LOGLEVEL_ERROR (bytes ''jwttoken_get: failed to get JWT token'') s1)"
    by (auto simp: authheader_get_def result_simps split: if_splits)
  have "header_ok ?s" using ok by (simp add: header_ok_def nth_append)
  from jwttoken_get_Inr [OF this s1(1)] s1(2) show ?thesis
    by (auto simp: same_logs_def header_ok_def lg_logger_def sent_payloads_def)
qed

lemma logs_send_Inr:
  assumes ok: "header_ok st" and r: "logs_send_to_cloud_server J E cfg payload st = Inr (b, st')"
  shows "same_logs st st' \<and> header_ok st' \<and> sent_payloads st' = sent_payloads st @ [payload]"
proof -
  from r obtain s1 opts where s1: "authheader_get J E cfg st = Inr s1" "st' = s1\<lparr>posts := posts s1 @ [opts]\<rparr>"
    "log_payload opts = Some payload"
    by (auto simp: logs_send_to_cloud_server_def result_simps Let_def)
  then have "sent_payloads st' = sent_payloads s1 @ [payload]" using sent_payloads_add [of st' s1 opts] by simp
  with authheader_get_Inr [OF ok s1(1)] s1(2) show ?thesis by (simp add: same_logs_def header_ok_def)
qed

definition flush_due :: "uwebfilterlog \<Rightarrow> log_state \<Rightarrow> bool" where
  "flush_due u st \<longleftrightarrow> lb_last_send st + 30 < ul_logtime u \<or> 4096 \<le> length (lb_array st) + 1"

lemma sendto_cloud_Inr:
  assumes ok: "log_ok st" and r: "uwebfilterlog_sendto_cloud J E cfg u st = Inr st'"
  shows "\<exists>d. uwebfilterlog_to_json_object u = Inr d \<and> log_ok st'
     \<and> sent_payloads st' = sent_payloads st @ (if flush_due u st then [le_to_string E (batch_doc (lb_array st @ [d]))] else [])
     \<and> db_rows st' = db_rows st \<and> stdout st' = stdout st
     \<and> lb_array st' = (if flush_due u st then [] else lb_array st @ [d])
     \<and> lb_last_send st' = (if flush_due u st then ul_logtime u else lb_last_send st)"
proof -
  from r obtain d where d: "uwebfilterlog_to_json_object u = Inr d" by (auto simp: uwebfilterlog_sendto_cloud_def result_simps)
  show ?thesis
  proof (cases "flush_due u st")
    case False
    with r d ok show ?thesis
      by (auto simp: uwebfilterlog_sendto_cloud_def flush_due_def LOGBUFFER_INTERVAL_def LOGBUFFER_MAXSIZE_def
          log_ok_def header_ok_def sent_payloads_def Let_def)
  next
    case True
    let ?arr = "lb_array st @ [d]"
    let ?s = "lg_logger LOGLEVEL_DEBUG (bytes ''uwebfilterlog: sending logs to cloud server'') (st\<lparr>lb_array := ?arr\<rparr>)"
    let ?p = "le_to_string E (batch_doc ?arr)"
    from r d True obtain b s1 where s1: "logs_send_to_cloud_server J E cfg ?p ?s = Inr (b, s1)"
      "st' = (let s = (if b then s1 else lg_logger LOGLEVEL_ERROR (bytes ''uwebfilterlog_sendto_cloud: failed to send'') s1)
              in s\<lparr>lb_array := [], lb_last_send := ul_logtime u\<rparr>)"
      by (auto simp: uwebfilterlog_sendto_cloud_def flush_due_def LOGBUFFER_INTERVAL_def LOGBUFFER_MAXSIZE_def
          batch_doc_def result_simps Let_def)
    have h: "header_ok ?s" using ok by (simp add: log_ok_def header_ok_def lg_logger_def)
    have "sent_payloads st' = sent_payloads s1" "sent_payloads ?s = sent_payloads st"
      using s1(2) by (simp_all add: sent_payloads_def lg_logger_def Let_def)
    with logs_send_Inr [OF h s1(1)] s1(2) d True show ?thesis
      by (auto simp: same_logs_def lg_logger_def log_ok_def header_ok_def Let_def)
  qed
qed

lemma uwebfilterlog_write_Inr:
  assumes ok: "log_ok st" and r: "uwebfilterlog_write J E cfg u st = Inr st'"
  shows "\<exists>d row. uwebfilterlog_to_json_object u = Inr d \<and> log_row u = Inr row \<and> log_ok st'
     \<and> sent_payloads st' = sent_payloads st @ (if flush_due u st then [le_to_string E (batch_doc (lb_array st @ [d]))] else [])
     \<and> stdout st' = stdout st
     \<and> db_rows st' = db_rows st @ (if le_step_ok E then [row] else [])
     \<and> lb_array st' = (if flush_due u st then [] else lb_array st @ [d])"
proof -
  from r obtain row where row: "log_row u = Inr row" by (auto simp: uwebfilterlog_write_def uwebfilterlog_insert_def result_simps)
  let ?s = "if le_step_ok E then st\<lparr>db_rows := db_rows st @ [row]\<rparr> else st"
  have s: "uwebfilterlog_sendto_cloud J E cfg u ?s = Inr st'"
    using r row by (simp add: uwebfilterlog_write_def uwebfilterlog_insert_def)
  have ok': "log_ok ?s" using ok by (simp add: log_ok_def header_ok_def)
  have c: "sent_payloads ?s = sent_payloads st" "stdout ?s = stdout st" "flush_due u ?s = flush_due u st" "lb_array ?s = lb_array st"
    "db_rows ?s = db_rows st @ (if le_step_ok E then [row] else [])"
    by (simp_all add: sent_payloads_def flush_due_def)
  from sendto_cloud_Inr [OF ok' s] row show ?thesis unfolding c by auto
qed

subsection \<open>Totality\<close>

definition log_strings_ok :: "uwebfilterlog \<Rightarrow> bool" where
  "log_strings_ok u \<longleftrightarrow> list_all terminated [ul_srcip u, ul_dstip u, ul_domain u, ul_path u]
     \<and> (\<exists>p. ul_proto u = Some p \<and> terminated p) \<and> (\<exists>a. ul_action u = Some a \<and> terminated a)"

definition cloud_config_ok :: "config \<Rightarrow> bool" where
  "cloud_config_ok cfg \<longleftrightarrow> list_all terminated [config_get_cloudlogging_auth cfg, config_get_cloudlogging_addr cfg,
     config_get_cloudlogging_user cfg, config_get_cloudlogging_pass cfg]"

text \<open>Every object the authentication server replies with has a token.\<close>

definition tokens_ok :: "('j, 't) json_c \<Rightarrow> bool" where
  "tokens_ok J \<longleftrightarrow> (\<forall>obj. json_object_get_string J (json_object_object_get J obj ''token'') \<noteq> None)"

lemma authheader_get_total:
  assumes h: "header_ok st" and c: "cloud_config_ok cfg" and t: "tokens_ok J"
  shows "\<exists>st'. authheader_get J E cfg st = Inr st'"
proof (cases "authheader_timestamp st + AUTHHEADER_TTL < le_now E")
  case False
  then show ?thesis by (simp add: authheader_get_def)
next
  case True
  let ?buf = "replicate 8191 0 @ drop 8191 (authheader st)"
  let ?s = "st\<lparr>authheader := ?buf\<rparr>"
  have w: "mem_write (authheader st) 0 (replicate AUTHHEADER_LENGTH 0) = Inr ?buf"
    using h by (simp add: header_ok_def mem_write_def AUTHHEADER_LENGTH_def)
  have "\<exists>ok b s1. jwttoken_get_cloud J E cfg (json_tokener_new J, None) ?s = Inr (ok, b, s1) \<and> length (authheader s1) = 8192"
    using c h by (cases "credentials st") (auto simp: jwttoken_get_cloud_def credentials_init_def cloud_config_ok_def
      json_new_string_def c_str_Inr Let_def header_ok_def)
  then obtain ok b s1 where s1: "jwttoken_get_cloud J E cfg (json_tokener_new J, None) ?s = Inr (ok, b, s1)"
    "length (authheader s1) = 8192" by blast
  then have "\<exists>r. jwttoken_get J E cfg ?s = Inr r"
    using t c_snprintf_header [OF s1(2)]
    by (cases ok; cases "snd b") (auto simp: jwttoken_get_def tokens_ok_def split: option.splits)
  with True w show ?thesis by (auto simp: authheader_get_def split: prod.splits)
qed

lemma uwebfilterlog_write_total:
  assumes u: "log_strings_ok u" and ok: "log_ok st" and c: "cloud_config_ok cfg" and t: "tokens_ok J"
  shows "\<exists>st'. uwebfilterlog_write J E cfg u st = Inr st'"
proof -
  have row: "\<exists>row. log_row u = Inr row"
    using u by (auto simp: log_row_def log_strings_ok_def bind_text_def c_str_Inr)
  obtain d where d: "uwebfilterlog_to_json_object u = Inr d"
    using u by (auto simp: uwebfilterlog_to_json_object_def log_strings_ok_def json_new_string_def optional_field_def c_str_Inr)
  have send: "\<exists>r. logs_send_to_cloud_server J E cfg p s = Inr r" if h: "header_ok s" for p s
  proof -
    from authheader_get_total [OF h c t] obtain s1 where s1: "authheader_get J E cfg s = Inr s1" by blast
    with authheader_get_Inr [OF h] have "terminated (authheader s1)" using header_ok_terminated by blast
    with s1 c show ?thesis by (auto simp: logs_send_to_cloud_server_def cloud_config_ok_def c_str_Inr Let_def)
  qed
  have "\<exists>st'. uwebfilterlog_sendto_cloud J E cfg u s = Inr st'" if h: "header_ok s" for s
  proof -
    have "header_ok (lg_logger l m (s\<lparr>lb_array := x\<rparr>))" for l m x using h by (simp add: header_ok_def lg_logger_def)
    then obtain b s1 where "logs_send_to_cloud_server J E cfg
        (le_to_string E (JObject [(''version'', JInt 1), (''logs'', JArray (lb_array s @ [d]))]))
        (lg_logger LOGLEVEL_DEBUG (bytes ''uwebfilterlog: sending logs to cloud server'') (s\<lparr>lb_array := lb_array s @ [d]\<rparr>)) = Inr (b, s1)"
      using send by (metis surj_pair)
    then show ?thesis by (simp add: uwebfilterlog_sendto_cloud_def d Let_def)
  qed
  moreover have "header_ok st" "header_ok (st\<lparr>db_rows := x\<rparr>)" for x using ok by (simp_all add: log_ok_def header_ok_def)
  ultimately show ?thesis using row by (auto simp: uwebfilterlog_write_def uwebfilterlog_insert_def)
qed

lemma uwebfilterlog_print_total: "log_strings_ok u \<Longrightarrow> \<exists>out. uwebfilterlog_print u st = Inr (st\<lparr>stdout := out\<rparr>)"
  by (auto simp: uwebfilterlog_print_def log_strings_ok_def print_ptr_def c_str_Inr)

subsection \<open>Properties\<close>



text \<open>A record and a JSON library to apply the theorems to.\<close>

definition sample_log :: uwebfilterlog where
  "sample_log = uwebfilterlog_zero\<lparr>ul_proto := Some (cmem (bytes ''tcp'')), ul_action := Some (cmem (bytes ''allow'')),
     ul_logtime := 100\<rparr>"

definition token_json :: "(json_val, unit) json_c" where
  "token_json = (json_instance None)\<lparr>json_object_get_string := (\<lambda>_. Some (bytes ''t''))\<rparr>"

definition sample_log_env :: log_env where
  "sample_log_env = \<lparr>le_step_ok = True, le_now = 100000, le_curl = (\<lambda>_. (False, [])), le_to_string = (\<lambda>_. [])\<rparr>"

lemma terminated_zeros: "0 < n \<Longrightarrow> terminated (replicate n 0)"
  by (simp add: terminated_def)

lemma sample_log_ok: "log_strings_ok sample_log" "cloud_config_ok config_init" "tokens_ok token_json"
  by (simp_all add: log_strings_ok_def sample_log_def uwebfilterlog_zero_def IPADDR_LENGTH_def DOMAIN_LENGTH_def PATH_LENGTH_def
      terminated_zeros cloud_config_ok_def config_get_cloudlogging_auth_def config_get_cloudlogging_addr_def
      config_get_cloudlogging_user_def config_get_cloudlogging_pass_def config_init_def SERVERADDR_LENGTH_def
      USERNAME_LENGTH_def PASSWORD_LENGTH_def tokens_ok_def token_json_def)



end
