(* ===== verification/Tcpflow.thy ===== *)
theory Tcpflow
  imports Uthash Netfilter
begin

text \<open>
  \<open>tcpflow.c\<close>: TLS handshakes that arrive in several packets.  A flow collects the payloads and
  the identifiers of the packets held back; the cache finds it by addresses and source port.
  Flows are heap objects: \<open>fl_heap\<close> maps an address to its contents, \<open>calloc\<close> returns the address
  \<open>fl_next\<close>, and using an address that is not allocated is the fault \<open>UseAfterFree\<close>.  The state
  carries the network output \<open>net\<close>, to which the verdicts are appended.

  The key is hashed and compared as the 12 bytes of \<open>tcpflow_key_t\<close>, two of which are padding:
  zero in a flow (\<open>calloc\<close>), unspecified (\<open>pad\<close>) in the local variable used for a lookup.

  The lemmas show that every packet held by a flow is in exactly one flow, that appending respects
  the buffers, and what the collector does to flows whose time stamp was never set.
\<close>

definition MAX_PACKET_COUNT :: nat where "MAX_PACKET_COUNT = 8"
definition MAX_PACKET_SIZE :: nat where "MAX_PACKET_SIZE = 1500"
definition FLOW_PAYLOAD_SIZE :: nat where "FLOW_PAYLOAD_SIZE = MAX_PACKET_COUNT * MAX_PACKET_SIZE"

subsection \<open>Data\<close>

record tcpflow_key =
  fk_src :: u32
  fk_dst :: u32
  fk_port :: u16

definition key_bytes :: "byte list \<Rightarrow> tcpflow_key \<Rightarrow> byte list" where
  "key_bytes pad key =
     [ucast (fk_src key), ucast (drop_bit 8 (fk_src key)), ucast (drop_bit 16 (fk_src key)), ucast (drop_bit 24 (fk_src key)),
      ucast (fk_dst key), ucast (drop_bit 8 (fk_dst key)), ucast (drop_bit 16 (fk_dst key)), ucast (drop_bit 24 (fk_dst key)),
      ucast (fk_port key), ucast (drop_bit 8 (fk_port key))] @ pad"

record tcpflow_value =
  fv_expected :: u16
  fv_current :: u16
  fv_payload :: "byte list"
  fv_ids :: "u32 list"
  fv_index :: nat

record tcpflow =
  fl_timestamp :: int
  fl_key :: tcpflow_key
  fl_value :: tcpflow_value

record flow_state =
  fl_heap :: "nat \<Rightarrow> tcpflow option"
  fl_next :: nat
  fl_cache :: "nat hash_head"
  fl_last_gc :: int
  net :: "net_event list"

definition flow_init :: flow_state where
  "flow_init = \<lparr>fl_heap = (\<lambda>_. None), fl_next = 0, fl_cache = None, fl_last_gc = 0, net = []\<rparr>"

text \<open>Reading and writing the object at an address.\<close>

definition flow_get :: "nat \<Rightarrow> flow_state \<Rightarrow> tcpflow result" where
  "flow_get a st = (case fl_heap st a of None \<Rightarrow> Inl UseAfterFree | Some f \<Rightarrow> Inr f)"

definition flow_put :: "nat \<Rightarrow> tcpflow \<Rightarrow> flow_state \<Rightarrow> flow_state" where
  "flow_put a f st = st\<lparr>fl_heap := (fl_heap st)(a := Some f)\<rparr>"

subsection \<open>Operations\<close>

definition tcpflow_lookup :: "byte list \<Rightarrow> tcpflow_key \<Rightarrow> flow_state \<Rightarrow> nat option result" where
  "tcpflow_lookup pad key st = HASH_FIND (key_bytes pad key) (fl_cache st)"

definition tcpflow_delete :: "nat \<Rightarrow> flow_state \<Rightarrow> flow_state result" where
  "tcpflow_delete a st = rbind (HASH_DEL a (fl_cache st)) (\<lambda>c. Inr (st\<lparr>fl_cache := c\<rparr>))"

definition tcpflow_free :: "nat \<Rightarrow> flow_state \<Rightarrow> flow_state result" where
  "tcpflow_free a st = rbind (flow_get a st) (\<lambda>_. Inr (st\<lparr>fl_heap := (fl_heap st)(a := None)\<rparr>))"

definition tcpflow_value_append ::
    "tcpflow_value \<Rightarrow> u32 \<Rightarrow> byte list \<Rightarrow> u16 \<Rightarrow> (bool \<times> tcpflow_value) result" where
  "tcpflow_value_append v pid payload payload_length =
    (if MAX_PACKET_COUNT \<le> fv_index v then Inr (False, v)
     else let newcurrent = ucast (fv_current v) + ucast payload_length :: u32
          in if of_nat FLOW_PAYLOAD_SIZE < newcurrent then Inr (False, v)
             else rbind (c_memcpy (fv_payload v) (unat (fv_current v)) payload 0 (unat payload_length)) (\<lambda>buf.
                  if fv_index v < length (fv_ids v)
                  then Inr (True, v\<lparr>fv_payload := buf, fv_current := ucast newcurrent,
                                    fv_ids := (fv_ids v)[fv_index v := pid], fv_index := fv_index v + 1\<rparr>)
                  else Inl OobWrite))"

definition tcpflow_iscomplete :: "tcpflow \<Rightarrow> bool" where
  "tcpflow_iscomplete f \<longleftrightarrow> fv_expected (fl_value f) \<le> fv_current (fl_value f)"

definition tcpflow_setverdict :: "bool \<Rightarrow> nat \<Rightarrow> verdict \<Rightarrow> flow_state \<Rightarrow> flow_state result" where
  "tcpflow_setverdict sendto_ok a verdict st =
     rbind (flow_get a st) (\<lambda>f.
     rbind (rfold (\<lambda>i out. if i < length (fv_ids (fl_value f))
                           then nfq_send_verdict sendto_ok (fv_ids (fl_value f) ! i) verdict out
                           else Inl OobRead) [0..<fv_index (fl_value f)] (net st)) (\<lambda>out.
       Inr (st\<lparr>net := out\<rparr>)))"

definition tcpflow_setverdict_and_free :: "bool \<Rightarrow> nat \<Rightarrow> verdict \<Rightarrow> flow_state \<Rightarrow> flow_state result" where
  "tcpflow_setverdict_and_free sendto_ok a verdict st =
     rbind (tcpflow_delete a st) (\<lambda>st.
     rbind (tcpflow_setverdict sendto_ok a verdict st) (tcpflow_free a))"

definition rungc_step :: "bool \<Rightarrow> int \<Rightarrow> nat \<Rightarrow> flow_state \<Rightarrow> flow_state result" where
  "rungc_step sendto_ok expired_time a st =
     rbind (flow_get a st) (\<lambda>f.
       if fl_timestamp f < expired_time then tcpflow_setverdict_and_free sendto_ok a NF_DROP st else Inr st)"

definition tcpflow_rungc :: "bool \<Rightarrow> int \<Rightarrow> flow_state \<Rightarrow> flow_state result" where
  "tcpflow_rungc sendto_ok now st =
     rbind (rfold (rungc_step sendto_ok (now - 5)) (HASH_ITER (fl_cache st)) st) (\<lambda>st.
       Inr (st\<lparr>fl_last_gc := now\<rparr>))"

definition tcpflow_insert :: "bool \<Rightarrow> bool \<Rightarrow> int \<Rightarrow> nat \<Rightarrow> flow_state \<Rightarrow> flow_state result" where
  "tcpflow_insert malloc_ok sendto_ok now a st =
     rbind (flow_get a st) (\<lambda>f.
     rbind (HASH_ADD malloc_ok (key_bytes [0, 0] (fl_key f)) a (fl_cache st)) (\<lambda>c.
       let st = st\<lparr>fl_cache := c\<rparr>
       in if fl_last_gc st < now - 60 then tcpflow_rungc sendto_ok now st else Inr st))"

definition tcpflow_create :: "bool \<Rightarrow> tcpflow_key \<Rightarrow> u16 \<Rightarrow> flow_state \<Rightarrow> nat option \<times> flow_state" where
  "tcpflow_create calloc_ok key expected st =
    (if \<not> calloc_ok then (None, st)
     else (Some (fl_next st), st\<lparr>fl_next := fl_next st + 1, fl_heap := (fl_heap st)(fl_next st :=
        Some \<lparr>fl_timestamp = 0, fl_key = key,
              fl_value = \<lparr>fv_expected = expected, fv_current = 0, fv_payload = replicate FLOW_PAYLOAD_SIZE 0,
                          fv_ids = replicate MAX_PACKET_COUNT 0, fv_index = 0\<rparr>\<rparr>)\<rparr>))"

subsection \<open>The invariant\<close>

definition value_ok :: "tcpflow_value \<Rightarrow> bool" where
  "value_ok v \<longleftrightarrow> length (fv_payload v) = 12000 \<and> length (fv_ids v) = 8 \<and> fv_index v \<le> 8
     \<and> unat (fv_current v) \<le> 12000"

text \<open>The packets a flow holds.\<close>

definition flow_ids :: "tcpflow \<Rightarrow> u32 list" where
  "flow_ids f = take (fv_index (fl_value f)) (fv_ids (fl_value f))"

definition cached_flows :: "flow_state \<Rightarrow> nat list" where
  "cached_flows st = map snd (hash_items (fl_cache st))"

text \<open>
  \<open>pend\<close> lists the flows that are allocated and not in the cache.  Every allocated flow is pending
  or cached, every cached flow is stored under its own key, addresses are never
  reused, and no operation ever sets a time stamp.
\<close>

definition flows_ok :: "nat list \<Rightarrow> flow_state \<Rightarrow> bool" where
  "flows_ok pend st \<longleftrightarrow> uthash_ok (fl_cache st) \<and> distinct (pend @ cached_flows st)
     \<and> dom (fl_heap st) = set (pend @ cached_flows st) \<and> (\<forall>a \<in> dom (fl_heap st). a < fl_next st)
     \<and> (\<forall>a f. fl_heap st a = Some f \<longrightarrow> value_ok (fl_value f) \<and> fl_timestamp f = 0)
     \<and> (\<forall>k a f. (k, a) \<in> set (hash_items (fl_cache st)) \<longrightarrow> fl_heap st a = Some f \<longrightarrow> k = key_bytes [0, 0] (fl_key f))"

definition held :: "nat list \<Rightarrow> flow_state \<Rightarrow> u32 list" where
  "held as st = concat (map (\<lambda>a. case fl_heap st a of None \<Rightarrow> [] | Some f \<Rightarrow> flow_ids f) as)"

text \<open>All packets the component answers for: judged or held.\<close>

definition accounted :: "nat list \<Rightarrow> flow_state \<Rightarrow> u32 multiset" where
  "accounted pend st = mset (verdict_ids (net st)) + mset (held (pend @ cached_flows st) st)"

lemma flows_ok_init: "flows_ok [] flow_init" "accounted [] flow_init = {#}"
  by (simp_all add: flows_ok_def flow_init_def cached_flows_def ut.invar_empty ut.items_empty accounted_def held_def)

lemma flows_okD:
  assumes "flows_ok pend st"
  shows "uthash_ok (fl_cache st)" "distinct (pend @ cached_flows st)"
    "dom (fl_heap st) = set (pend @ cached_flows st)"
    "fl_heap st a = Some f \<Longrightarrow> a < fl_next st" "fl_heap st a = Some f \<Longrightarrow> value_ok (fl_value f)"
    "fl_heap st a = Some f \<Longrightarrow> fl_timestamp f = 0"
    "(k, a) \<in> set (hash_items (fl_cache st)) \<Longrightarrow> fl_heap st a = Some f \<Longrightarrow> k = key_bytes [0, 0] (fl_key f)"
  using assms by (auto simp: flows_ok_def dom_def)

lemma flows_ok_alive: "flows_ok pend st \<Longrightarrow> a \<in> set (pend @ cached_flows st) \<Longrightarrow> \<exists>f. fl_heap st a = Some f"
  using flows_okD(3) by (metis domD)

subsection \<open>Appending\<close>

definition append_fits :: "tcpflow_value \<Rightarrow> u16 \<Rightarrow> bool" where
  "append_fits v n \<longleftrightarrow> fv_index v < 8 \<and> unat (fv_current v) + unat n \<le> 12000"

lemma u16_sum: "unat (ucast (a :: u16) + ucast (b :: u16) :: u32) = unat a + unat b"
proof -
  have "unat a < 65536" "unat b < 65536" using unsigned_less [of a] unsigned_less [of b] by simp_all
  then show ?thesis by (simp add: unat_word_ariths unsigned_ucast_eq take_bit_nat_eq_self)
qed

lemma u16_less_65536: "unat (b :: u16) < 65536"
  using unsigned_less [of b] by simp

lemma append_cases:
  assumes ok: "value_ok v"
  shows "\<not> append_fits v n \<Longrightarrow> tcpflow_value_append v pid payload n = Inr (False, v)"
    and "append_fits v n \<Longrightarrow> length payload < unat n \<Longrightarrow> tcpflow_value_append v pid payload n = Inl OobRead"
    and "append_fits v n \<Longrightarrow> unat n \<le> length payload \<Longrightarrow> \<exists>v'. tcpflow_value_append v pid payload n = Inr (True, v')
      \<and> value_ok v' \<and> fv_expected v' = fv_expected v \<and> unat (fv_current v') = unat (fv_current v) + unat n
      \<and> take (unat (fv_current v')) (fv_payload v') = take (unat (fv_current v)) (fv_payload v) @ take (unat n) payload
      \<and> fv_index v' = fv_index v + 1
      \<and> take (fv_index v') (fv_ids v') = take (fv_index v) (fv_ids v) @ [pid]"
proof -
  let ?c = "unat (fv_current v)" and ?n = "unat n"
  let ?nc = "ucast (fv_current v) + ucast n :: u32"
  have fit: "(of_nat FLOW_PAYLOAD_SIZE < ?nc) = (12000 < ?c + ?n)"
    unfolding word_less_nat_alt u16_sum by (simp add: FLOW_PAYLOAD_SIZE_def MAX_PACKET_COUNT_def MAX_PACKET_SIZE_def)
  show "\<not> append_fits v n \<Longrightarrow> tcpflow_value_append v pid payload n = Inr (False, v)"
    by (auto simp: tcpflow_value_append_def fit append_fits_def MAX_PACKET_COUNT_def)
  assume a: "append_fits v n"
  have step: "tcpflow_value_append v pid payload n = rbind (c_memcpy (fv_payload v) ?c payload 0 ?n) (\<lambda>buf.
      Inr (True, v\<lparr>fv_payload := buf, fv_current := ucast ?nc, fv_ids := (fv_ids v)[fv_index v := pid],
                  fv_index := fv_index v + 1\<rparr>))"
    using a ok by (simp add: tcpflow_value_append_def fit append_fits_def MAX_PACKET_COUNT_def value_ok_def)
  show "length payload < ?n \<Longrightarrow> tcpflow_value_append v pid payload n = Inl OobRead"
    unfolding step by (simp add: c_memcpy_def mem_read_def)
  assume l: "?n \<le> length payload"
  have cur: "unat (ucast ?nc :: u16) = ?c + ?n"
    using a u16_sum [of "fv_current v" n] by (simp add: unsigned_ucast_eq take_bit_nat_eq_self append_fits_def)
  have "c_memcpy (fv_payload v) ?c payload 0 ?n = Inr (take ?c (fv_payload v) @ take ?n payload @ drop (?c + ?n) (fv_payload v))"
    using a ok l by (subst c_memcpy_ok) (auto simp: append_fits_def value_ok_def)
  with a ok l show "\<exists>v'. tcpflow_value_append v pid payload n = Inr (True, v')
      \<and> value_ok v' \<and> fv_expected v' = fv_expected v \<and> unat (fv_current v') = ?c + ?n
      \<and> take (unat (fv_current v')) (fv_payload v') = take ?c (fv_payload v) @ take ?n payload
      \<and> fv_index v' = fv_index v + 1 \<and> take (fv_index v') (fv_ids v') = take (fv_index v) (fv_ids v) @ [pid]"
    unfolding step using cur
    by (simp add: append_fits_def value_ok_def take_Suc_conv_app_nth min_def) arith
qed

subsection \<open>Verdicts\<close>

lemma setverdict_loop:
  "n \<le> length ids \<Longrightarrow> rfold (\<lambda>i out. if i < length ids then nfq_send_verdict ok (ids ! i) v out else Inl OobRead) [0..<n] out
     = (if ok \<or> n = 0 then Inr (out @ map (\<lambda>i. VERDICT i v) (take n ids)) else Inl Exit)"
  by (induction n) (auto simp: rfold_append nfq_send_verdict_def take_Suc_conv_app_nth)

lemma tcpflow_setverdict_eq:
  assumes "fl_heap st a = Some f" and "value_ok (fl_value f)"
  shows "tcpflow_setverdict ok a v st = (if ok \<or> flow_ids f = []
     then Inr (st\<lparr>net := net st @ map (\<lambda>i. VERDICT i v) (flow_ids f)\<rparr>) else Inl Exit)"
  using assms setverdict_loop [of "fv_index (fl_value f)" "fv_ids (fl_value f)" ok v "net st"]
  by (auto simp: tcpflow_setverdict_def flow_get_def flow_ids_def value_ok_def)

lemma verdict_ids_map: "verdict_ids (map (\<lambda>i. VERDICT i v) ids) = ids"
  by (induction ids) (auto simp: verdict_ids_def verdicts_def)

lemma tcpflow_delete_ok:
  assumes ok: "flows_ok pend st" and a: "a \<in> set (cached_flows st)"
  shows "\<exists>c. tcpflow_delete a st = Inr (st\<lparr>fl_cache := c\<rparr>) \<and> flows_ok (a # pend) (st\<lparr>fl_cache := c\<rparr>)
     \<and> hash_items c = filter (\<lambda>p. snd p \<noteq> a) (hash_items (fl_cache st))"
proof -
  from a obtain k where "(k, a) \<in> set (hash_items (fl_cache st))" by (auto simp: cached_flows_def)
  from ut.del_correct [OF flows_okD(1) [OF ok] this] obtain c where c: "HASH_DEL a (fl_cache st) = Inr c" "uthash_ok c"
    "hash_items c = filter (\<lambda>p. snd p \<noteq> a) (hash_items (fl_cache st))" by blast
  have cf: "cached_flows (st\<lparr>fl_cache := c\<rparr>) = filter (\<lambda>x. x \<noteq> a) (cached_flows st)"
    using c(3) by (simp add: cached_flows_def filter_map comp_def)
  have "flows_ok (a # pend) (st\<lparr>fl_cache := c\<rparr>)"
    using ok a unfolding flows_ok_def cf by (auto simp: c)
  with c show ?thesis by (intro exI [of _ c]) (simp add: tcpflow_delete_def)
qed

lemma held_cong: "(\<And>x. x \<in> set as \<Longrightarrow> fl_heap st x = fl_heap st' x) \<Longrightarrow> held as st = held as st'"
  unfolding held_def by (metis (mono_tags, lifting) map_eq_conv)

lemma held_append: "held (as @ bs) st = held as st @ held bs st"
  by (simp add: held_def)

lemma mset_concat_map: "mset (concat (map g as)) = sum_mset (image_mset (\<lambda>x. mset (g x)) (mset as))"
  by (induction as) auto

lemma mset_held: "mset as = mset bs \<Longrightarrow> mset (held as st) = mset (held bs st)"
  by (simp add: held_def mset_concat_map)

lemma mset_filter_neq: "distinct xs \<Longrightarrow> a \<in> set xs \<Longrightarrow> mset xs = add_mset a (mset (filter (\<lambda>x. x \<noteq> a) xs))"
  using filter_neq_remove1 [of "\<lambda>x. x" xs a] by simp

text \<open>Judging a flow: its packets get the verdict, the flow leaves the cache and is freed.\<close>

lemma tcpflow_setverdict_and_free_eq:
  assumes ok: "flows_ok pend st" and a: "a \<in> set (cached_flows st)" and f: "fl_heap st a = Some f"
    and s: "sendto_ok \<or> flow_ids f = []"
  shows "\<exists>st'. tcpflow_setverdict_and_free sendto_ok a v st = Inr st' \<and> flows_ok pend st'
     \<and> hash_items (fl_cache st') = filter (\<lambda>p. snd p \<noteq> a) (hash_items (fl_cache st))
     \<and> fl_heap st' = (fl_heap st)(a := None) \<and> net st' = net st @ map (\<lambda>i. VERDICT i v) (flow_ids f)
     \<and> fl_last_gc st' = fl_last_gc st \<and> fl_next st' = fl_next st"
proof -
  from tcpflow_delete_ok [OF ok a] obtain c where c: "tcpflow_delete a st = Inr (st\<lparr>fl_cache := c\<rparr>)"
    "flows_ok (a # pend) (st\<lparr>fl_cache := c\<rparr>)" "hash_items c = filter (\<lambda>p. snd p \<noteq> a) (hash_items (fl_cache st))" by blast
  let ?s1 = "st\<lparr>fl_cache := c\<rparr>"
  let ?s2 = "?s1\<lparr>net := net st @ map (\<lambda>i. VERDICT i v) (flow_ids f)\<rparr>"
  let ?s3 = "?s2\<lparr>fl_heap := (fl_heap st)(a := None)\<rparr>"
  have "tcpflow_setverdict sendto_ok a v ?s1 = Inr ?s2"
    using tcpflow_setverdict_eq [of ?s1 a f] flows_okD(5) [OF ok f] f s by simp
  then have r: "tcpflow_setverdict_and_free sendto_ok a v st = Inr ?s3"
    using c(1) f by (simp add: tcpflow_setverdict_and_free_def tcpflow_free_def flow_get_def)
  have "flows_ok pend ?s3"
    using c(2) by (auto simp: flows_ok_def cached_flows_def split: if_splits)
  with r c(3) show ?thesis by simp
qed

lemma tcpflow_setverdict_and_free_exit:
  assumes ok: "flows_ok pend st" and a: "a \<in> set (cached_flows st)" and f: "fl_heap st a = Some f"
    and s: "\<not> sendto_ok" "flow_ids f \<noteq> []"
  shows "tcpflow_setverdict_and_free sendto_ok a v st = Inl Exit"
proof -
  from tcpflow_delete_ok [OF ok a] obtain c where c: "tcpflow_delete a st = Inr (st\<lparr>fl_cache := c\<rparr>)" by blast
  have "tcpflow_setverdict sendto_ok a v (st\<lparr>fl_cache := c\<rparr>) = Inl Exit"
    using tcpflow_setverdict_eq [of "st\<lparr>fl_cache := c\<rparr>" a f] flows_okD(5) [OF ok f] f s by simp
  with c show ?thesis by (simp add: tcpflow_setverdict_and_free_def)
qed

lemma accounted_judged:
  assumes ok: "flows_ok pend st" and a: "a \<in> set (cached_flows st)" and f: "fl_heap st a = Some f"
    and h: "hash_items (fl_cache st') = filter (\<lambda>p. snd p \<noteq> a) (hash_items (fl_cache st))"
    and "fl_heap st' = (fl_heap st)(a := None)" and "net st' = net st @ map (\<lambda>i. VERDICT i v) (flow_ids f)"
  shows "accounted pend st' = accounted pend st"
proof -
  have d: "distinct (cached_flows st)" "a \<notin> set pend" using flows_okD(2) [OF ok] a by auto
  have cf: "cached_flows st' = filter (\<lambda>x. x \<noteq> a) (cached_flows st)"
    using h by (simp add: cached_flows_def filter_map comp_def)
  have "mset (held (cached_flows st) st) = mset (held (a # cached_flows st') st)"
    using mset_filter_neq [OF d(1) a] unfolding cf by (intro mset_held) (simp only: mset.simps)
  moreover have "held (pend @ cached_flows st') st' = held (pend @ cached_flows st') st"
    by (rule held_cong) (use d(2) assms(5) in \<open>auto simp: cf\<close>)
  moreover have "held (a # cached_flows st') st = flow_ids f @ held (cached_flows st') st" using f by (simp add: held_def)
  ultimately show ?thesis
    by (simp add: accounted_def held_append assms(6) verdict_ids_map)
qed

lemma tcpflow_setverdict_and_free_Inr:
  assumes ok: "flows_ok pend st" and a: "a \<in> set (cached_flows st)"
    and r: "tcpflow_setverdict_and_free sendto_ok a v st = Inr st'"
  shows "flows_ok pend st' \<and> accounted pend st' = accounted pend st
     \<and> hash_items (fl_cache st') = filter (\<lambda>p. snd p \<noteq> a) (hash_items (fl_cache st))
     \<and> fl_heap st' = (fl_heap st)(a := None) \<and> net st' = net st @ map (\<lambda>i. VERDICT i v) (held [a] st)"
proof -
  from flows_ok_alive [OF ok] a obtain f where f: "fl_heap st a = Some f" by auto
  have s: "sendto_ok \<or> flow_ids f = []"
    using tcpflow_setverdict_and_free_exit [OF ok a f, of sendto_ok v] r by (cases sendto_ok) auto
  from tcpflow_setverdict_and_free_eq [OF ok a f s, of v] obtain s2 where
    "tcpflow_setverdict_and_free sendto_ok a v st = Inr s2" "flows_ok pend s2"
    "hash_items (fl_cache s2) = filter (\<lambda>p. snd p \<noteq> a) (hash_items (fl_cache st))"
    "fl_heap s2 = (fl_heap st)(a := None)" "net s2 = net st @ map (\<lambda>i. VERDICT i v) (flow_ids f)" by (elim exE conjE)
  moreover from this(1) r have "s2 = st'" by simp
  ultimately have e: "flows_ok pend st'"
    "hash_items (fl_cache st') = filter (\<lambda>p. snd p \<noteq> a) (hash_items (fl_cache st))"
    "fl_heap st' = (fl_heap st)(a := None)" "net st' = net st @ map (\<lambda>i. VERDICT i v) (flow_ids f)" by simp_all
  moreover have "held [a] st = flow_ids f" using f by (simp add: held_def)
  ultimately show ?thesis using accounted_judged [OF ok a f e(2-4)] by simp
qed

subsection \<open>Collection and insertion\<close>

lemma flows_ok_gc [simp]: "flows_ok pend (st\<lparr>fl_last_gc := t\<rparr>) = flows_ok pend st"
  "accounted pend (st\<lparr>fl_last_gc := t\<rparr>) = accounted pend st"
  by (simp_all add: flows_ok_def cached_flows_def accounted_def held_def)

text \<open>No flow ever has a time stamp, so one step judges every flow once the clock is past 5.\<close>

lemma rungc_step_Inr:
  assumes ok: "flows_ok pend st" and a: "a \<in> set (cached_flows st)" and r: "rungc_step sendto_ok t a st = Inr st'"
  shows "flows_ok pend st' \<and> accounted pend st' = accounted pend st
     \<and> hash_items (fl_cache st') = filter (\<lambda>p. \<not> (0 < t \<and> snd p = a)) (hash_items (fl_cache st))
     \<and> (0 < t \<longrightarrow> fl_heap st' = (fl_heap st)(a := None) \<and> net st' = net st @ map (\<lambda>i. VERDICT i NF_DROP) (held [a] st))"
proof -
  from flows_ok_alive [OF ok] a obtain f where f: "fl_heap st a = Some f" by auto
  then have "fl_timestamp f = 0" using flows_okD(6) [OF ok] by blast
  then have s: "rungc_step sendto_ok t a st = (if 0 < t then tcpflow_setverdict_and_free sendto_ok a NF_DROP st else Inr st)"
    using f by (simp add: rungc_step_def flow_get_def)
  show ?thesis
  proof (cases "0 < t")
    case True
    with r s have "tcpflow_setverdict_and_free sendto_ok a NF_DROP st = Inr st'" by simp
    from tcpflow_setverdict_and_free_Inr [OF ok a this] True show ?thesis by simp
  next
    case False
    with r s ok show ?thesis by simp
  qed
qed

lemma rungc_loop_Inr:
  assumes "flows_ok pend st" and "distinct as" and "set as \<subseteq> set (cached_flows st)"
    and "rfold (rungc_step sendto_ok t) as st = Inr st'"
  shows "flows_ok pend st' \<and> accounted pend st' = accounted pend st
     \<and> hash_items (fl_cache st') = filter (\<lambda>p. \<not> (0 < t \<and> snd p \<in> set as)) (hash_items (fl_cache st))
     \<and> (0 < t \<longrightarrow> net st' = net st @ map (\<lambda>i. VERDICT i NF_DROP) (held as st))"
  using assms
proof (induction as arbitrary: st)
  case Nil
  then show ?case by (simp add: held_def)
next
  case (Cons a as)
  from Cons.prems(4) obtain s1 where s1: "rungc_step sendto_ok t a st = Inr s1" "rfold (rungc_step sendto_ok t) as s1 = Inr st'"
    by (auto simp: result_simps)
  from Cons.prems(3) have a: "a \<in> set (cached_flows st)" by simp
  from rungc_step_Inr [OF Cons.prems(1) a s1(1)] have k: "flows_ok pend s1" "accounted pend s1 = accounted pend st"
    "hash_items (fl_cache s1) = filter (\<lambda>p. \<not> (0 < t \<and> snd p = a)) (hash_items (fl_cache st))"
    "0 < t \<Longrightarrow> fl_heap s1 = (fl_heap st)(a := None)" "0 < t \<Longrightarrow> net s1 = net st @ map (\<lambda>i. VERDICT i NF_DROP) (held [a] st)" by auto
  have n: "net s1 @ map (\<lambda>i. VERDICT i NF_DROP) (held as s1) = net st @ map (\<lambda>i. VERDICT i NF_DROP) (held (a # as) st)" if "0 < t"
  proof -
    have "held as s1 = held as st" by (rule held_cong) (use k(4) [OF that] Cons.prems(2) in auto)
    then show ?thesis using k(5) [OF that] held_append [of "[a]" as st] by simp
  qed
  have "set (cached_flows s1) = {x \<in> set (cached_flows st). \<not> (0 < t \<and> x = a)}"
    using k(3) by (auto simp: cached_flows_def)
  with Cons.prems(2,3) have "set as \<subseteq> set (cached_flows s1)" by auto
  from Cons.IH [OF k(1) _ this s1(2)] Cons.prems(2) k(2,3) n show ?case
    by (auto simp: filter_filter intro!: filter_cong)
qed

lemma tcpflow_rungc_Inr:
  assumes ok: "flows_ok pend st" and r: "tcpflow_rungc sendto_ok now st = Inr st'"
  shows "flows_ok pend st' \<and> accounted pend st' = accounted pend st
     \<and> hash_items (fl_cache st') = (if 5 < now then [] else hash_items (fl_cache st))
     \<and> (5 < now \<longrightarrow> net st' = net st @ map (\<lambda>i. VERDICT i NF_DROP) (held (cached_flows st) st))"
proof -
  have it: "HASH_ITER (fl_cache st) = cached_flows st"
    by (cases "fl_cache st") (simp_all add: HASH_ITER_def cached_flows_def hash_items_def)
  from r obtain s1 where s1: "rfold (rungc_step sendto_ok (now - 5)) (cached_flows st) st = Inr s1"
    "st' = s1\<lparr>fl_last_gc := now\<rparr>" by (auto simp: tcpflow_rungc_def it result_simps)
  have "distinct (cached_flows st)" using flows_okD(2) [OF ok] by simp
  from rungc_loop_Inr [OF ok this order_refl s1(1)] s1(2) show ?thesis
    by (auto simp: cached_flows_def filter_empty_conv)
qed

lemma tcpflow_insert_Inr:
  assumes ok: "flows_ok (a # pend) st" and r: "tcpflow_insert malloc_ok sendto_ok now a st = Inr st'"
  shows "flows_ok pend st' \<and> accounted pend st' = accounted (a # pend) st
     \<and> (fl_last_gc st < now - 60 \<and> 5 < now \<longrightarrow> fl_cache st' = None
          \<and> net st' = net st @ map (\<lambda>i. VERDICT i NF_DROP) (held (cached_flows st @ [a]) st))"
proof -
  from flows_ok_alive [OF ok] obtain f where f: "fl_heap st a = Some f" by auto
  from r f obtain c where c: "HASH_ADD malloc_ok (key_bytes [0, 0] (fl_key f)) a (fl_cache st) = Inr c"
    "(if fl_last_gc st < now - 60 then tcpflow_rungc sendto_ok now (st\<lparr>fl_cache := c\<rparr>) else Inr (st\<lparr>fl_cache := c\<rparr>)) = Inr st'"
    by (auto simp: tcpflow_insert_def flow_get_def result_simps Let_def)
  let ?s = "st\<lparr>fl_cache := c\<rparr>"
  have "a \<notin> snd ` set (hash_items (fl_cache st))" using flows_okD(2) [OF ok] by (simp add: cached_flows_def)
  from ut.add_Inr [OF flows_okD(1) [OF ok] this c(1)] have k: "uthash_ok c"
    "hash_items c = hash_items (fl_cache st) @ [(key_bytes [0, 0] (fl_key f), a)]" by auto
  have cf: "cached_flows ?s = cached_flows st @ [a]" by (simp add: cached_flows_def k)
  have s: "flows_ok pend ?s" using ok f unfolding flows_ok_def cf by (auto simp: k)
  have "accounted pend ?s = accounted (a # pend) st"
    unfolding accounted_def cf by (simp add: held_append held_def)
  moreover have "hash_items (fl_cache st') = [] \<Longrightarrow> uthash_ok (fl_cache st') \<Longrightarrow> fl_cache st' = None"
    by (cases "fl_cache st'") (auto simp: uthash_ok_def hash_items_def)
  moreover have "held (cached_flows ?s) ?s = held (cached_flows st @ [a]) st" unfolding cf by (simp add: held_def)
  ultimately show ?thesis
    using c(2) s tcpflow_rungc_Inr [OF s, of sendto_ok now st'] flows_okD(1) [of pend st'] by (auto split: if_splits)
qed

subsection \<open>Creating, finding and filling flows\<close>

lemma tcpflow_create_ok:
  assumes ok: "flows_ok pend st" and r: "tcpflow_create True key expected st = (Some a, st')"
  shows "flows_ok (a # pend) st' \<and> accounted (a # pend) st' = accounted pend st \<and> a = fl_next st
     \<and> fl_cache st' = fl_cache st \<and> net st' = net st
     \<and> fl_heap st' = (fl_heap st)(a := Some \<lparr>fl_timestamp = 0, fl_key = key, fl_value = \<lparr>fv_expected = expected,
          fv_current = 0, fv_payload = replicate 12000 0, fv_ids = replicate 8 0, fv_index = 0\<rparr>\<rparr>)"
proof -
  have a: "a = fl_next st" using r by (simp add: tcpflow_create_def)
  have fresh: "a \<notin> dom (fl_heap st)" using ok by (auto simp: flows_ok_def a)
  then have n: "a \<notin> set (pend @ cached_flows st)" using flows_okD(3) [OF ok] by simp
  let ?f = "\<lparr>fl_timestamp = 0, fl_key = key, fl_value = \<lparr>fv_expected = expected,
          fv_current = 0, fv_payload = replicate 12000 0, fv_ids = replicate 8 0, fv_index = 0\<rparr>\<rparr>"
  have st': "st' = st\<lparr>fl_next := a + 1, fl_heap := (fl_heap st)(a := Some ?f)\<rparr>"
    using r by (auto simp: tcpflow_create_def FLOW_PAYLOAD_SIZE_def MAX_PACKET_COUNT_def MAX_PACKET_SIZE_def)
  have cf: "cached_flows st' = cached_flows st" by (simp add: st' cached_flows_def)
  have n2: "(k, a) \<notin> set (hash_items (fl_cache st))" for k using n by (force simp: cached_flows_def)
  have "flows_ok (a # pend) st'"
    using ok n n2 unfolding flows_ok_def cf by (auto simp: st' a value_ok_def cached_flows_def less_Suc_eq)
  moreover have "held (pend @ cached_flows st) st' = held (pend @ cached_flows st) st"
    by (rule held_cong) (use n in \<open>auto simp: st'\<close>)
  then have "accounted (a # pend) st' = accounted pend st"
    unfolding accounted_def cf by (simp add: held_def st' flow_ids_def)
  ultimately show ?thesis by (simp add: a st')
qed

text \<open>Replacing the contents of an allocated flow accounts for the packets it gains.\<close>

lemma flow_put_ok:
  assumes ok: "flows_ok pend st" and a: "a \<in> set (pend @ cached_flows st)" and f: "fl_heap st a = Some f"
    and v: "value_ok v" and i: "take (fv_index v) (fv_ids v) = flow_ids f @ new"
  shows "flows_ok pend (flow_put a (f\<lparr>fl_value := v\<rparr>) st)
     \<and> accounted pend (flow_put a (f\<lparr>fl_value := v\<rparr>) st) = accounted pend st + mset new"
proof -
  let ?g = "f\<lparr>fl_value := v\<rparr>" and ?s = "flow_put a (f\<lparr>fl_value := v\<rparr>) st"
  have cf: "cached_flows ?s = cached_flows st" by (simp add: flow_put_def cached_flows_def)
  have "flows_ok pend ?s"
    using ok f v a unfolding flows_ok_def cf by (auto simp: flow_put_def dom_def split: if_splits)
  moreover have "accounted pend ?s = accounted pend st + mset new"
  proof -
    let ?as = "pend @ cached_flows st"
    have d: "distinct ?as" using flows_okD(2) [OF ok] .
    let ?r = "filter (\<lambda>x. x \<noteq> a) ?as"
    have m: "mset ?as = mset (a # ?r)" using mset_filter_neq [OF d a] by (simp only: mset.simps)
    have "held ?r ?s = held ?r st" by (rule held_cong) (auto simp: flow_put_def)
    moreover have "held (a # ?r) st = flow_ids f @ held ?r st" using f by (simp add: held_def)
    moreover have "held (a # ?r) ?s = flow_ids ?g @ held ?r ?s" by (simp add: held_def flow_put_def)
    moreover have "flow_ids ?g = flow_ids f @ new" using i by (simp add: flow_ids_def)
    ultimately have "mset (held (a # ?r) ?s) = mset (held (a # ?r) st) + mset new" by simp
    then have "mset (held ?as ?s) = mset (held ?as st) + mset new"
      using mset_held [OF m, of ?s] mset_held [OF m, of st] by simp
    then show ?thesis unfolding accounted_def cf by (simp add: flow_put_def)
  qed
  ultimately show ?thesis by simp
qed

text \<open>The bytes of the key determine the key.\<close>

lemma octet_bits:
  "(ucast (drop_bit k x) :: byte) = ucast (drop_bit k y) \<Longrightarrow> m < 8 \<Longrightarrow> bit (x :: 'a :: len word) (k + m) = bit (y :: 'a word) (k + m)"
  by (drule arg_cong [of _ _ "\<lambda>w. bit w m"]) (simp add: bit_simps)

lemma octets_eq32:
  assumes "\<And>k. k \<in> {0, 8, 16, 24} \<Longrightarrow> (ucast (drop_bit k x) :: byte) = ucast (drop_bit k y)"
  shows "x = (y :: u32)"
proof (rule bit_word_eqI)
  fix n assume "n < LENGTH(32)"
  then consider "n < 8" | "8 \<le> n" "n < 16" | "16 \<le> n" "n < 24" | "24 \<le> n" "n < 32" by force
  then show "bit x n = bit y n"
    using octet_bits [OF assms [of 0], of n] octet_bits [OF assms [of 8], of "n - 8"]
      octet_bits [OF assms [of 16], of "n - 16"] octet_bits [OF assms [of 24], of "n - 24"] by cases auto
qed

lemma octets_eq16:
  assumes "\<And>k. k \<in> {0, 8} \<Longrightarrow> (ucast (drop_bit k x) :: byte) = ucast (drop_bit k y)"
  shows "x = (y :: u16)"
proof (rule bit_word_eqI)
  fix n assume "n < LENGTH(16)"
  then consider "n < 8" | "8 \<le> n" "n < 16" by force
  then show "bit x n = bit y n"
    using octet_bits [OF assms [of 0], of n] octet_bits [OF assms [of 8], of "n - 8"] by cases auto
qed

lemma key_bytes_inject: "key_bytes pad k = key_bytes pad' k' \<longleftrightarrow> k = k' \<and> pad = pad'"
proof
  assume e: "key_bytes pad k = key_bytes pad' k'"
  have "fk_src k = fk_src k'" by (rule octets_eq32) (use e in \<open>auto simp: key_bytes_def\<close>)
  moreover have "fk_dst k = fk_dst k'" by (rule octets_eq32) (use e in \<open>auto simp: key_bytes_def\<close>)
  moreover have "fk_port k = fk_port k'" by (rule octets_eq16) (use e in \<open>auto simp: key_bytes_def\<close>)
  ultimately show "k = k' \<and> pad = pad'" using e by (simp add: key_bytes_def)
qed simp

lemma tcpflow_lookup_Some:
  assumes ok: "flows_ok pend st" and r: "tcpflow_lookup pad key st = Inr (Some a)"
  shows "a \<in> set (cached_flows st) \<and> (\<exists>f. fl_heap st a = Some f \<and> fl_key f = key) \<and> pad = [0, 0]"
proof -
  from ut.look_Some_mem [OF flows_okD(1) [OF ok]] r have m: "(key_bytes pad key, a) \<in> set (hash_items (fl_cache st))"
    by (simp add: tcpflow_lookup_def)
  then have a: "a \<in> set (cached_flows st)" by (force simp: cached_flows_def)
  with flows_ok_alive [OF ok] obtain f where f: "fl_heap st a = Some f" by auto
  with flows_okD(7) [OF ok m f] a show ?thesis by (simp add: key_bytes_inject)
qed

lemma tcpflow_lookup_total: "flows_ok pend st \<Longrightarrow> \<exists>r. tcpflow_lookup pad key st = Inr r"
  using ut.look_correct [OF flows_okD(1)] by (fastforce simp: tcpflow_lookup_def)

subsection \<open>Totality\<close>

lemma rungc_loop_total:
  assumes "flows_ok pend st" and "distinct as" and "set as \<subseteq> set (cached_flows st)"
  shows "\<exists>st'. rfold (rungc_step True t) as st = Inr st'"
  using assms
proof (induction as arbitrary: st)
  case Nil
  then show ?case by simp
next
  case (Cons a as)
  then have a: "a \<in> set (cached_flows st)" by simp
  with flows_ok_alive [OF Cons.prems(1)] obtain f where f: "fl_heap st a = Some f" by auto
  obtain s1 where s1: "rungc_step True t a st = Inr s1"
    using tcpflow_setverdict_and_free_eq [OF Cons.prems(1) a f, of True NF_DROP] f
    by (cases "fl_timestamp f < t") (auto simp: rungc_step_def flow_get_def)
  from rungc_step_Inr [OF Cons.prems(1) a s1] have k: "flows_ok pend s1"
    "hash_items (fl_cache s1) = filter (\<lambda>p. \<not> (0 < t \<and> snd p = a)) (hash_items (fl_cache st))" by auto
  have "set (cached_flows s1) = {x \<in> set (cached_flows st). \<not> (0 < t \<and> x = a)}"
    using k(2) by (auto simp: cached_flows_def)
  with Cons.prems(2,3) have "set as \<subseteq> set (cached_flows s1)" by auto
  with Cons.IH [OF k(1)] Cons.prems(2) s1 show ?case by simp
qed

lemma tcpflow_insert_total:
  assumes ok: "flows_ok (a # pend) st" and room: "hash_room (fl_cache st)"
  shows "\<exists>st'. tcpflow_insert True True now a st = Inr st'"
proof -
  from flows_ok_alive [OF ok] obtain f where f: "fl_heap st a = Some f" by auto
  from ut.add_total [OF flows_okD(1) [OF ok] room] obtain c where
    c: "HASH_ADD True (key_bytes [0, 0] (fl_key f)) a (fl_cache st) = Inr c" by blast
  let ?s = "st\<lparr>fl_cache := c\<rparr>"
  have "tcpflow_insert True True (fl_last_gc st) a st = Inr ?s"
    using f c by (simp add: tcpflow_insert_def flow_get_def)
  with tcpflow_insert_Inr [OF ok] have s: "flows_ok pend ?s" by blast
  have it: "HASH_ITER c = cached_flows ?s" by (cases c) (simp_all add: HASH_ITER_def cached_flows_def hash_items_def)
  from rungc_loop_total [OF s _ order_refl, of "now - 5"] flows_okD(2) [OF s]
  have "\<exists>s2. tcpflow_rungc True now ?s = Inr s2" by (auto simp: tcpflow_rungc_def it)
  with f c show ?thesis by (auto simp: tcpflow_insert_def flow_get_def Let_def)
qed

subsection \<open>Properties\<close>

text \<open>
  C30: Appending a packet to a flow stores its payload right behind what was collected and its
  identifier behind those held, and keeps every index inside the buffers; a packet that would be the
  ninth, or would exceed 12000 bytes, is refused and changes nothing.
\<close>

theorem tcpflow_append_bounded:
  assumes "value_ok v" and "unat n \<le> length payload"
  shows "if fv_index v < 8 \<and> unat (fv_current v) + unat n \<le> 12000
    then \<exists>v'. tcpflow_value_append v pid payload n = Inr (True, v') \<and> value_ok v'
      \<and> unat (fv_current v') = unat (fv_current v) + unat n
      \<and> take (unat (fv_current v')) (fv_payload v') = take (unat (fv_current v)) (fv_payload v) @ take (unat n) payload
      \<and> take (fv_index v') (fv_ids v') = take (fv_index v) (fv_ids v) @ [pid]
    else tcpflow_value_append v pid payload n = Inr (False, v)"
  using append_cases [OF assms(1), where n = n and pid = pid and payload = payload] assms(2) unfolding append_fits_def by auto

definition sample_value :: tcpflow_value where
  "sample_value = \<lparr>fv_expected = 500, fv_current = 0, fv_payload = replicate 12000 0, fv_ids = replicate 8 0, fv_index = 0\<rparr>"

theorem tcpflow_append_bounded_witness:
  "\<exists>v'. tcpflow_value_append sample_value 7 [1, 2, 3] 3 = Inr (True, v') \<and> value_ok v'
     \<and> take (unat (fv_current v')) (fv_payload v') = [1, 2, 3] \<and> take (fv_index v') (fv_ids v') = [7]"
  using tcpflow_append_bounded [of sample_value 3 "[1, 2, 3]" 7] by (auto simp: value_ok_def sample_value_def)

definition sample_key :: tcpflow_key where "sample_key = \<lparr>fk_src = 1, fk_dst = 2, fk_port = 3\<rparr>"

lemma sample_flow:
  "\<exists>st. tcpflow_create True sample_key 500 flow_init = (Some 0, st) \<and> flows_ok [0] st \<and> fl_cache st = None \<and> fl_last_gc st = 0
     \<and> net st = []"
proof -
  obtain st where st: "tcpflow_create True sample_key 500 flow_init = (Some 0, st)" "fl_last_gc st = 0"
    by (simp add: tcpflow_create_def flow_init_def)
  from tcpflow_create_ok [OF flows_ok_init(1) st(1)] st show ?thesis by (simp add: flow_init_def)
qed

lemma sample_inserted:
  "\<exists>st st2. tcpflow_create True sample_key 500 flow_init = (Some 0, st) \<and> tcpflow_insert True True 0 0 st = Inr st2
     \<and> flows_ok [] st2 \<and> hash_items (fl_cache st2) = [(key_bytes [0, 0] sample_key, 0)]"
proof -
  from sample_flow obtain st where st: "tcpflow_create True sample_key 500 flow_init = (Some 0, st)"
    "flows_ok [0] st" "fl_cache st = None" "fl_last_gc st = 0" by blast
  have h: "uthash_ok (None :: nat hash_head)" "hash_room (None :: nat hash_head)" by (simp_all add: uthash_ok_def hash_room_def)
  from ut.add_total [OF h, of "key_bytes [0, 0] sample_key" 0] obtain c where
    c: "HASH_ADD True (key_bytes [0, 0] sample_key) (0 :: nat) None = Inr c" by blast
  from ut.add_Inr [OF h(1) _ c] have "hash_items c = [(key_bytes [0, 0] sample_key, 0)]" by (simp add: hash_items_def)
  moreover have "tcpflow_insert True True 0 0 st = Inr (st\<lparr>fl_cache := c\<rparr>)"
    using tcpflow_create_ok [OF flows_ok_init(1) st(1)] c st(3,4) by (simp add: tcpflow_insert_def flow_get_def)
  ultimately show ?thesis using st(1) tcpflow_insert_Inr [OF st(2)] by fastforce
qed

text \<open>
  C29: Judging a flow that is in the cache sends exactly one verdict, the given one, for every packet
  the flow holds, in the order of arrival, removes this flow and no other from the cache and frees it.
\<close>

theorem flow_judged:
  assumes "flows_ok pend st" and "a \<in> set (cached_flows st)" and "fl_heap st a = Some f"
  shows "\<exists>st'. tcpflow_setverdict_and_free True a v st = Inr st' \<and> flows_ok pend st'
     \<and> net st' = net st @ map (\<lambda>i. VERDICT i v) (flow_ids f)
     \<and> cached_flows st' = filter (\<lambda>x. x \<noteq> a) (cached_flows st) \<and> fl_heap st' a = None"
proof -
  from tcpflow_setverdict_and_free_eq [OF assms, of True v] obtain st' where
    "tcpflow_setverdict_and_free True a v st = Inr st'" "flows_ok pend st'"
    "hash_items (fl_cache st') = filter (\<lambda>p. snd p \<noteq> a) (hash_items (fl_cache st))"
    "fl_heap st' = (fl_heap st)(a := None)" "net st' = net st @ map (\<lambda>i. VERDICT i v) (flow_ids f)" by auto
  then show ?thesis by (auto simp: cached_flows_def filter_map comp_def)
qed

theorem flow_judged_witness:
  "\<exists>st st2 st3. tcpflow_create True sample_key 500 flow_init = (Some 0, st)
     \<and> tcpflow_insert True True 0 0 st = Inr st2 \<and> tcpflow_setverdict_and_free True 0 NF_ACCEPT st2 = Inr st3
     \<and> cached_flows st3 = []"
proof -
  from sample_inserted obtain st st2 where s: "tcpflow_create True sample_key 500 flow_init = (Some 0, st)"
    "tcpflow_insert True True 0 0 st = Inr st2" "flows_ok [] st2" "hash_items (fl_cache st2) = [(key_bytes [0, 0] sample_key, 0)]" by blast
  have c: "cached_flows st2 = [0]" by (simp add: cached_flows_def s(4))
  from flows_ok_alive [OF s(3)] c obtain f where "fl_heap st2 0 = Some f" by auto
  from flow_judged [OF s(3) _ this, of NF_ACCEPT] c s(1,2) show ?thesis by auto
qed

text \<open>
  C31: The time stamp of a flow is never set, so that a collection, which runs when the last one is
  more than a minute old, judges every flow as expired: right after the insertion of a new flow, if
  it completes and the clock has passed the first five seconds of its epoch, the
  cache is empty and every flow is freed, and all packets of all flows got the verdict to drop them, flow by flow in
  the order of the cache, those of the new flow last; no other verdict was sent.
\<close>

theorem gc_drops_all_flows:
  assumes ok: "flows_ok [a] st" and gc: "fl_last_gc st < now - 60" "5 < now"
    and r: "tcpflow_insert malloc_ok sendto_ok now a st = Inr st'"
  shows "fl_cache st' = None \<and> fl_heap st' = (\<lambda>_. None)
    \<and> net st' = net st @ map (\<lambda>i. VERDICT i NF_DROP) (held (cached_flows st @ [a]) st)"
proof -
  from tcpflow_insert_Inr [OF ok r] gc have k: "flows_ok [] st'" "fl_cache st' = None"
    "net st' = net st @ map (\<lambda>i. VERDICT i NF_DROP) (held (cached_flows st @ [a]) st)" by auto
  then have c: "cached_flows st' = []" by (simp add: cached_flows_def hash_items_def)
  have "dom (fl_heap st') = {}" using flows_okD(3) [OF k(1)] c by simp
  then have "fl_heap st' = (\<lambda>_. None)" by auto
  with k show ?thesis by simp
qed

theorem gc_drops_all_flows_witness:
  "\<exists>st st'. tcpflow_create True sample_key 500 flow_init = (Some 0, st)
     \<and> tcpflow_insert True True 100 0 st = Inr st' \<and> fl_cache st' = None \<and> fl_heap st' = (\<lambda>_. None)"
proof -
  from sample_flow obtain st where st: "tcpflow_create True sample_key 500 flow_init = (Some 0, st)"
    "flows_ok [0] st" "fl_cache st = None" "fl_last_gc st = 0" by blast
  have "hash_room (fl_cache st)" by (simp add: st(3) hash_room_def)
  from tcpflow_insert_total [OF st(2) this, of 100] obtain st' where i: "tcpflow_insert True True 100 0 st = Inr st'" by blast
  from gc_drops_all_flows [OF st(2) _ _ i] st(1,4) i show ?thesis by auto
qed

text \<open>
  A lookup finds the flow of a connection only when the two padding bytes of the key on the
  caller's stack happen to be zero; with any other padding no flow is ever found.
\<close>

theorem lookup_depends_on_padding:
  assumes ok: "flows_ok [] st" and m: "(key_bytes [0, 0] key, a) \<in> set (hash_items (fl_cache st))"
  shows "(\<exists>b. tcpflow_lookup pad key st = Inr (Some b)) \<longleftrightarrow> pad = [0, 0]"
proof
  assume "\<exists>b. tcpflow_lookup pad key st = Inr (Some b)"
  then show "pad = [0, 0]" using tcpflow_lookup_Some [OF ok] by blast
next
  assume p: "pad = [0, 0]"
  from ut.look_correct [OF flows_okD(1) [OF ok], of "key_bytes [0, 0] key"] m
  show "\<exists>b. tcpflow_lookup pad key st = Inr (Some b)" by (force simp: tcpflow_lookup_def p split: option.splits)
qed

theorem lookup_depends_on_padding_witness:
  "\<exists>st st2. tcpflow_create True sample_key 500 flow_init = (Some 0, st) \<and> tcpflow_insert True True 0 0 st = Inr st2
     \<and> (\<exists>b. tcpflow_lookup [0, 0] sample_key st2 = Inr (Some b)) \<and> \<not> (\<exists>b. tcpflow_lookup [0, 1] sample_key st2 = Inr (Some b))"
proof -
  from sample_inserted obtain st st2 where s: "tcpflow_create True sample_key 500 flow_init = (Some 0, st)"
    "tcpflow_insert True True 0 0 st = Inr st2" "flows_ok [] st2" "hash_items (fl_cache st2) = [(key_bytes [0, 0] sample_key, 0)]" by blast
  have "(key_bytes [0, 0] sample_key, 0) \<in> set (hash_items (fl_cache st2))" by (simp add: s(4))
  from lookup_depends_on_padding [OF s(3) this, of "[0, 0]"] lookup_depends_on_padding [OF s(3) this, of "[0, 1]"] s(1,2)
  show ?thesis by auto
qed

end
