(* ===== verification/Check.thy ===== *)
theory Check
  imports Access_Rules Domain_Lookup Uwebfilterlog Tcpflow
begin

text \<open>
  \<open>check.c\<close>: the decision on one request, and its record in the access log.  The state of the whole
  daemon is gathered in \<open>daemon\<close> (the static variables of all components, the packets sent and the
  messages the packet handlers log), and what the outside world answers while one packet is handled
  in \<open>packet_env\<close>.

  \<open>access_check\<close> proves the decision from the contract \<open>config_rules\<close> of the configuration;
  the properties state the decision table on a loaded document, that the first access to a name is
  decided without its category, and that every decision is logged once.
\<close>

definition BLOCKTYPE_NONE :: int where "BLOCKTYPE_NONE = 0"
definition BLOCKTYPE_APPLICATION :: int where "BLOCKTYPE_APPLICATION = 1"
definition BLOCKTYPE_CATEGORY :: int where "BLOCKTYPE_CATEGORY = 2"
definition BLOCKTYPE_USER_BLACKLIST :: int where "BLOCKTYPE_USER_BLACKLIST = 3"
definition BLOCKTYPE_USER_WHITELIST :: int where "BLOCKTYPE_USER_WHITELIST = 4"

lemmas blocktype_defs = BLOCKTYPE_NONE_def BLOCKTYPE_APPLICATION_def BLOCKTYPE_CATEGORY_def
  BLOCKTYPE_USER_BLACKLIST_def BLOCKTYPE_USER_WHITELIST_def

record daemon =
  dm_config :: config
  dm_lookup :: lookup_state
  dm_log :: log_state
  dm_flows :: flow_state
  dm_msgs :: "log_call list"

record packet_env =
  pe_lookup :: lookup_env
  pe_log :: log_env
  pe_logtime :: int                    \<comment> \<open>\<open>time (NULL)\<close> in \<open>check_access\<close>\<close>
  pe_raw :: raw_env
  pe_sendto :: bool                    \<comment> \<open>whether netlink messages can be sent\<close>
  pe_calloc :: bool                    \<comment> \<open>whether a flow can be allocated\<close>
  pe_malloc :: bool                    \<comment> \<open>whether the flow table can grow\<close>
  pe_flow_now :: int                   \<comment> \<open>\<open>time (NULL)\<close> in \<open>tcpflow_insert\<close>\<close>
  pe_pad :: "byte list"                \<comment> \<open>the padding bytes of the key on the stack\<close>
  pe_domain_ptr :: int                 \<comment> \<open>the address of the domain, converted to \<open>int\<close>\<close>

definition dm_logger :: "logger_loglevel_t \<Rightarrow> byte list \<Rightarrow> daemon \<Rightarrow> daemon" where
  "dm_logger level msg st = st\<lparr>dm_msgs := dm_msgs st @ [(level, msg)]\<rparr>"

definition dm_net :: "daemon \<Rightarrow> net_event list" where
  "dm_net st = net (dm_flows st)"

definition dm_set_net :: "net_event list \<Rightarrow> daemon \<Rightarrow> daemon" where
  "dm_set_net out st = st\<lparr>dm_flows := (dm_flows st)\<lparr>net := out\<rparr>\<rparr>"

text \<open>The state in which the static variables and the constructors leave the daemon.\<close>

definition daemon_init :: "config \<Rightarrow> daemon" where
  "daemon_init cfg = \<lparr>dm_config = cfg, dm_lookup = domain_info_arena_init, dm_log = logbuffer_init,
     dm_flows = flow_init, dm_msgs = []\<rparr>"

subsection \<open>The decision\<close>

text \<open>The tests of \<open>check_access\<close> in their order, with the block type each leaves behind.\<close>

definition access_decision :: "config \<Rightarrow> domain_response \<Rightarrow> byte list \<Rightarrow> (bool \<times> int) result" where
  "access_decision cfg resp domain =
     rbind (rbind (config_is_application_blocked cfg (rs_application resp)) (\<lambda>b.
              Inr (\<not> b, BLOCKTYPE_APPLICATION))) (\<lambda>r1.
     rbind (if fst r1
            then rbind (config_is_category_blocked cfg (rs_category resp)) (\<lambda>b. Inr (\<not> b, BLOCKTYPE_CATEGORY))
            else Inr r1) (\<lambda>r2.
     rbind (if fst r2
            then rbind (config_is_domain_blacklisted cfg domain) (\<lambda>b. Inr (\<not> b, BLOCKTYPE_USER_BLACKLIST))
            else Inr r2) (\<lambda>r3.
     let r4 = (if fst r3 then (fst r3, BLOCKTYPE_NONE) else r3)
     in if \<not> fst r4
        then rbind (config_is_domain_whitelisted cfg domain) (\<lambda>w.
               Inr (w, if w then BLOCKTYPE_USER_WHITELIST else snd r4))
        else Inr r4)))"

definition check_access ::
    "('j, 't) json_c \<Rightarrow> packet_env \<Rightarrow> uwebfilterlog \<Rightarrow> byte list \<Rightarrow> daemon
      \<Rightarrow> (verdict \<times> uwebfilterlog \<times> daemon) result" where
  "check_access J E u iphdr st =
     rbind (ip_saddr iphdr) (\<lambda>saddr.
     rbind (ipaddr_uint32_to_string (ul_srcip u) saddr) (\<lambda>srcip.
     rbind (ip_daddr iphdr) (\<lambda>daddr.
     rbind (ipaddr_uint32_to_string (ul_dstip u) daddr) (\<lambda>dstip.
     rbind (domain_lookup J (pe_lookup E) (dm_config st) (ul_domain u) \<lparr>rs_category = 0, rs_application = 0\<rparr>
              (dm_lookup st)) (\<lambda>(resp, lk).
     rbind (access_decision (dm_config st) resp (ul_domain u)) (\<lambda>(access_granted, blocktype).
       let u = u\<lparr>ul_srcip := srcip, ul_dstip := dstip, ul_category := rs_category resp,
                 ul_application := rs_application resp, ul_blocktype := blocktype, ul_logtime := pe_logtime E,
                 ul_action := Some (cmem (bytes (if access_granted then ''allow'' else ''block'')))\<rparr>
       in rbind (uwebfilterlog_write J (pe_log E) (dm_config st) u (dm_log st)) (\<lambda>lg.
          rbind (uwebfilterlog_print u lg) (\<lambda>lg.
            Inr (if access_granted then NF_ACCEPT else NF_DROP, u,
                 st\<lparr>dm_lookup := lk, dm_log := lg\<rparr>)))))))))"

subsection \<open>The decision from the contract of the configuration\<close>

text \<open>What the decision means: the first rule that blocks, unless the whitelist overrides it.\<close>

definition blocking_rule :: "bool \<Rightarrow> bool \<Rightarrow> bool \<Rightarrow> int option" where
  "blocking_rule app cat black = (if app then Some 1 else if cat then Some 2 else if black then Some 3 else None)"

definition access_policy :: "bool \<Rightarrow> bool \<Rightarrow> bool \<Rightarrow> bool \<Rightarrow> bool \<times> int" where
  "access_policy app cat black white =
    (case blocking_rule app cat black of None \<Rightarrow> (True, 0) | Some b \<Rightarrow> if white then (True, 4) else (False, b))"

lemma access_policy_granted: "fst (access_policy app cat black white) \<longleftrightarrow> white \<or> \<not> (app \<or> cat \<or> black)"
  by (simp add: access_policy_def blocking_rule_def)

locale access_check = config_rules +
  fixes decide :: "'a \<Rightarrow> domain_response \<Rightarrow> byte list \<Rightarrow> (bool \<times> int) result"
  assumes decide_eq: "decide c r d =
     rbind (app_blocked c (rs_application r)) (\<lambda>a.
     rbind (if a then Inr True else cat_blocked c (rs_category r)) (\<lambda>k.
     rbind (if a \<or> k then Inr True else blacklisted c d) (\<lambda>b.
     if \<not> b then Inr (True, 0)
     else rbind (whitelisted c d) (\<lambda>w. Inr (w, if w then 4 else if a then 1 else if k then 2 else 3)))))"
begin

lemma decide_policy:
  assumes "invar c" and "terminated d"
  shows "decide c r d = Inr (access_policy (rs_application r \<in> apps c) (rs_category r \<in> cats c)
     (listed_in (black c) (cstr d)) (listed_in (white c) (cstr d)))"
  using assms
  by (simp add: decide_eq app_query cat_query black_query white_query access_policy_def blocking_rule_def)

end

interpretation ac: access_check config_ok config_is_application_blocked config_is_category_blocked
  config_is_domain_blacklisted config_is_domain_whitelisted
  blocked_applications blocked_categories blacklist whitelist access_decision
proof unfold_locales
  fix c r d
  show "access_decision c r d =
     rbind (config_is_application_blocked c (rs_application r)) (\<lambda>a.
     rbind (if a then Inr True else config_is_category_blocked c (rs_category r)) (\<lambda>k.
     rbind (if a \<or> k then Inr True else config_is_domain_blacklisted c d) (\<lambda>b.
     if \<not> b then Inr (True, 0)
     else rbind (config_is_domain_whitelisted c d) (\<lambda>w. Inr (w, if w then 4 else if a then 1 else if k then 2 else 3)))))"
    by (cases "config_is_application_blocked c (rs_application r)"; cases "config_is_category_blocked c (rs_category r)";
        cases "config_is_domain_blacklisted c d"; cases "config_is_domain_whitelisted c d")
       (simp_all add: access_decision_def blocktype_defs)
qed

subsection \<open>What a decision changes\<close>

definition record_ok :: "uwebfilterlog \<Rightarrow> bool" where
  "record_ok u \<longleftrightarrow> length (ul_srcip u) = 16 \<and> length (ul_dstip u) = 16 \<and> length (ul_domain u) = 256
     \<and> length (ul_path u) = 1024"

lemma record_ok_zero: "record_ok uwebfilterlog_zero"
  by (simp add: record_ok_def uwebfilterlog_zero_def IPADDR_LENGTH_def DOMAIN_LENGTH_def PATH_LENGTH_def)

lemma print_Inr: "uwebfilterlog_print u st = Inr st' \<Longrightarrow> \<exists>out. st' = st\<lparr>stdout := out\<rparr>"
  by (auto simp: uwebfilterlog_print_def result_simps)

lemma log_ok_stdout [simp]: "log_ok (st\<lparr>stdout := out\<rparr>) = log_ok st" "sent_payloads (st\<lparr>stdout := out\<rparr>) = sent_payloads st"
  by (simp_all add: log_ok_def header_ok_def sent_payloads_def)

text \<open>The response used and the record written by a completed \<open>check_access\<close>.\<close>

lemma check_access_steps:
  assumes "check_access J E u iphdr st = Inr (v, u', st')"
  obtains resp lk granted bt lg1 lg2 where
    "domain_lookup J (pe_lookup E) (dm_config st) (ul_domain u) \<lparr>rs_category = 0, rs_application = 0\<rparr> (dm_lookup st)
      = Inr (resp, lk)"
    "access_decision (dm_config st) resp (ul_domain u) = Inr (granted, bt)"
    "uwebfilterlog_write J (pe_log E) (dm_config st) u' (dm_log st) = Inr lg1" "uwebfilterlog_print u' lg1 = Inr lg2"
    "v = (if granted then NF_ACCEPT else NF_DROP)" "st' = st\<lparr>dm_lookup := lk, dm_log := lg2\<rparr>"
    "ul_domain u' = ul_domain u" "ul_path u' = ul_path u" "ul_proto u' = ul_proto u"
    "ul_srcport u' = ul_srcport u" "ul_dstport u' = ul_dstport u"
    "ul_category u' = rs_category resp" "ul_application u' = rs_application resp" "ul_blocktype u' = bt"
    "ul_logtime u' = pe_logtime E" "ul_action u' = Some (cmem (bytes (if granted then ''allow'' else ''block'')))"
  using assms by (auto simp: check_access_def result_simps Let_def)

lemma check_access_addresses:
  assumes "check_access J E u iphdr st = Inr (v, u', st')"
  obtains saddr daddr where "ip_saddr iphdr = Inr saddr" "ip_daddr iphdr = Inr daddr"
    "ipaddr_uint32_to_string (ul_srcip u) saddr = Inr (ul_srcip u')" "ipaddr_uint32_to_string (ul_dstip u) daddr = Inr (ul_dstip u')"
  using assms by (auto simp: check_access_def result_simps Let_def)

lemma check_access_Inr:
  assumes r: "check_access J E u iphdr st = Inr (v, u', st')"
    and lk: "lookup_ok [] (dm_lookup st)" and lg: "log_ok (dm_log st)"
  shows "lookup_ok [] (dm_lookup st') \<and> log_ok (dm_log st') \<and> dm_flows st' = dm_flows st
     \<and> dm_config st' = dm_config st \<and> dm_msgs st' = dm_msgs st
     \<and> (\<exists>d. uwebfilterlog_to_json_object u' = Inr d \<and> (if flush_due u' (dm_log st)
          then lb_array (dm_log st') = [] \<and> sent_payloads (dm_log st') = sent_payloads (dm_log st)
                 @ [le_to_string (pe_log E) (batch_doc (lb_array (dm_log st) @ [d]))]
          else lb_array (dm_log st') = lb_array (dm_log st) @ [d] \<and> sent_payloads (dm_log st') = sent_payloads (dm_log st)))
     \<and> (\<exists>row. log_row u' = Inr row \<and> db_rows (dm_log st') = db_rows (dm_log st) @ (if le_step_ok (pe_log E) then [row] else []))"
  using r
proof (rule check_access_steps)
  fix resp lk1 granted bt lg1 lg2
  assume l: "domain_lookup J (pe_lookup E) (dm_config st) (ul_domain u) \<lparr>rs_category = 0, rs_application = 0\<rparr> (dm_lookup st)
      = Inr (resp, lk1)"
    and w: "uwebfilterlog_write J (pe_log E) (dm_config st) u' (dm_log st) = Inr lg1" and p: "uwebfilterlog_print u' lg1 = Inr lg2"
    and st': "st' = st\<lparr>dm_lookup := lk1, dm_log := lg2\<rparr>"
  from print_Inr [OF p] obtain out where "lg2 = lg1\<lparr>stdout := out\<rparr>" by blast
  with domain_lookup_ok [OF lk l] uwebfilterlog_write_Inr [OF lg w] st' show ?thesis by auto
qed

lemma lookup_terminated: "domain_lookup J E cfg d resp st = Inr r \<Longrightarrow> terminated d"
  using dl.search_unterminated by (fastforce simp: domain_lookup_def result_simps)

lemma check_access_policy:
  assumes r: "check_access J E u iphdr st = Inr (v, u', st')" and c: "config_ok (dm_config st)"
  shows "(v = NF_ACCEPT, ul_blocktype u') =
     access_policy (ul_application u' \<in> blocked_applications (dm_config st)) (ul_category u' \<in> blocked_categories (dm_config st))
       (listed_in (blacklist (dm_config st)) (cstr (ul_domain u))) (listed_in (whitelist (dm_config st)) (cstr (ul_domain u)))"
  using r
proof (rule check_access_steps)
  fix resp lk granted bt
  assume l: "domain_lookup J (pe_lookup E) (dm_config st) (ul_domain u) \<lparr>rs_category = 0, rs_application = 0\<rparr> (dm_lookup st)
      = Inr (resp, lk)"
    and d: "access_decision (dm_config st) resp (ul_domain u) = Inr (granted, bt)"
    and u: "ul_category u' = rs_category resp" "ul_application u' = rs_application resp" "ul_blocktype u' = bt"
    and v: "v = (if granted then NF_ACCEPT else NF_DROP)"
  from d show ?thesis unfolding ac.decide_policy [OF c lookup_terminated [OF l]] by (simp add: u v)
qed

lemma check_access_granted:
  assumes "check_access J E u iphdr st = Inr (v, u', st')" and "config_ok (dm_config st)"
  shows "v = NF_ACCEPT \<longleftrightarrow> listed_in (whitelist (dm_config st)) (cstr (ul_domain u))
     \<or> \<not> (ul_application u' \<in> blocked_applications (dm_config st) \<or> ul_category u' \<in> blocked_categories (dm_config st)
          \<or> listed_in (blacklist (dm_config st)) (cstr (ul_domain u)))"
  using arg_cong [OF check_access_policy [OF assms], of fst] by (simp only: fst_conv access_policy_granted)

subsection \<open>Totality\<close>

lemma write_total_no_flush:
  assumes "log_strings_ok u" and "\<not> flush_due u st"
  shows "\<exists>st'. uwebfilterlog_write J E cfg u st = Inr st'"
  using assms
  by (auto simp: uwebfilterlog_write_def uwebfilterlog_insert_def uwebfilterlog_sendto_cloud_def log_strings_ok_def
      log_row_def bind_text_def uwebfilterlog_to_json_object_def json_new_string_def optional_field_def c_str_Inr
      flush_due_def LOGBUFFER_INTERVAL_def LOGBUFFER_MAXSIZE_def Let_def)

text \<open>The record of a handled request: the buffers have their sizes and hold terminated strings.\<close>

definition request_ok :: "uwebfilterlog \<Rightarrow> bool" where
  "request_ok u \<longleftrightarrow> record_ok u \<and> terminated (ul_domain u) \<and> terminated (ul_path u)
     \<and> (\<exists>p. ul_proto u = Some p \<and> terminated p)"

text \<open>The cloud server is not due, or it can be used.\<close>

definition cloud_ready :: "('j, 't) json_c \<Rightarrow> packet_env \<Rightarrow> daemon \<Rightarrow> bool" where
  "cloud_ready J E st \<longleftrightarrow>
     (lb_last_send (dm_log st) + 30 \<ge> pe_logtime E \<and> length (lb_array (dm_log st)) + 1 < 4096)
     \<or> (log_ok (dm_log st) \<and> cloud_config_ok (dm_config st) \<and> tokens_ok J)"

lemma check_access_total:
  assumes l: "domain_lookup J (pe_lookup E) (dm_config st) (ul_domain u) \<lparr>rs_category = 0, rs_application = 0\<rparr>
      (dm_lookup st) = Inr (resp, lk)"
    and c: "config_ok (dm_config st)" and u: "request_ok u" and p: "20 \<le> length iphdr" and k: "cloud_ready J E st"
  shows "\<exists>v u' st'. check_access J E u iphdr st = Inr (v, u', st')"
proof -
  obtain sa where sa: "ip_saddr iphdr = Inr sa" using p by (simp add: ip_saddr_def rd32le_ok)
  obtain da where da: "ip_daddr iphdr = Inr da" using p by (simp add: ip_daddr_def rd32le_ok)
  have len: "length (ul_srcip u) = 16" "length (ul_dstip u) = 16" using u by (simp_all add: request_ok_def record_ok_def)
  obtain src where src: "ipaddr_uint32_to_string (ul_srcip u) sa = Inr src" "terminated src"
    using ipaddr_text_at [OF len(1)] by simp
  obtain dst where dst: "ipaddr_uint32_to_string (ul_dstip u) da = Inr dst" "terminated dst"
    using ipaddr_text_at [OF len(2)] by simp
  obtain granted bt where d: "access_decision (dm_config st) resp (ul_domain u) = Inr (granted, bt)"
    using ac.decide_policy [OF c lookup_terminated [OF l]] by (cases "access_policy
      (rs_application resp \<in> blocked_applications (dm_config st)) (rs_category resp \<in> blocked_categories (dm_config st))
      (listed_in (blacklist (dm_config st)) (cstr (ul_domain u))) (listed_in (whitelist (dm_config st)) (cstr (ul_domain u)))") simp
  let ?u = "u\<lparr>ul_srcip := src, ul_dstip := dst, ul_category := rs_category resp,
      ul_application := rs_application resp, ul_blocktype := bt, ul_logtime := pe_logtime E,
      ul_action := Some (cmem (bytes (if granted then ''allow'' else ''block'')))\<rparr>"
  have s: "log_strings_ok ?u" using u src(2) dst(2) by (auto simp: log_strings_ok_def request_ok_def)
  have "\<exists>lg. uwebfilterlog_write J (pe_log E) (dm_config st) ?u (dm_log st) = Inr lg"
  proof (cases "flush_due ?u (dm_log st)")
    case False
    with write_total_no_flush [OF s] show ?thesis by blast
  next
    case True
    with k have "log_ok (dm_log st)" "cloud_config_ok (dm_config st)" "tokens_ok J"
      by (auto simp: cloud_ready_def flush_due_def)
    with uwebfilterlog_write_total [OF s] show ?thesis by blast
  qed
  then obtain lg where lg: "uwebfilterlog_write J (pe_log E) (dm_config st) ?u (dm_log st) = Inr lg" by blast
  from uwebfilterlog_print_total [OF s] obtain out where pr: "uwebfilterlog_print ?u lg = Inr (lg\<lparr>stdout := out\<rparr>)" by blast
  show ?thesis using sa src(1) da dst(1) l d lg pr unfolding check_access_def by (simp add: Let_def)
qed

subsection \<open>Properties\<close>

text \<open>
  C2: The access decision on a loaded configuration.  A request is accepted iff its domain matches the
  whitelist, or none of these holds: its application is listed, its category is listed, its domain
  matches the blacklist.  The block type logged names the first rule that applied (1 application,
  2 category, 3 blacklist), 4 when the whitelist overrode it, and 0 when no rule applied.
\<close>

theorem access_decision_table:
  assumes J: "json_strings_ok J" and E: "load_succeeds E0"
    and load: "config_load J E0 (Some r) config_init = Inr (dm_config st)"
    and run: "check_access J E u iphdr st = Inr (v, u', st')"
  defines "app \<equiv> ul_application u' \<in> set (json_ints_of J (json_object_object_get J r ''applications''))"
    and "cat \<equiv> ul_category u' \<in> set (json_ints_of J (json_object_object_get J r ''categories''))"
    and "black \<equiv> listed_in (config_trunc ` json_strings_of J (json_object_object_get J r ''domains_blacklist'')) (cstr (ul_domain u))"
    and "white \<equiv> listed_in (config_trunc ` json_strings_of J (json_object_object_get J r ''domains_whitelist'')) (cstr (ul_domain u))"
  shows "(v = NF_ACCEPT \<longleftrightarrow> white \<or> \<not> (app \<or> cat \<or> black))
    \<and> ul_blocktype u' = (if \<not> (app \<or> cat \<or> black) then 0 else if white then 4 else if app then 1 else if cat then 2 else 3)"
proof -
  note rules = config_load_rules [OF J E load]
  have "(v = NF_ACCEPT, ul_blocktype u') = access_policy app cat black white"
    using check_access_policy [OF run rules(1)] unfolding rules(2-5) app_def cat_def black_def white_def .
  then show ?thesis by (simp add: access_policy_def blocking_rule_def split: if_splits)
qed

text \<open>
  C15: Every completed decision writes exactly one log record, to both logs.  The record is the request's with the
  texts of the packet's addresses, the category and application the lookup of the domain returned, the block type
  the policy gives for them and the lists, the time, and the action that matches the verdict; protocol, domain, path
  and ports stay.  Its JSON object joins the waiting array, or leaves with it as the last record of the payload
  posted when the array is due; its row is added to the database if the insertion succeeds.  The flow cache (with it
  the network output) and the configuration are untouched.
\<close>

theorem access_logged_once:
  assumes lk: "lookup_ok [] (dm_lookup st)" and lg: "log_ok (dm_log st)" and c: "config_ok (dm_config st)"
    and run: "check_access J E u iphdr st = Inr (v, u', st')"
  defines "app \<equiv> ul_application u' \<in> blocked_applications (dm_config st)"
    and "cat \<equiv> ul_category u' \<in> blocked_categories (dm_config st)"
    and "black \<equiv> listed_in (blacklist (dm_config st)) (cstr (ul_domain u))"
    and "white \<equiv> listed_in (whitelist (dm_config st)) (cstr (ul_domain u))"
  shows "(\<exists>resp lk' saddr daddr. domain_lookup J (pe_lookup E) (dm_config st) (ul_domain u)
          \<lparr>rs_category = 0, rs_application = 0\<rparr> (dm_lookup st) = Inr (resp, lk')
        \<and> ul_category u' = rs_category resp \<and> ul_application u' = rs_application resp
        \<and> ip_saddr iphdr = Inr saddr \<and> ipaddr_uint32_to_string (ul_srcip u) saddr = Inr (ul_srcip u')
        \<and> ip_daddr iphdr = Inr daddr \<and> ipaddr_uint32_to_string (ul_dstip u) daddr = Inr (ul_dstip u'))
    \<and> (v = NF_ACCEPT, ul_blocktype u') = access_policy app cat black white
    \<and> ul_action u' = Some (cmem (bytes (if v = NF_ACCEPT then ''allow'' else ''block''))) \<and> ul_logtime u' = pe_logtime E
    \<and> ul_proto u' = ul_proto u \<and> ul_domain u' = ul_domain u \<and> ul_path u' = ul_path u
    \<and> ul_srcport u' = ul_srcport u \<and> ul_dstport u' = ul_dstport u
    \<and> (\<exists>d. uwebfilterlog_to_json_object u' = Inr d \<and> (if flush_due u' (dm_log st)
         then lb_array (dm_log st') = [] \<and> sent_payloads (dm_log st') = sent_payloads (dm_log st)
                @ [le_to_string (pe_log E) (batch_doc (lb_array (dm_log st) @ [d]))]
         else lb_array (dm_log st') = lb_array (dm_log st) @ [d] \<and> sent_payloads (dm_log st') = sent_payloads (dm_log st)))
    \<and> (\<exists>row. log_row u' = Inr row
         \<and> db_rows (dm_log st') = db_rows (dm_log st) @ (if le_step_ok (pe_log E) then [row] else []))
    \<and> dm_flows st' = dm_flows st \<and> dm_config st' = dm_config st"
proof -
  from run obtain resp lk' where "domain_lookup J (pe_lookup E) (dm_config st) (ul_domain u)
      \<lparr>rs_category = 0, rs_application = 0\<rparr> (dm_lookup st) = Inr (resp, lk')"
    "ul_category u' = rs_category resp" "ul_application u' = rs_application resp"
    by (rule check_access_steps)
  moreover from run obtain saddr daddr where "ip_saddr iphdr = Inr saddr" "ip_daddr iphdr = Inr daddr"
    "ipaddr_uint32_to_string (ul_srcip u) saddr = Inr (ul_srcip u')" "ipaddr_uint32_to_string (ul_dstip u) daddr = Inr (ul_dstip u')"
    by (rule check_access_addresses)
  ultimately have r: "\<exists>resp lk' saddr daddr. domain_lookup J (pe_lookup E) (dm_config st) (ul_domain u)
          \<lparr>rs_category = 0, rs_application = 0\<rparr> (dm_lookup st) = Inr (resp, lk')
        \<and> ul_category u' = rs_category resp \<and> ul_application u' = rs_application resp
        \<and> ip_saddr iphdr = Inr saddr \<and> ipaddr_uint32_to_string (ul_srcip u) saddr = Inr (ul_srcip u')
        \<and> ip_daddr iphdr = Inr daddr \<and> ipaddr_uint32_to_string (ul_dstip u) daddr = Inr (ul_dstip u')" by blast
  have f: "ul_action u' = Some (cmem (bytes (if v = NF_ACCEPT then ''allow'' else ''block'')))" "ul_logtime u' = pe_logtime E"
    "ul_proto u' = ul_proto u" "ul_domain u' = ul_domain u" "ul_path u' = ul_path u" "ul_srcport u' = ul_srcport u"
    "ul_dstport u' = ul_dstport u"
    using run by (rule check_access_steps, simp)+
  note k = check_access_Inr [OF run lk lg]
  show ?thesis unfolding app_def cat_def black_def white_def
    using r f check_access_policy [OF run c] k by (intro conjI) blast+
qed



subsection \<open>Instances\<close>

definition sample_packet_env :: "int \<Rightarrow> bool \<Rightarrow> packet_env" where
  "sample_packet_env now ok = \<lparr>pe_lookup = sample_env now ok, pe_log = sample_log_env, pe_logtime = 10,
     pe_raw = \<lparr>socket_ok = True, setsockopt_ok = True, raw_sendto_ok = True\<rparr>, pe_sendto = True, pe_calloc = True,
     pe_malloc = True, pe_flow_now = 10, pe_pad = [0, 0], pe_domain_ptr = 0\<rparr>"

definition sample_request :: uwebfilterlog where
  "sample_request = uwebfilterlog_zero\<lparr>ul_proto := Some (cmem (bytes ''tcp'')),
     ul_domain := bytes ''a.com'' @ replicate 251 0\<rparr>"

definition sample_rules :: config where
  "sample_rules = config_init\<lparr>categories := Some [7], categories_length := 1\<rparr>"

lemma sample_name_no_zero: "0 \<notin> set (bytes ''a.com'')"
  by (simp add: bytes_def)

lemma sample_request_ok: "request_ok sample_request" "cstr (ul_domain sample_request) = bytes ''a.com''"
  "terminated (ul_domain sample_request)" "length (cstr (ul_domain sample_request)) < 256"
  using sample_name_no_zero
  by (simp_all add: sample_request_def request_ok_def record_ok_def uwebfilterlog_zero_def IPADDR_LENGTH_def PATH_LENGTH_def
      terminated_append_zeros terminated_zeros) (simp add: bytes_def)+

lemma sample_rules_ok: "config_ok sample_rules" "blocked_categories sample_rules = {7}" "blocked_applications sample_rules = {}"
  "blacklist sample_rules = {}" "whitelist sample_rules = {}" "terminated (serveraddr sample_rules)"
  by (simp_all add: config_ok_def sample_rules_def config_init_def array_ok_def uthash_ok_def blocked_categories_def
      blocked_applications_def array_set_def blacklist_def whitelist_def hash_items_def terminated_zeros SERVERADDR_LENGTH_def)

lemma sample_cloud_ready: "dm_log st = logbuffer_init \<Longrightarrow> cloud_ready J (sample_packet_env t ok) st"
  by (simp add: cloud_ready_def logbuffer_init_def sample_packet_env_def)

text \<open>A cache that knows the sample domain.\<close>

lemma sample_cache:
  obtains lk where "lookup_ok [] lk"
    "\<And>(J :: (json_val, unit) json_c) E cfg d resp. \<lbrakk>terminated d; cstr d = bytes ''a.com''; lk_now E < 1600\<rbrakk> \<Longrightarrow>
       domain_lookup J E cfg d resp lk = Inr (\<lparr>rs_category = 7, rs_application = 3\<rparr>, lk)"
proof -
  from sample_cached [of 1000 "\<lparr>rs_category = 0, rs_application = 0\<rparr>"] obtain lk p where lk: "lookup_ok [] lk" "hash_items (cache lk) = [(cstr sample_domain, p)]"
    "di_expire (arena lk p) = 1600" "di_category (arena lk p) = 7" "di_application (arena lk p) = 3"
    by (auto simp: to_s64_def)
  have n: "cstr sample_domain = bytes ''a.com''" using sample_name_no_zero by (simp add: sample_domain_def)
  have "domain_lookup J E cfg d resp lk = Inr (\<lparr>rs_category = 7, rs_application = 3\<rparr>, lk)"
    if "terminated d" "cstr d = bytes ''a.com''" "lk_now E < 1600" for J :: "(json_val, unit) json_c" and E cfg d resp
  proof -
    have "domain_info_cache_lookup (cache lk) d = Inr (Some p)"
      using cache_lookup_exact [OF _ that(1), of "cache lk"] lk(1,2) n that(2) by (auto simp: lookup_ok_def)
    with lk that(3) show ?thesis by (simp add: domain_lookup_def)
  qed
  with lk(1) that show ?thesis by blast
qed

theorem access_decision_table_witness:
  "\<exists>c st v u' st'. config_load (json_instance None) all_loads
      (Some (VObj [(''categories'', VArr [VInt 7])])) config_init = Inr c \<and> dm_config st = c
    \<and> check_access (json_instance None) (sample_packet_env 1001 True) sample_request (replicate 20 0) st = Inr (v, u', st')
    \<and> v = NF_DROP \<and> ul_blocktype u' = 2"
proof -
  let ?J = "json_instance None" and ?r = "VObj [(''categories'', VArr [VInt 7])]" and ?E = "sample_packet_env 1001 True"
  obtain b where b: "config_load_serveraddr ?J None config_init = Inr (config_init\<lparr>serveraddr := b\<rparr>)"
    using config_load_serveraddr_total [of config_init ?J None] by (auto simp: config_init_def)
  have "\<exists>c. config_load ?J all_loads (Some ?r) config_init = Inr c"
    using b by (simp add: config_load_def all_loads_def json_instance_def config_load_categories_correct
      config_load_applications_def config_load_domains_blacklist_def config_load_domains_whitelist_def
      config_load_cloudlogging_def Let_def)
  then obtain c where c: "config_load ?J all_loads (Some ?r) config_init = Inr c" by blast
  have ls: "load_succeeds all_loads" by (simp add: load_succeeds_def all_loads_def)
  note rules = config_load_rules [OF sample_strings_ok ls c]
  obtain lk where lk: "lookup_ok [] lk" "\<And>E cfg d resp. \<lbrakk>terminated d; cstr d = bytes ''a.com''; lk_now E < 1600\<rbrakk> \<Longrightarrow>
       domain_lookup ?J E cfg d resp lk = Inr (\<lparr>rs_category = 7, rs_application = 3\<rparr>, lk)" by (rule sample_cache) blast
  let ?st = "(daemon_init c)\<lparr>dm_lookup := lk\<rparr>"
  have now: "lk_now (pe_lookup ?E) < 1600" by (simp add: sample_packet_env_def sample_env_def)
  have hit: "domain_lookup ?J (pe_lookup ?E) (dm_config ?st) (ul_domain sample_request) \<lparr>rs_category = 0, rs_application = 0\<rparr>
      (dm_lookup ?st) = Inr (\<lparr>rs_category = 7, rs_application = 3\<rparr>, lk)"
    using lk(2) [OF sample_request_ok(3,2) now] by simp
  have "cloud_ready ?J ?E ?st" by (rule sample_cloud_ready) (simp add: daemon_init_def)
  from check_access_total [OF hit _ sample_request_ok(1) _ this, of "replicate 20 0"] rules(1) obtain v u' st' where
    run: "check_access ?J ?E sample_request (replicate 20 0) ?st = Inr (v, u', st')" by (auto simp: daemon_init_def)
  from run have cat: "ul_category u' = 7" "ul_application u' = 3"
    by (rule check_access_steps, use hit in auto)+
  have c': "config_load ?J all_loads (Some ?r) config_init = Inr (dm_config ?st)" using c by (simp add: daemon_init_def)
  have j: "json_ints_of ?J (json_object_object_get ?J ?r ''categories'') = [7]"
    "json_ints_of ?J (json_object_object_get ?J ?r ''applications'') = []"
    "json_strings_of ?J (json_object_object_get ?J ?r ''domains_blacklist'') = {}"
    "json_strings_of ?J (json_object_object_get ?J ?r ''domains_whitelist'') = {}"
    by (simp_all add: json_ints_of_def json_ints_def json_strings_of_def json_instance_def array_length_or_0_def
        int_of_size_def map_filter_def upt_rec)
  from access_decision_table [OF sample_strings_ok ls c' run] have "v = NF_DROP \<and> ul_blocktype u' = 2"
    by (cases v) (simp_all add: j cat listed_in_def)
  with c run show ?thesis by (intro exI [of _ c] exI [of _ ?st]) (simp add: daemon_init_def)
qed

text \<open>A request on a fresh daemon whose servers answer, with a category, an application and a token.\<close>

definition sample_json :: "(json_val, unit) json_c" where
  "sample_json = (json_instance (Some sample_reply))\<lparr>json_object_get_string := (\<lambda>_. Some (bytes ''t''))\<rparr>"

lemma sample_json_reply:
  "query_result sample_json (pe_lookup (sample_packet_env t True)) cfg d = Some sample_reply"
  "json_object_object_get sample_json sample_reply ''cache_domains'' = None"
  "reply_category sample_json sample_reply = 7" "reply_application sample_json sample_reply = 3"
  "reply_ttl sample_json sample_reply = 600" "tokens_ok sample_json"
  by (simp_all add: query_result_def sample_packet_env_def sample_env_def curl_write_cb_def json_instance_def sample_json_def
      sample_reply_def reply_category_def reply_application_def reply_ttl_def tokens_ok_def)

lemma sample_access:
  assumes "dm_config st = sample_rules" and "log_ok (dm_log st)" and u: "request_ok u" "20 \<le> length iphdr"
    and "domain_lookup sample_json (pe_lookup E) sample_rules (ul_domain u) \<lparr>rs_category = 0, rs_application = 0\<rparr>
      (dm_lookup st) = Inr (resp, lk)"
  shows "\<exists>v u' st'. check_access sample_json E u iphdr st = Inr (v, u', st')"
proof -
  have "cloud_config_ok sample_rules"
    by (simp add: cloud_config_ok_def config_get_cloudlogging_auth_def config_get_cloudlogging_addr_def terminated_zeros
      config_get_cloudlogging_user_def config_get_cloudlogging_pass_def sample_rules_def config_init_def SERVERADDR_LENGTH_def
      USERNAME_LENGTH_def PASSWORD_LENGTH_def)
  then have k: "cloud_ready sample_json E st" using assms sample_json_reply(6) by (simp add: cloud_ready_def)
  have l: "domain_lookup sample_json (pe_lookup E) (dm_config st) (ul_domain u) \<lparr>rs_category = 0, rs_application = 0\<rparr>
      (dm_lookup st) = Inr (resp, lk)" using assms by simp
  show ?thesis by (rule check_access_total [OF l _ u k]) (simp add: assms(1) sample_rules_ok(1))
qed

lemma sample_first_lookup:
  "\<exists>lk. domain_lookup sample_json (pe_lookup (sample_packet_env t True)) sample_rules (ul_domain sample_request)
     \<lparr>rs_category = 0, rs_application = 0\<rparr> domain_info_arena_init = Inr (\<lparr>rs_category = 0, rs_application = 0\<rparr>, lk)"
proof (rule first_lookup_total [OF lookup_ok_init sample_request_ok(3,4) sample_rules_ok(6)])
  show "hash_items (cache domain_info_arena_init) = []" by (simp add: domain_info_arena_init_def hash_items_def)
  show "lk_malloc (pe_lookup (sample_packet_env t True))" by (simp add: sample_packet_env_def sample_env_def)
qed (simp add: sample_json_reply)

lemma sample_first_access:
  "\<exists>v u' st'. check_access sample_json (sample_packet_env t True) sample_request (replicate 20 0)
     (daemon_init sample_rules) = Inr (v, u', st')"
  using sample_first_lookup [of t] log_ok_init
    sample_access [OF _ _ sample_request_ok(1), of "daemon_init sample_rules" "replicate 20 0" "sample_packet_env t True"]
  by (auto simp: daemon_init_def)

theorem access_logged_once_witness:
  "\<exists>v u' st' row. check_access sample_json (sample_packet_env 1000 True) sample_request (replicate 20 0)
       (daemon_init sample_rules) = Inr (v, u', st') \<and> log_row u' = Inr row \<and> db_rows (dm_log st') = [row]
     \<and> ul_domain u' = ul_domain sample_request"
proof -
  from sample_first_access obtain v u' st' where run: "check_access sample_json
      (sample_packet_env 1000 True) sample_request (replicate 20 0) (daemon_init sample_rules) = Inr (v, u', st')" by blast
  have "db_rows (dm_log (daemon_init sample_rules)) = []" "le_step_ok (pe_log (sample_packet_env 1000 True))"
    by (simp_all add: daemon_init_def logbuffer_init_def sample_packet_env_def sample_log_env_def)
  moreover have "lookup_ok [] (dm_lookup (daemon_init sample_rules))" "log_ok (dm_log (daemon_init sample_rules))"
    "config_ok (dm_config (daemon_init sample_rules))"
    using lookup_ok_init log_ok_init sample_rules_ok by (simp_all add: daemon_init_def)
  ultimately show ?thesis using access_logged_once [OF _ _ _ run] run by auto
qed



text \<open>A daemon that knows the category of the sample domain and blocks it.\<close>

lemma sample_blocked:
  obtains st where "dm_config st = sample_rules" "lookup_ok [] (dm_lookup st)" "log_ok (dm_log st)" "dm_flows st = flow_init"
    "\<And>u iphdr. \<lbrakk>request_ok u; cstr (ul_domain u) = bytes ''a.com''; 20 \<le> length iphdr\<rbrakk> \<Longrightarrow>
       \<exists>u' st'. check_access sample_json (sample_packet_env 1001 True) u iphdr st = Inr (NF_DROP, u', st')"
proof -
  let ?E = "sample_packet_env 1001 True"
  obtain lk where lk: "lookup_ok [] lk" "\<And>E cfg d resp. \<lbrakk>terminated d; cstr d = bytes ''a.com''; lk_now E < 1600\<rbrakk> \<Longrightarrow>
       domain_lookup sample_json E cfg d resp lk = Inr (\<lparr>rs_category = 7, rs_application = 3\<rparr>, lk)" by (rule sample_cache) blast
  let ?st = "(daemon_init sample_rules)\<lparr>dm_lookup := lk\<rparr>"
  have i: "dm_config ?st = sample_rules" "log_ok (dm_log ?st)" "dm_lookup ?st = lk" "dm_flows ?st = flow_init"
    using log_ok_init by (simp_all add: daemon_init_def)
  have now: "lk_now (pe_lookup ?E) < 1600" by (simp add: sample_packet_env_def sample_env_def)
  have "\<exists>u' st'. check_access sample_json ?E u iphdr ?st = Inr (NF_DROP, u', st')"
    if u: "request_ok u" "cstr (ul_domain u) = bytes ''a.com''" and p: "20 \<le> length iphdr" for u iphdr
  proof -
    have hit: "domain_lookup sample_json (pe_lookup ?E) sample_rules (ul_domain u) \<lparr>rs_category = 0, rs_application = 0\<rparr>
      (dm_lookup ?st) = Inr (\<lparr>rs_category = 7, rs_application = 3\<rparr>, lk)"
      using lk(2) [OF _ u(2) now] u(1) by (simp add: request_ok_def)
    from sample_access [OF i(1,2) u(1) p hit] obtain v u' st' where
      run: "check_access sample_json ?E u iphdr ?st = Inr (v, u', st')" by blast
    from run have "ul_category u' = 7" by (rule check_access_steps) (use hit i(1) in auto)
    with check_access_granted [OF run] have "v \<noteq> NF_ACCEPT" by (simp add: i(1) sample_rules_ok listed_in_def)
    with run show ?thesis by (cases v) auto
  qed
  with i lk(1) that show ?thesis by metis
qed

end
