(* ===== verification/Packet_Handler.thy ===== *)
theory Packet_Handler
  imports Block Check
begin

text \<open>
  What the packet handlers of \<open>udp53.c\<close>, \<open>tcp80.c\<close> and \<open>tcp443.c\<close> share.  \<open>daemon_ok\<close> collects the
  invariants of the components; \<open>dm_accounted\<close> is the multiset of the packets the daemon has judged
  or holds in a flow.

  \<open>packet_handler\<close> is the contract between the queue and a handler: a handler keeps the invariant, never
  judges a packet it was not given, never judges one twice and never forgets one it held.  A
  \<open>prompt_handler\<close> also accounts for the packet it was given.
\<close>

subsection \<open>The invariant of the daemon\<close>

definition daemon_ok :: "daemon \<Rightarrow> bool" where
  "daemon_ok st \<longleftrightarrow> config_ok (dm_config st) \<and> lookup_ok [] (dm_lookup st) \<and> log_ok (dm_log st)
     \<and> flows_ok [] (dm_flows st)"

definition dm_accounted :: "daemon \<Rightarrow> u32 multiset" where
  "dm_accounted st = accounted [] (dm_flows st)"

lemma daemon_ok_init: "config_ok cfg \<Longrightarrow> daemon_ok (daemon_init cfg)" "dm_accounted (daemon_init cfg) = {#}"
  using lookup_ok_init log_ok_init flows_ok_init by (simp_all add: daemon_ok_def daemon_init_def dm_accounted_def)

lemma flows_ok_net [simp]: "flows_ok pend (fl\<lparr>net := out\<rparr>) = flows_ok pend fl"
  by (simp add: flows_ok_def cached_flows_def)

lemma daemon_ok_net [simp]: "daemon_ok (dm_set_net out st) = daemon_ok st"
  by (simp add: daemon_ok_def dm_set_net_def)

lemma dm_accounted_net: "verdict_ids out = verdict_ids (dm_net st) @ ids \<Longrightarrow>
    dm_accounted (dm_set_net out st) = dm_accounted st + mset ids"
  by (simp add: dm_accounted_def dm_set_net_def dm_net_def accounted_def cached_flows_def held_def)

lemma dm_logger_simps [simp]:
  "daemon_ok (dm_logger l m st) = daemon_ok st" "dm_accounted (dm_logger l m st) = dm_accounted st"
  "dm_net (dm_logger l m st) = dm_net st" "dm_config (dm_logger l m st) = dm_config st"
  by (simp_all add: dm_logger_def daemon_ok_def dm_accounted_def dm_net_def)

lemma dm_set_net_simps [simp]: "dm_net (dm_set_net out st) = out" "dm_config (dm_set_net out st) = dm_config st"
  "dm_log (dm_set_net out st) = dm_log st" "dm_lookup (dm_set_net out st) = dm_lookup st"
  by (simp_all add: dm_net_def dm_set_net_def)

lemma check_access_ok:
  assumes "daemon_ok st" and "check_access J E u iphdr st = Inr (v, u', st')"
  shows "daemon_ok st' \<and> dm_accounted st' = dm_accounted st \<and> dm_net st' = dm_net st \<and> dm_config st' = dm_config st"
  using check_access_Inr [OF assms(2)] assms(1) by (simp add: daemon_ok_def dm_accounted_def dm_net_def)

lemma rst_verdicts: "tcp_rst_send R p out = Inr out' \<Longrightarrow> verdict_ids out' = verdict_ids out"
  by (auto simp: tcp_rst_send_def result_simps Let_def)

lemma dns_verdicts: "dns_answer_send R p out = Inr out' \<Longrightarrow> verdict_ids out' = verdict_ids out"
  by (auto simp: dns_answer_send_def result_simps Let_def)

subsection \<open>Sending a verdict\<close>

definition dm_verdict :: "packet_env \<Rightarrow> u32 \<Rightarrow> verdict \<Rightarrow> daemon \<Rightarrow> daemon result" where
  "dm_verdict E pid v st =
     rbind (nfq_send_verdict (pe_sendto E) pid v (dm_net st)) (\<lambda>out. Inr (dm_set_net out st))"

lemma dm_verdict_Inr: "dm_verdict E pid v st = Inr st' \<longleftrightarrow>
    pe_sendto E \<and> st' = dm_set_net (dm_net st @ [VERDICT pid v]) st"
  by (auto simp: dm_verdict_def result_simps nfq_send_verdict_Inr)

lemma dm_verdict_ok:
  assumes "dm_verdict E pid v st = Inr st'"
  shows "daemon_ok st' = daemon_ok st \<and> dm_accounted st' = add_mset pid (dm_accounted st) \<and> dm_config st' = dm_config st"
  using assms dm_accounted_net [of "dm_net st @ [VERDICT pid v]" st "[pid]"] by (simp add: dm_verdict_Inr)

subsection \<open>TCP packets\<close>

text \<open>The offset of the TCP payload in the packet, and its length by the IP header.\<close>

definition tcp_payload_length :: "u16 \<Rightarrow> nat \<Rightarrow> nat \<Rightarrow> u16" where
  "tcp_payload_length tot_len off ihl = tot_len - of_nat off - of_nat (ihl * 4)"

text \<open>The reset of a blocked connection, with the message in the log.\<close>

definition tcp_reset :: "packet_env \<Rightarrow> string \<Rightarrow> byte list \<Rightarrow> byte list \<Rightarrow> daemon \<Rightarrow> daemon result" where
  "tcp_reset E tag domain packet st =
     rbind (c_str domain) (\<lambda>name.
     let st = dm_logger LOGLEVEL_DEBUG (bytes tag @ name) st
     in rbind (tcp_rst_send (pe_raw E) packet (dm_net st)) (\<lambda>out. Inr (dm_set_net out st)))"

lemma tcp_reset_ok:
  assumes "tcp_reset E tag domain packet st = Inr st'"
  shows "daemon_ok st' = daemon_ok st \<and> dm_accounted st' = dm_accounted st \<and> dm_config st' = dm_config st"
proof -
  from assms obtain l m out where out: "tcp_rst_send (pe_raw E) packet (dm_net st) = Inr out"
    "st' = dm_set_net out (dm_logger l m st)"
    by (auto simp: tcp_reset_def result_simps Let_def)
  with dm_accounted_net [of out "dm_logger l m st" "[]"] rst_verdicts [OF out(1)] show ?thesis by simp
qed

lemma tcp_reset_verdicts: "tcp_reset E tag domain packet st = Inr st' \<Longrightarrow> verdicts (dm_net st') = verdicts (dm_net st)"
  by (auto simp: tcp_reset_def tcp_rst_send_def result_simps Let_def)

text \<open>The end of a request: the verdict of \<open>check_access\<close>, after a reset where it drops.\<close>

lemma judged_request_ok:
  assumes ok: "daemon_ok st" and c: "check_access J E u packet st = Inr (v, u', s1)"
    and r: "(if v = NF_DROP then tcp_reset E tag (ul_domain u') packet s1 else Inr s1) = Inr s2"
  shows "daemon_ok s2 \<and> dm_accounted s2 = dm_accounted st \<and> dm_config s2 = dm_config st"
  using check_access_ok [OF ok c] r by (auto dest!: tcp_reset_ok split: if_splits)

lemma tcp_reset_packet:
  assumes "ip_ihl packet = Inr ihl" and "ihl * 4 + 20 \<le> length packet" and "tcp_reset E tag domain packet st = Inr st'"
  shows "\<exists>c c2. dm_net st' = raw_send (pe_raw E) (rst_packet packet (ihl * 4) c c2)
      \<lparr>sin_port = take 2 (drop (ihl * 4) packet), sin_addr = take 4 (drop 12 packet)\<rparr> (dm_net st)"
proof -
  have "20 \<le> length packet" using assms(2) by simp
  from tcp_rst_send_packet [OF assms(1,2) this, of "pe_raw E" "dm_net st"] obtain c c2 where
    "tcp_rst_send (pe_raw E) packet (dm_net st) = Inr (raw_send (pe_raw E) (rst_packet packet (ihl * 4) c c2)
      \<lparr>sin_port = take 2 (drop (ihl * 4) packet), sin_addr = take 4 (drop 12 packet)\<rparr> (dm_net st))" by blast
  with assms(3) show ?thesis
    by (intro exI [of _ c] exI [of _ c2]) (auto simp: tcp_reset_def result_simps Let_def)
qed

text \<open>A reset can be sent whenever the packet has its headers and the domain is terminated.\<close>

lemma tcp_reset_total:
  assumes "ip_ihl packet = Inr ihl" and "ihl * 4 + 20 \<le> length packet" and "terminated domain"
  shows "\<exists>st'. tcp_reset E tag domain packet st = Inr st'"
proof -
  have "20 \<le> length packet" using assms(2) by simp
  from tcp_rst_send_packet [OF assms(1,2) this, of "pe_raw E" "dm_net st"] assms(3) show ?thesis
    by (auto simp: tcp_reset_def c_str_Inr Let_def)
qed

subsection \<open>The contract of a handler\<close>

locale packet_handler =
  fixes handle :: "packet_env \<Rightarrow> uwebfilterlog \<Rightarrow> packet_info \<Rightarrow> daemon \<Rightarrow> daemon result"
  assumes keeps_ok: "daemon_ok st \<Longrightarrow> handle E u pk st = Inr st' \<Longrightarrow> daemon_ok st' \<and> dm_config st' = dm_config st"
    and no_extra: "daemon_ok st \<Longrightarrow> handle E u pk st = Inr st' \<Longrightarrow>
      dm_accounted st' \<subseteq># add_mset (pk_id pk) (dm_accounted st)"
    and no_loss: "daemon_ok st \<Longrightarrow> handle E u pk st = Inr st' \<Longrightarrow> dm_accounted st \<subseteq># dm_accounted st'"
begin

text \<open>A sequence of packets: identifiers that are all different are judged at most once each.\<close>

lemma run_accounted:
  assumes "daemon_ok st" and "rfold (\<lambda>(E, u, pk). handle E u pk) xs st = Inr st'"
  shows "daemon_ok st' \<and> dm_config st' = dm_config st \<and> dm_accounted st \<subseteq># dm_accounted st'
    \<and> dm_accounted st' \<subseteq># dm_accounted st + mset (map (\<lambda>(E, u, pk). pk_id pk) xs)"
  using assms
proof (induction xs arbitrary: st)
  case Nil
  then show ?case by simp
next
  case (Cons x xs)
  obtain E u pk where x: "x = (E, u, pk)" by (cases x)
  from Cons.prems(2) obtain s where s: "handle E u pk st = Inr s" "rfold (\<lambda>(E, u, pk). handle E u pk) xs s = Inr st'"
    by (auto simp: x result_simps)
  from keeps_ok [OF Cons.prems(1) s(1)] Cons.IH [OF _ s(2)] have ih: "daemon_ok st'" "dm_config st' = dm_config st"
    "dm_accounted s \<subseteq># dm_accounted st'" "dm_accounted st' \<subseteq># dm_accounted s + mset (map (\<lambda>(E, u, pk). pk_id pk) xs)"
    by auto
  have "dm_accounted s + mset (map (\<lambda>(E, u, pk). pk_id pk) xs)
      \<subseteq># add_mset (pk_id pk) (dm_accounted st) + mset (map (\<lambda>(E, u, pk). pk_id pk) xs)"
    using no_extra [OF Cons.prems(1) s(1)] by (intro subset_mset.add_mono) simp_all
  with ih no_loss [OF Cons.prems(1) s(1)] show ?case by (auto simp: x intro: subset_mset.order_trans)
qed

end

locale prompt_handler = packet_handler +
  assumes prompt: "daemon_ok st \<Longrightarrow> handle E u pk st = Inr st' \<Longrightarrow>
      dm_accounted st' = add_mset (pk_id pk) (dm_accounted st)"

text \<open>It is enough to show that a handler keeps the invariant and accounts for its packet.\<close>

lemma prompt_handlerI:
  assumes "\<And>st E u pk st'. daemon_ok st \<Longrightarrow> handle E u pk st = Inr st' \<Longrightarrow>
      daemon_ok st' \<and> dm_accounted st' = add_mset (pk_id pk) (dm_accounted st) \<and> dm_config st' = dm_config st"
  shows "prompt_handler handle"
  by unfold_locales (use assms in \<open>auto dest!: assms\<close>)

end
