(* ===== verification/Udp53.thy ===== *)
theory Udp53
  imports Packet_Handler
begin

text \<open>
  \<open>udp53.c\<close>: DNS queries.  The name of the first question is written into the 256-byte domain of the
  log record, label by label with dots in between; the type is read from where it should be behind
  the name.  A blocked query is answered with a forged reply.  \<open>packet_length\<close> bounds the loop over the
  labels only; reads go as far as the receive buffer does.

  The lemmas show what the loop computes on a well-formed name and what it does to a name that does
  not fit, and that the handler is a \<open>prompt_handler\<close>.
\<close>

subsection \<open>The name of a question\<close>

function dns_labels :: "byte list \<Rightarrow> nat \<Rightarrow> nat \<Rightarrow> byte list \<Rightarrow> nat \<Rightarrow> byte list result" where
  "dns_labels question src question_end domain dst =
    (if src < question_end
     then rbind (rd8 question src) (\<lambda>label_len.
            if label_len = 0 then Inr domain
            else rbind (if dst \<noteq> 0 then wr8 domain dst 46 else Inr domain) (\<lambda>domain.
                 rbind (c_memcpy domain (if dst \<noteq> 0 then dst + 1 else dst) question (src + 1) (unat label_len)) (\<lambda>domain.
                   dns_labels question (src + 1 + unat label_len) question_end domain
                     ((if dst \<noteq> 0 then dst + 1 else dst) + unat label_len))))
     else Inr domain)"
  by pat_completeness auto
termination
  by (relation "measure (\<lambda>(q, src, e, d, dst). e - src)") auto

declare dns_labels.simps [simp del]

text \<open>The fields of \<open>struct dnshdr\<close> take 12 bytes, \<open>qdcount\<close> at offset 4.\<close>

definition extract_dns_domain :: "byte list \<Rightarrow> byte list \<Rightarrow> nat \<Rightarrow> (bool \<times> byte list) result" where
  "extract_dns_domain domain packet packet_length =
    (if packet_length < 12 then Inr (False, domain)
     else rbind (rd16be packet 4) (\<lambda>qdcount.
       if qdcount = 0 then Inr (False, domain)
       else let dns_question = drop 12 packet
            in rbind (dns_labels dns_question 0 (packet_length - 12) domain 0) (\<lambda>domain.
               rbind (c_strlen domain) (\<lambda>d_len.
               rbind (rd8 dns_question (d_len + 3)) (\<lambda>dns_type.
                 if 17 < dns_type
                 then if dns_type \<noteq> 65 \<and> dns_type \<noteq> 28 then Inr (False, domain) else Inr (True, domain)
                 else Inr (True, domain))))))"

definition packet_handle_udp53 ::
    "('j, 't) json_c \<Rightarrow> packet_env \<Rightarrow> uwebfilterlog \<Rightarrow> packet_info \<Rightarrow> daemon \<Rightarrow> daemon result" where
  "packet_handle_udp53 J E u pk st =
     (let packet = pk_payload pk in
      rbind (ip_ihl packet) (\<lambda>ihl.
      let payload = drop (ihl * 4 + 8) packet;
          payload_length = pk_length pk - of_nat (ihl * 4) - 8 :: u16
      in rbind (extract_dns_domain (ul_domain u) payload (unat payload_length)) (\<lambda>(found, domain).
         let u = u\<lparr>ul_domain := domain\<rparr>
         in if found
            then rbind (check_access J E u packet st) (\<lambda>(verdict, u, st).
                 rbind (if verdict = NF_DROP
                        then let st = dm_logger LOGLEVEL_DEBUG (bytes ''DNS Fake Response: '' @ show_int (pe_domain_ptr E)) st
                             in rbind (dns_answer_send (pe_raw E) packet (dm_net st)) (\<lambda>out. Inr (dm_set_net out st))
                        else Inr st) (dm_verdict E (pk_id pk) verdict))
            else dm_verdict E (pk_id pk) NF_ACCEPT st)))"

subsection \<open>The handler meets the contract\<close>

lemma packet_handle_udp53_ok:
  assumes ok: "daemon_ok st" and r: "packet_handle_udp53 J E u pk st = Inr st'"
  shows "daemon_ok st' \<and> dm_accounted st' = add_mset (pk_id pk) (dm_accounted st) \<and> dm_config st' = dm_config st"
proof -
  let ?p = "pk_payload pk"
  from r obtain ihl found domain where e: "ip_ihl ?p = Inr ihl"
    "extract_dns_domain (ul_domain u) (drop (ihl * 4 + 8) ?p) (unat (pk_length pk - of_nat (ihl * 4) - 8)) = Inr (found, domain)"
    by (auto simp: packet_handle_udp53_def result_simps Let_def)
  show ?thesis
  proof (cases found)
    case False
    with r e have "dm_verdict E (pk_id pk) NF_ACCEPT st = Inr st'" by (simp add: packet_handle_udp53_def)
    from dm_verdict_ok [OF this] ok show ?thesis by simp
  next
    case True
    let ?l = "dm_logger LOGLEVEL_DEBUG (bytes ''DNS Fake Response: '' @ show_int (pe_domain_ptr E))"
    from r e True obtain v u' s1 s2 where s1: "check_access J E (u\<lparr>ul_domain := domain\<rparr>) ?p st = Inr (v, u', s1)"
      and s2: "(if v = NF_DROP
           then let st = ?l s1 in rbind (dns_answer_send (pe_raw E) ?p (dm_net st)) (\<lambda>out. Inr (dm_set_net out st))
           else Inr s1) = Inr s2" and v: "dm_verdict E (pk_id pk) v s2 = Inr st'"
      by (auto simp: packet_handle_udp53_def result_simps Let_def)
    note c = check_access_ok [OF ok s1]
    have "daemon_ok s2 \<and> dm_accounted s2 = dm_accounted s1 \<and> dm_config s2 = dm_config s1"
      using s2 c dm_accounted_net [of _ "?l s1" "[]"] by (auto simp: result_simps dest: dns_verdicts split: if_splits)
    with dm_verdict_ok [OF v] c show ?thesis by simp
  qed
qed

interpretation udp: prompt_handler "packet_handle_udp53 J" for J
  by (rule prompt_handlerI) (rule packet_handle_udp53_ok)

subsection \<open>Well-formed names\<close>

definition label_ok :: "byte list \<Rightarrow> bool" where
  "label_ok l \<longleftrightarrow> l \<noteq> [] \<and> length l < 256 \<and> 0 \<notin> set l"

text \<open>A name on the wire, and as text.\<close>

definition wire_name :: "byte list list \<Rightarrow> byte list" where
  "wire_name ls = concat (map (\<lambda>l. of_nat (length l) # l) ls) @ [0]"

fun dotted :: "byte list list \<Rightarrow> byte list" where
  "dotted [] = []"
| "dotted [l] = l"
| "dotted (l # ls) = l @ 46 # dotted ls"

text \<open>The text after one more label, as the loop builds it.\<close>

definition add_label :: "byte list \<Rightarrow> byte list \<Rightarrow> byte list" where
  "add_label t l = (if t = [] then l else t @ 46 # l)"

lemma foldl_add_label: "t \<noteq> [] \<Longrightarrow> foldl add_label t ls = t @ concat (map (\<lambda>l. 46 # l) ls)"
  by (induction ls arbitrary: t) (simp_all add: add_label_def)

lemma dotted_Cons: "dotted (l # ls) = l @ concat (map (\<lambda>l. 46 # l) ls)"
  by (induction ls arbitrary: l) simp_all

lemma foldl_dotted: "list_all label_ok ls \<Longrightarrow> foldl add_label [] ls = dotted ls"
  by (cases ls) (simp_all add: add_label_def label_ok_def foldl_add_label dotted_Cons)

lemma length_foldl_label: "length t \<le> length (foldl add_label t ls)"
proof (induction ls arbitrary: t)
  case (Cons l ls)
  have "length t \<le> length (add_label t l)" by (simp add: add_label_def)
  with Cons [of "add_label t l"] show ?case by (simp only: foldl_Cons le_trans)
qed simp

lemma length_wire_name: "length (wire_name ls) = Suc (length (concat ls) + length ls)"
  by (induction ls) (simp_all add: wire_name_def)

lemma length_dotted: "ls \<noteq> [] \<Longrightarrow> Suc (length (dotted ls)) = length (concat ls) + length ls"
  by (induction ls rule: dotted.induct) simp_all

lemma dotted_no_zero: "list_all label_ok ls \<Longrightarrow> 0 \<notin> set (dotted ls)"
  by (induction ls rule: dotted.induct) (simp_all add: label_ok_def)

text \<open>One copy behind the text written so far.\<close>

lemma memcpy_behind:
  assumes "take k (drop off q) = l" and "length l = k" and "0 < k"
  shows "c_memcpy (t @ replicate n 0) (length t) q off k =
    (if k \<le> n then Inr ((t @ l) @ replicate (n - k) 0) else Inl OobWrite)"
proof -
  have "off + k \<le> length q" using assms by (auto simp: min_def split: if_splits)
  then have "mem_read q off k = Inr l" using assms(1) by (auto simp: mem_read_def)
  with assms(2) show ?thesis by (simp add: c_memcpy_def mem_write_def)
qed

abbreviation text_buffer :: "byte list \<Rightarrow> byte list" where
  "text_buffer t \<equiv> t @ replicate (256 - length t) 0"

text \<open>One iteration of the loop on a well-formed label.\<close>

lemma dns_labels_step:
  assumes l: "label_ok l" and q: "drop src q = of_nat (length l) # l @ r" and e: "src < e" and t: "length t \<le> 256"
  shows "dns_labels q src e (text_buffer t) (length t) =
    (if length (add_label t l) \<le> 256
     then dns_labels q (src + 1 + length l) e (text_buffer (add_label t l)) (length (add_label t l)) else Inl OobWrite)"
proof -
  have pos: "0 < length l" using l by (simp add: label_ok_def)
  have u1: "unat (of_nat (length l) :: byte) = length l"
    using l by (simp add: label_ok_def unsigned_of_nat take_bit_eq_mod)
  then have u: "unat (of_nat (length l) :: byte) = length l" "(of_nat (length l) :: byte) \<noteq> 0" using pos by auto
  have h: "rd8 q src = Inr (of_nat (length l))" by (rule drop_head [OF q])
  have d: "take (length l) (drop (src + 1) q) = l"
    using q by (metis append_eq_conv_conj drop_drop drop0 drop_Suc_Cons plus_1_eq_Suc add.commute)
  note c = memcpy_behind [OF d refl]
  show ?thesis
  proof (cases "t = []")
    case True
    with l e h u c [of "[]" 256] pos show ?thesis
      by (subst dns_labels.simps) (simp add: add_label_def label_ok_def)
  next
    case False
    show ?thesis
    proof (cases "length t = 256")
      case True
      with False e h u show ?thesis by (subst dns_labels.simps) (simp add: wr8_def add_label_def)
    next
      case neq: False
      then obtain m where m: "256 - length t = Suc m" using t by (cases "256 - length t") auto
      have w: "wr8 (text_buffer t) (length t) 46 = Inr ((t @ [46]) @ replicate m 0)"
        using t neq by (simp add: wr8_def m list_update_append)
      have "255 - length t = m" "length l \<le> m \<longleftrightarrow> Suc (length t + length l) \<le> 256"
        "256 - Suc (length t + length l) = m - length l" using m by arith+
      with w c [of "t @ [46]" m] pos False e h u show ?thesis
        by (subst dns_labels.simps) (simp add: add_label_def)
    qed
  qed
qed

lemma dns_labels_name:
  assumes "list_all label_ok ls" and "drop src q = wire_name ls @ r" and "src + length (wire_name ls) \<le> e" and "length t \<le> 256"
  shows "dns_labels q src e (text_buffer t) (length t) =
    (if length (foldl add_label t ls) \<le> 256 then Inr (text_buffer (foldl add_label t ls)) else Inl OobWrite)"
  using assms
proof (induction ls arbitrary: src t)
  case Nil
  then have "rd8 q src = Inr 0" "src < e" using drop_head [of src q 0 r] by (simp_all add: wire_name_def)
  with Nil show ?case by (subst dns_labels.simps) simp
next
  case (Cons l ls)
  have q: "drop src q = of_nat (length l) # l @ (wire_name ls @ r)" using Cons.prems(2) by (simp add: wire_name_def)
  then have q': "drop (src + 1 + length l) q = wire_name ls @ r"
    by (metis add.assoc add.commute append_eq_conv_conj drop_Suc_Cons drop_drop plus_1_eq_Suc)
  have e: "src < e" "src + 1 + length l + length (wire_name ls) \<le> e" using Cons.prems(3) by (simp_all add: length_wire_name)
  have l: "label_ok l" "list_all label_ok ls" using Cons.prems(1) by simp_all
  show ?case
  proof (cases "length (add_label t l) \<le> 256")
    case True
    with dns_labels_step [OF l(1) q e(1) Cons.prems(4)] Cons.IH [OF l(2) q' e(2) True] show ?thesis by simp
  next
    case False
    with dns_labels_step [OF l(1) q e(1) Cons.prems(4)] length_foldl_label [of "add_label t l" ls] show ?thesis by simp
  qed
qed

text \<open>The whole extraction, on a record with a zeroed domain.\<close>

lemma extract_dns_domain_name:
  assumes ls: "ls \<noteq> []" "list_all label_ok ls" and h: "length h = 12" "be16 (h ! 4) (h ! 5) \<noteq> 0"
    and n: "12 + length (wire_name ls) \<le> n"
  shows "extract_dns_domain (replicate 256 0) (h @ wire_name ls @ t1 # t2 # r) n =
    (if length (dotted ls) < 256
     then Inr (t2 \<le> 17 \<or> t2 = 65 \<or> t2 = 28, dotted ls @ replicate (256 - length (dotted ls)) 0)
     else Inl (if length (dotted ls) = 256 then OobRead else OobWrite))"
proof -
  let ?q = "wire_name ls @ t1 # t2 # r"
  have q: "drop 12 (h @ ?q) = ?q" using h(1) by simp
  have qd: "rd16be (h @ ?q) 4 = Inr (be16 (h ! 4) (h ! 5))"
    using h(1) by (simp add: rd16be_ok nth_append)
  have l: "dns_labels ?q 0 (n - 12) (replicate 256 0) 0 =
      (if length (dotted ls) \<le> 256 then Inr (text_buffer (dotted ls)) else Inl OobWrite)"
    using dns_labels_name [OF ls(2), of 0 ?q "t1 # t2 # r" "n - 12" "[]"] n foldl_dotted [OF ls(2)] by simp
  have z: "0 \<notin> set (dotted ls)" by (rule dotted_no_zero [OF ls(2)])
  have "length (dotted ls) + 3 = length (wire_name ls) + 1"
    using length_dotted [OF ls(1)] by (simp add: length_wire_name)
  then have ty: "rd8 ?q (length (dotted ls) + 3) = Inr t2" by (simp add: rd8_def nth_append)
  have st: "c_strlen (text_buffer (dotted ls)) = (if length (dotted ls) < 256 then Inr (length (dotted ls)) else Inl OobRead)"
    using z by (auto simp: c_strlen_def terminated_append_zeros)
  have ty17: "17 < t2 \<longleftrightarrow> \<not> t2 \<le> 17" by (simp add: not_le)
  show ?thesis
    using n h(2) qd q l st ty by (auto simp: extract_dns_domain_def Let_def ty17)
qed

text \<open>Reading a name back from its text.\<close>

fun split_dots :: "byte list \<Rightarrow> byte list list" where
  "split_dots [] = [[]]"
| "split_dots (b # bs) = (if b = 46 then [] # split_dots bs
     else case split_dots bs of [] \<Rightarrow> [[b]] | l # ls \<Rightarrow> (b # l) # ls)"

lemma split_dots_label: "46 \<notin> set l \<Longrightarrow> split_dots (l @ 46 # s) = l # split_dots s" "46 \<notin> set l \<Longrightarrow> split_dots l = [l]"
  by (induction l) simp_all

lemma split_dotted: "ls \<noteq> [] \<Longrightarrow> list_all (\<lambda>l. 46 \<notin> set l) ls \<Longrightarrow> split_dots (dotted ls) = ls"
  by (induction ls rule: dotted.induct) (simp_all add: split_dots_label)

subsection \<open>Properties\<close>

text \<open>
  C17: The question name of a DNS query is extracted faithfully: for any nonempty sequence of labels, each
  nonempty, of fewer than 256 bytes and without dots and NUL bytes, whose dotted text has at most 255
  characters, the domain becomes that text, terminated, and the labels can be read back from it, in a
  packet that holds the name and counts at least one question.  The query is examined iff the low byte
  of its type is at most 17, 28 or 65; the high byte is not read, so a type such as 257 is examined too.
\<close>

theorem dns_name_roundtrip:
  assumes "ls \<noteq> []" and "list_all label_ok ls" and "list_all (\<lambda>l. 46 \<notin> set l) ls" and "length (dotted ls) < 256"
    and "length h = 12" and "be16 (h ! 4) (h ! 5) \<noteq> 0" and "12 + length (wire_name ls) \<le> n"
  shows "\<exists>domain. extract_dns_domain (replicate 256 0) (h @ wire_name ls @ t1 # t2 # r) n =
      Inr (t2 \<le> 17 \<or> t2 = 65 \<or> t2 = 28, domain)
    \<and> terminated domain \<and> cstr domain = dotted ls \<and> split_dots (cstr domain) = ls"
  using extract_dns_domain_name [OF assms(1,2,5-7), of t1 t2 r] assms(4) dotted_no_zero [OF assms(2)]
    split_dotted [OF assms(1,3)] by (simp add: terminated_append_zeros)

theorem dns_name_roundtrip_witness:
  "\<exists>domain. extract_dns_domain (replicate 256 0)
       ([0, 7, 1, 0, 0, 1, 0, 0, 0, 0, 0, 0] @ wire_name [[97, 98], [99]] @ 0 # 1 # [0, 1]) 21 = Inr (True, domain)
     \<and> cstr domain = [97, 98, 46, 99]"
proof -
  have "be16 0 1 \<noteq> 0" by (simp add: be16_def)
  then show ?thesis
    using dns_name_roundtrip [of "[[97, 98], [99]]" "[0, 7, 1, 0, 0, 1, 0, 0, 0, 0, 0, 0]" 21 0 1 "[0, 1]"]
    by (auto simp: label_ok_def wire_name_def)
qed

text \<open>
  A question name whose text is longer than the 256-byte domain is written past its end; one of
  exactly 256 characters leaves the domain unterminated and \<open>strlen\<close> reads past it.  The loop checks
  neither the size of the domain nor the limit of 255 bytes that DNS sets for a name.
\<close>

theorem dns_long_name_faults:
  assumes "ls \<noteq> []" and "list_all label_ok ls" and "256 \<le> length (dotted ls)"
    and "length h = 12" and "be16 (h ! 4) (h ! 5) \<noteq> 0" and "12 + length (wire_name ls) \<le> n"
  shows "extract_dns_domain (replicate 256 0) (h @ wire_name ls @ t1 # t2 # r) n =
    Inl (if length (dotted ls) = 256 then OobRead else OobWrite)"
  using extract_dns_domain_name [OF assms(1,2,4-6), of t1 t2 r] assms(3) by simp

theorem dns_long_name_faults_witness:
  "extract_dns_domain (replicate 256 0) ([0, 7, 1, 0, 0, 1, 0, 0, 0, 0, 0, 0]
     @ wire_name [replicate 200 97, replicate 60 97] @ [0, 1, 0, 1]) 400 = Inl OobWrite"
proof -
  have "be16 0 1 \<noteq> 0" by (simp add: be16_def)
  then show ?thesis
    using dns_long_name_faults [of "[replicate 200 97, replicate 60 97]" "[0, 7, 1, 0, 0, 1, 0, 0, 0, 0, 0, 0]" 400 0 1 "[0, 1]"]
    by (simp add: label_ok_def length_wire_name)
qed

text \<open>A query packet with the name \<open>ls\<close>: the question starts behind the IP, UDP and DNS headers.\<close>

definition dns_query_packet :: "byte list \<Rightarrow> nat \<Rightarrow> byte list list \<Rightarrow> byte \<Rightarrow> bool" where
  "dns_query_packet packet ihl ls t2 \<longleftrightarrow> ip_ihl packet = Inr ihl \<and> ls \<noteq> [] \<and> list_all label_ok ls
     \<and> (\<exists>h t1 r. length h = 12 \<and> be16 (h ! 4) (h ! 5) \<noteq> 0 \<and> 2 \<le> length r
          \<and> drop (ihl * 4 + 8) packet = h @ wire_name ls @ t1 # t2 # r)"

lemma wire_name_cstr:
  assumes "list_all label_ok ls"
  shows "terminated (wire_name ls @ r)" "length (cstr (wire_name ls @ r)) + 1 = length (wire_name ls)"
proof -
  have nz: "0 \<notin> set (concat (map (\<lambda>l. of_nat (length l) # l) ls))"
    using assms
  proof (induction ls)
    case (Cons l ls)
    then have "unat (of_nat (length l) :: byte) = length l" by (simp add: label_ok_def unsigned_of_nat take_bit_eq_mod)
    with Cons show ?case by (auto simp: label_ok_def)
  qed simp
  then show "terminated (wire_name ls @ r)" "length (cstr (wire_name ls @ r)) + 1 = length (wire_name ls)"
    by (simp_all add: wire_name_def terminated_def)
qed

lemma dns_query_forged:
  assumes "dns_query_packet packet ihl ls t2" and "length (wire_name ls) \<le> 227"
  shows "\<exists>c. dns_answer_send R packet out = Inr (raw_send R (dns_reply packet (ihl * 4) (length (wire_name ls)) c)
       \<lparr>sin_port = take 2 (drop (ihl * 4) packet), sin_addr = take 4 (drop 12 packet)\<rparr> out)"
proof -
  from assms(1) obtain h t1 r where p: "ip_ihl packet = Inr ihl" "list_all label_ok ls" "length h = 12" "2 \<le> length r"
    "drop (ihl * 4 + 8) packet = h @ wire_name ls @ t1 # t2 # r" by (auto simp: dns_query_packet_def)
  have "drop (ihl * 4 + 20) packet = drop 12 (drop (ihl * 4 + 8) packet)" by (simp add: add.commute)
  then have q: "drop (ihl * 4 + 20) packet = wire_name ls @ t1 # t2 # r" using p(3,5) by simp
  have "length packet = ihl * 4 + 20 + length (drop (ihl * 4 + 20) packet)"
    using q by (metis append_is_Nil_conv drop_all le_add_diff_inverse length_drop list.distinct(1) nat_le_linear)
  then have "ihl * 4 + 24 + length (wire_name ls) \<le> length packet" using q p(4) by simp
  then show ?thesis
    using dns_answer_send_reply [OF p(1), of "length (wire_name ls)" R out] assms(2) wire_name_cstr [OF p(2), of "t1 # t2 # r"] q
    by auto
qed

lemma dns_query_extract:
  assumes q: "dns_query_packet (pk_payload pk) ihl ls t2" "t2 \<le> 17 \<or> t2 = 65 \<or> t2 = 28"
    and l: "length (wire_name ls) \<le> 227" "20 + length (wire_name ls) + ihl * 4 \<le> unat (pk_length pk)"
  shows "extract_dns_domain (replicate 256 0) (drop (ihl * 4 + 8) (pk_payload pk)) (unat (pk_length pk - of_nat (ihl * 4) - 8)) =
      Inr (True, dotted ls @ replicate (256 - length (dotted ls)) 0)" "ip_ihl (pk_payload pk) = Inr ihl"
    "length (dotted ls) < 256"
proof -
  let ?p = "pk_payload pk" and ?n = "pk_length pk - of_nat (ihl * 4) - 8"
  from q(1) obtain h t1 r where p: "ip_ihl ?p = Inr ihl" "ls \<noteq> []" "list_all label_ok ls" "length h = 12"
    "be16 (h ! 4) (h ! 5) \<noteq> 0" "drop (ihl * 4 + 8) ?p = h @ wire_name ls @ t1 # t2 # r" by (auto simp: dns_query_packet_def)
  show d: "length (dotted ls) < 256" using l(1) length_dotted [OF p(2)] by (simp add: length_wire_name)
  have "unat ?n = unat (pk_length pk) - ihl * 4 - 8"
  proof -
    have "ihl < 16" by (rule ip_ihl_bound [OF p(1)])
    then have i: "unat (of_nat (ihl * 4) :: u16) = ihl * 4" by (simp only: unsigned_of_nat take_bit_eq_mod of_nat_id) simp
    then have s: "unat (pk_length pk - of_nat (ihl * 4)) = unat (pk_length pk) - ihl * 4"
      using l(2) by (metis add_leD2 unat_sub word_le_nat_alt)
    then show ?thesis using l(2) unat_sub [of "8 :: u16" "pk_length pk - of_nat (ihl * 4)"] by (simp add: word_le_nat_alt)
  qed
  then have "12 + length (wire_name ls) \<le> unat ?n" using l(2) by simp
  from extract_dns_domain_name [OF p(2-5) this, of t1 t2 r] d q(2)
  show "extract_dns_domain (replicate 256 0) (drop (ihl * 4 + 8) ?p) (unat ?n) =
      Inr (True, dotted ls @ replicate (256 - length (dotted ls)) 0)" by (simp add: p(6))
  show "ip_ihl ?p = Inr ihl" by (rule p(1))
qed

text \<open>The verdict of a query whose name was extracted.\<close>

lemma dns_answer_verdicts: "dns_answer_send R p out = Inr out' \<Longrightarrow> verdicts out' = verdicts out"
  by (auto simp: dns_answer_send_def result_simps Let_def)

lemma packet_handle_udp53_verdict:
  assumes "ip_ihl (pk_payload pk) = Inr ihl"
    and "extract_dns_domain (ul_domain u) (drop (ihl * 4 + 8) (pk_payload pk)) (unat (pk_length pk - of_nat (ihl * 4) - 8)) = Inr (True, d)"
    and "packet_handle_udp53 J E u pk st = Inr st'"
  shows "\<exists>v u' s1. check_access J E (u\<lparr>ul_domain := d\<rparr>) (pk_payload pk) st = Inr (v, u', s1)
    \<and> verdicts (dm_net st') = verdicts (dm_net st) @ [(pk_id pk, v)]"
proof -
  let ?l = "dm_logger LOGLEVEL_DEBUG (bytes ''DNS Fake Response: '' @ show_int (pe_domain_ptr E))"
  from assms obtain v u' s1 s2 where c: "check_access J E (u\<lparr>ul_domain := d\<rparr>) (pk_payload pk) st = Inr (v, u', s1)"
    and r: "(if v = NF_DROP
           then let st = ?l s1 in rbind (dns_answer_send (pe_raw E) (pk_payload pk) (dm_net st)) (\<lambda>out. Inr (dm_set_net out st))
           else Inr s1) = Inr s2" and s2: "dm_verdict E (pk_id pk) v s2 = Inr st'"
    by (auto simp: packet_handle_udp53_def result_simps Let_def)
  have "verdicts (dm_net s2) = verdicts (dm_net s1)" using r by (auto simp: result_simps dest!: dns_answer_verdicts split: if_splits)
  moreover
  from c have "dm_net s1 = dm_net st" by (rule check_access_steps) (simp add: dm_net_def)
  ultimately show ?thesis using c s2 by (auto simp: dm_verdict_Inr)
qed

text \<open>
  C7: A DNS query of an examined type (by its low byte) is judged by the domain it asks for whenever the
  handler completes: the verdict sent for the packet is the one \<open>check_access\<close> gives for the dotted
  name, and when it is to drop the packet, one forged answer to the query goes out before the verdict
  (for names of at most 227 bytes on the wire).
\<close>

theorem dns_query_judged:
  assumes q: "dns_query_packet (pk_payload pk) ihl ls t2" "t2 \<le> 17 \<or> t2 = 65 \<or> t2 = 28"
    and l: "length (wire_name ls) \<le> 227" "20 + length (wire_name ls) + ihl * 4 \<le> unat (pk_length pk)"
    and u: "ul_domain u = replicate 256 0" and run: "packet_handle_udp53 J E u pk st = Inr st'"
  shows "\<exists>v u1 s1 c. check_access J E (u\<lparr>ul_domain := dotted ls @ replicate (256 - length (dotted ls)) 0\<rparr>)
        (pk_payload pk) st = Inr (v, u1, s1)
    \<and> dm_net st' = (if v = NF_DROP then raw_send (pe_raw E) (dns_reply (pk_payload pk) (ihl * 4) (length (wire_name ls)) c)
         \<lparr>sin_port = take 2 (drop (ihl * 4) (pk_payload pk)), sin_addr = take 4 (drop 12 (pk_payload pk))\<rparr> (dm_net s1)
        else dm_net s1) @ [VERDICT (pk_id pk) v]"
proof -
  let ?p = "pk_payload pk" and ?n = "pk_length pk - of_nat (ihl * 4) - 8"
  note x = dns_query_extract [OF q l]
  have e: "extract_dns_domain (ul_domain u) (drop (ihl * 4 + 8) ?p) (unat ?n) =
      Inr (True, dotted ls @ replicate (256 - length (dotted ls)) 0)" unfolding u by (rule x(1))
  from dns_query_forged [OF q(1) l(1), of "pe_raw E"]
  have f: "\<exists>c. dns_answer_send (pe_raw E) ?p out = Inr (raw_send (pe_raw E) (dns_reply ?p (ihl * 4) (length (wire_name ls)) c)
       \<lparr>sin_port = take 2 (drop (ihl * 4) ?p), sin_addr = take 4 (drop 12 ?p)\<rparr> out)" for out by blast
  from run x(2) e obtain v u1 s1 where c: "check_access J E (u\<lparr>ul_domain := dotted ls @ replicate (256 - length (dotted ls)) 0\<rparr>)
        ?p st = Inr (v, u1, s1)"
    by (auto simp: packet_handle_udp53_def result_simps Let_def)
  show ?thesis
    using run x(2) e c f [of "dm_net s1"]
    by (intro exI [of _ v] exI [of _ u1] exI [of _ s1]) (cases v; auto simp: packet_handle_udp53_def Let_def dm_verdict_Inr)
qed

definition sample_dns_query :: packet_info where
  "sample_dns_query = \<lparr>pk_id = 9, pk_payload = [0x45, 0, 0, 51, 0, 0, 0, 0, 64, 17, 0, 0, 10, 0, 0, 2, 8, 8, 8, 8,
     0x30, 0x39, 0, 53, 0, 31, 0, 0, 0xAB, 0xCD, 1, 0, 0, 1, 0, 0, 0, 0, 0, 0]
     @ wire_name [bytes ''a'', bytes ''com''] @ [0, 1, 0, 1], pk_length = 51\<rparr>"

lemma sample_dns_query_ok: "dns_query_packet (pk_payload sample_dns_query) 5 [bytes ''a'', bytes ''com''] 1"
proof -
  have "be16 0 1 \<noteq> 0" by (simp add: be16_def)
  then show ?thesis unfolding dns_query_packet_def
    by (intro conjI exI [of _ "[0xAB, 0xCD, 1, 0, 0, 1, 0, 0, 0, 0, 0, 0]"] exI [of _ 0] exI [of _ "[0, 1]"])
       (simp_all add: sample_dns_query_def ip_ihl_def rd8_def label_ok_def bytes_def)
qed

theorem dns_query_judged_witness:
  "\<exists>st st' c. packet_handle_udp53 sample_json (sample_packet_env 1001 True)
       (uwebfilterlog_zero\<lparr>ul_proto := Some (cmem (bytes ''udp''))\<rparr>) sample_dns_query st = Inr st'
    \<and> dm_net st' = [RAWSEND (dns_reply (pk_payload sample_dns_query) 20 7 c) \<lparr>sin_port = [0x30, 0x39], sin_addr = [10, 0, 0, 2]\<rparr>,
        VERDICT 9 NF_DROP]"
proof -
  let ?u = "uwebfilterlog_zero\<lparr>ul_proto := Some (cmem (bytes ''udp''))\<rparr>" and ?E = "sample_packet_env 1001 True"
  let ?ls = "[bytes ''a'', bytes ''com'']" and ?p = "pk_payload sample_dns_query"
  let ?d = "dotted ?ls @ replicate (256 - length (dotted ?ls)) 0"
  have n: "dotted ?ls = bytes ''a.com''" "length (wire_name ?ls) = 7" by (simp_all add: bytes_def wire_name_def)
  have l: "length ?p = 51" "20 + length (wire_name ?ls) + 5 * 4 \<le> unat (pk_length sample_dns_query)" "length (wire_name ?ls) \<le> 227"
    "pk_id sample_dns_query = 9" by (simp_all add: n) (simp_all add: sample_dns_query_def bytes_def wire_name_def)
  have u: "ul_domain ?u = replicate 256 0" by (simp add: uwebfilterlog_zero_def DOMAIN_LENGTH_def)
  have d: "?d = ul_domain sample_request" unfolding n by (simp add: sample_request_def bytes_def)
  have r: "request_ok (?u\<lparr>ul_domain := ?d\<rparr>)" "cstr (ul_domain (?u\<lparr>ul_domain := ?d\<rparr>)) = bytes ''a.com''"
    unfolding d using sample_request_ok(1,2) by (simp_all add: request_ok_def record_ok_def sample_request_def)
  obtain st where st: "dm_flows st = flow_init" "lookup_ok [] (dm_lookup st)" "log_ok (dm_log st)"
    "\<And>u iphdr. \<lbrakk>request_ok u; cstr (ul_domain u) = bytes ''a.com''; 20 \<le> length iphdr\<rbrakk> \<Longrightarrow>
       \<exists>u' st'. check_access sample_json ?E u iphdr st = Inr (NF_DROP, u', st')"
    by (rule sample_blocked) blast
  from st(4) [OF r, of ?p] l(1) obtain u1 s1 where c: "check_access sample_json ?E (?u\<lparr>ul_domain := ?d\<rparr>) ?p st = Inr (NF_DROP, u1, s1)"
    by auto
  have net: "dm_net s1 = []" using check_access_Inr [OF c st(2,3)] st(1) by (simp add: dm_net_def flow_init_def)
  have e: "extract_dns_domain (ul_domain ?u) (drop (5 * 4 + 8) ?p) 23 = Inr (True, ?d)"
  proof -
    let ?h = "[0xAB, 0xCD, 1, 0, 0, 1, 0, 0, 0, 0, 0, 0]"
    have "be16 0 1 \<noteq> 0" by (simp add: be16_def)
    moreover have "drop (5 * 4 + 8) ?p = ?h @ wire_name ?ls @ 0 # 1 # [0, 1]" by (simp add: sample_dns_query_def)
    ultimately show ?thesis unfolding u using extract_dns_domain_name [of ?ls ?h 23 0 1 "[0, 1]"] n
      by (simp add: label_ok_def bytes_def)
  qed
  obtain c0 where f: "dns_answer_send (pe_raw ?E) ?p [] = Inr (raw_send (pe_raw ?E) (dns_reply ?p (5 * 4) (length (wire_name ?ls)) c0)
       \<lparr>sin_port = take 2 (drop (5 * 4) ?p), sin_addr = take 4 (drop 12 ?p)\<rparr> [])"
    using dns_query_forged [OF sample_dns_query_ok l(3)] by blast
  have i: "ip_ihl ?p = Inr 5" "pk_length sample_dns_query = 51" "pe_sendto ?E"
    by (simp_all add: sample_dns_query_def ip_ihl_def rd8_def sample_packet_env_def)
  have "\<exists>st'. packet_handle_udp53 sample_json ?E ?u sample_dns_query st = Inr st'"
    using e c f net i by (simp add: packet_handle_udp53_def Let_def dm_verdict_def nfq_send_verdict_def)
  then obtain st' where run: "packet_handle_udp53 sample_json ?E ?u sample_dns_query st = Inr st'" by blast
  have a: "take 2 (drop 20 ?p) = [0x30, 0x39]" "take 4 (drop 12 ?p) = [10, 0, 0, 2]" by (simp_all add: sample_dns_query_def)
  have "\<exists>c. dm_net st' = raw_send (pe_raw ?E) (dns_reply ?p 20 7 c) \<lparr>sin_port = [0x30, 0x39], sin_addr = [10, 0, 0, 2]\<rparr> []
      @ [VERDICT 9 NF_DROP]"
    using dns_query_judged [OF sample_dns_query_ok _ l(3,2) u run] c net a l(4) n(2) by auto
  then show ?thesis using run by (auto simp: raw_send_def sample_packet_env_def)
qed

end
