(* ===== verification/Tcp80.thy ===== *)
theory Tcp80
  imports Packet_Handler
begin

text \<open>
  \<open>tcp80.c\<close>: HTTP requests.  A request that starts with a known method has its target copied into the
  path and its \<open>Host\<close> header into the domain of the log record.  The string functions run until the
  first zero byte of the receive buffer, which may lie behind the packet; the results are then
  compared with the end of the packet.

  The lemmas describe the searches on lines, what is extracted from a well-formed request, and that
  the handler is a \<open>prompt_handler\<close>.
\<close>

subsection \<open>Extraction\<close>

definition http_methods :: "byte list list" where
  "http_methods = [bytes ''GET '', bytes ''POST '', bytes ''PUT '', bytes ''DELETE '', bytes ''HEAD '', bytes ''OPTIONS '',
     bytes ''CONNECT '', bytes ''PATCH '']"

fun http_method_matched :: "byte list list \<Rightarrow> byte list \<Rightarrow> bool result" where
  "http_method_matched [] req = Inr False"
| "http_method_matched (m # ms) req =
     rbind (c_strncasecmp_eq req m) (\<lambda>matched. if matched then Inr True else http_method_matched ms req)"

text \<open>The path; \<open>None\<close> is the early \<open>return false\<close>.\<close>

definition extract_path :: "byte list \<Rightarrow> nat \<Rightarrow> byte list \<Rightarrow> byte list option result" where
  "extract_path req req_end path =
     rbind (c_strstr req [13, 10]) (\<lambda>request_line_end.
       case request_line_end of
         None \<Rightarrow> Inr (Some path)
       | Some line_end \<Rightarrow>
           if line_end < req_end
           then rbind (c_strchr 32 req) (\<lambda>url_start_1.
             case url_start_1 of
               None \<Rightarrow> Inr None
             | Some i \<Rightarrow>
                 let url_start = i + 1
                 in rbind (c_strchr 32 (drop url_start req)) (\<lambda>url_end.
                      case url_end of
                        None \<Rightarrow> Inr (Some path)
                      | Some k \<Rightarrow>
                          if url_start + k < line_end
                          then let path_length = (if k < PATH_LENGTH then k else PATH_LENGTH - 1)
                               in rbind (c_memcpy path 0 req url_start path_length) (\<lambda>path. Inr (Some path))
                          else Inr (Some path)))
           else Inr (Some path))"

definition extract_host :: "byte list \<Rightarrow> nat \<Rightarrow> byte list \<Rightarrow> byte list result" where
  "extract_host req req_end domain =
     rbind (c_strcasestr req (13 # 10 # bytes ''Host:'')) (\<lambda>host_header_start.
       case host_header_start of
         None \<Rightarrow> Inr domain
       | Some i \<Rightarrow>
           if i < req_end
           then let start = i + 8
                in rbind (c_strchr 13 (drop start req)) (\<lambda>host_end.
                     case host_end of
                       None \<Rightarrow> Inr domain
                     | Some host_length \<Rightarrow>
                         if start + host_length < req_end
                         then let domain_length = (if host_length < DOMAIN_LENGTH then host_length else DOMAIN_LENGTH - 1)
                              in c_memcpy domain 0 req start domain_length
                         else Inr domain)
           else Inr domain)"

definition extract_http_payload :: "byte list \<Rightarrow> byte list \<Rightarrow> byte list \<Rightarrow> nat \<Rightarrow> (bool \<times> byte list \<times> byte list) result" where
  "extract_http_payload domain path payload payload_length =
     rbind (http_method_matched http_methods payload) (\<lambda>matched.
       if \<not> matched then Inr (False, domain, path)
       else rbind (extract_path payload payload_length path) (\<lambda>p.
         case p of
           None \<Rightarrow> Inr (False, domain, path)
         | Some path \<Rightarrow> rbind (extract_host payload payload_length domain) (\<lambda>domain. Inr (True, domain, path))))"

subsection \<open>The handler\<close>

definition packet_handle_tcp80 ::
    "('j, 't) json_c \<Rightarrow> packet_env \<Rightarrow> uwebfilterlog \<Rightarrow> packet_info \<Rightarrow> daemon \<Rightarrow> daemon result" where
  "packet_handle_tcp80 J E u pk st =
     (let packet = pk_payload pk in
      rbind (ip_ihl packet) (\<lambda>ihl.
      rbind (tcp_off packet (ihl * 4)) (\<lambda>off.
      rbind (ip_tot_len packet) (\<lambda>tot_len.
      let payload = drop (ihl * 4 + off) packet;
          payload_length = tcp_payload_length tot_len off ihl
      in if payload_length < 10 then dm_verdict E (pk_id pk) NF_ACCEPT st
         else rbind (extract_http_payload (ul_domain u) (ul_path u) payload (unat payload_length)) (\<lambda>(found, domain, path).
              let u = u\<lparr>ul_domain := domain, ul_path := path\<rparr>
              in if found
                 then rbind (check_access J E u packet st) (\<lambda>(verdict, u, st).
                      rbind (if verdict = NF_DROP then tcp_reset E ''TCP(80) RST: '' (ul_domain u) packet st else Inr st)
                        (dm_verdict E (pk_id pk) verdict))
                 else dm_verdict E (pk_id pk) NF_ACCEPT st)))))"

lemma packet_handle_tcp80_ok:
  assumes ok: "daemon_ok st" and r: "packet_handle_tcp80 J E u pk st = Inr st'"
  shows "daemon_ok st' \<and> dm_accounted st' = add_mset (pk_id pk) (dm_accounted st) \<and> dm_config st' = dm_config st"
proof -
  from r consider "dm_verdict E (pk_id pk) NF_ACCEPT st = Inr st'"
    | u1 v u' s1 s2 where "check_access J E u1 (pk_payload pk) st = Inr (v, u', s1)"
      "(if v = NF_DROP then tcp_reset E ''TCP(80) RST: '' (ul_domain u') (pk_payload pk) s1 else Inr s1) = Inr s2"
      "dm_verdict E (pk_id pk) v s2 = Inr st'"
    unfolding packet_handle_tcp80_def Let_def rbind_Inr_iff by (auto simp: result_simps split: if_splits)
  then show ?thesis
  proof cases
    case 1
    from dm_verdict_ok [OF 1] ok show ?thesis by simp
  next
    case 2
    from judged_request_ok [OF ok 2(1,2)] dm_verdict_ok [OF 2(3)] show ?thesis by simp
  qed
qed

interpretation http: prompt_handler "packet_handle_tcp80 J" for J
  by (rule prompt_handlerI) (rule packet_handle_tcp80_ok)

subsection \<open>Searching lines\<close>

lemma c_tolower_control: "c < 65 \<Longrightarrow> c_tolower b = c \<longleftrightarrow> b = c"
  unfolding c_tolower_def
proof (cases "65 \<le> b \<and> b \<le> 90")
  case True
  assume c: "c < 65"
  have "unat (b + 32) = unat b + 32" using True by (subst unat_add_lem [THEN iffD1]) (simp_all add: word_le_nat_alt)
  with True c have "b + 32 \<noteq> c" "b \<noteq> c" by (auto simp: word_le_nat_alt word_less_nat_alt)
  with True show "(if 65 \<le> b \<and> b \<le> 90 then b + 32 else b) = c \<longleftrightarrow> b = c" by simp
qed auto

definition same_text :: "(byte \<Rightarrow> byte \<Rightarrow> bool) \<Rightarrow> byte list \<Rightarrow> byte list \<Rightarrow> bool" where
  "same_text eq a b \<longleftrightarrow> list_all2 eq a b"

text \<open>A comparison with a text that has no carriage return ends with the line at the latest.\<close>

lemma c_prefix_line:
  assumes "\<And>c. c \<in> set needle \<Longrightarrow> \<not> eq c 13"
  shows "c_prefix eq needle (l @ 13 # s) = Inr (same_text eq needle (take (length needle) l))"
  using assms
proof (induction needle arbitrary: l)
  case Nil
  then show ?case by (simp add: same_text_def)
next
  case (Cons c cs)
  then show ?case by (cases l) (simp_all add: same_text_def)
qed

text \<open>A search for a text that starts with a carriage return skips what comes before the first one.\<close>

lemma c_search_skip:
  assumes "\<And>b. eq 13 b \<longleftrightarrow> b = 13" and "13 \<notin> set l" and "0 \<notin> set l"
  shows "c_search eq (13 # ns) (l @ s) = rbind (c_search eq (13 # ns) s) (\<lambda>r. Inr (map_option ((+) (length l)) r))"
  using assms(2,3)
proof (induction l)
  case Nil
  show ?case by (simp add: option.map_ident)
next
  case (Cons b l)
  show ?case
  proof (cases "c_search eq (13 # ns) s")
    case (Inl e)
    with Cons assms(1) show ?thesis by simp
  next
    case (Inr r)
    with Cons assms(1) show ?thesis by (cases r) simp_all
  qed
qed

text \<open>Lines that end in carriage return and line feed.\<close>

definition crlf_lines :: "byte list list \<Rightarrow> byte list" where
  "crlf_lines ls = concat (map (\<lambda>l. l @ [13, 10]) ls)"

definition line_ok :: "byte list \<Rightarrow> bool" where
  "line_ok l \<longleftrightarrow> 13 \<notin> set l \<and> 0 \<notin> set l"

definition host_line :: "byte list \<Rightarrow> bool" where
  "host_line l \<longleftrightarrow> same_text caseless (bytes ''Host:'') (take 5 l)"

lemma caseless_cr: "caseless 13 b \<longleftrightarrow> b = 13"
  using c_tolower_control [of 13 b] c_tolower_control [of 13 13] by (auto simp: caseless_def)

lemma caseless_not_cr: "c \<in> set (bytes ''Host:'') \<Longrightarrow> \<not> caseless c 13"
  using caseless_cr by (auto simp: caseless_def bytes_def c_tolower_def)

lemma host_prefix: "c_prefix caseless (bytes ''Host:'') (l @ 13 # s) = Inr (host_line l)"
proof -
  have "length (bytes ''Host:'') = 5" by (simp add: bytes_def)
  with c_prefix_line [of "bytes ''Host:''" caseless l s] caseless_not_cr show ?thesis unfolding host_line_def by metis
qed

lemma host_search:
  assumes "ls \<noteq> []" and "list_all line_ok ls" and "list_all (\<lambda>l. \<not> host_line l) (tl ls)" and "host_line hl"
  shows "c_search caseless (13 # 10 # bytes ''Host:'') (crlf_lines ls @ hl @ 13 # r) =
    Inr (Some (length (crlf_lines ls) - 2))"
  using assms(1-3)
proof (induction ls)
  case Nil
  then show ?case by simp
next
  case (Cons l ls)
  let ?n = "13 # 10 # bytes ''Host:''"
  let ?t = "crlf_lines ls @ hl @ 13 # r"
  have skip: "c_search caseless ?n (l @ 13 # 10 # ?t) =
      rbind (c_search caseless ?n (13 # 10 # ?t)) (\<lambda>r. Inr (map_option ((+) (length l)) r))"
    using Cons.prems(2) caseless_cr by (intro c_search_skip) (simp_all add: line_ok_def)
  have cc: "caseless 13 13" "caseless 10 10" "\<not> caseless 13 10" using caseless_cr by (simp_all add: caseless_def)
  have split: "crlf_lines (l # ls) @ hl @ 13 # r = l @ 13 # 10 # ?t" by (simp add: crlf_lines_def)
  show ?case
  proof (cases ls)
    case Nil
    with skip cc host_prefix [of hl r] assms(4) show ?thesis unfolding split by (simp add: crlf_lines_def)
  next
    case (Cons l2 ls2)
    have "\<not> host_line l2" using Cons.prems(3) Cons by simp
    then have "c_prefix caseless (bytes ''Host:'') ?t = Inr False"
      using host_prefix [of l2 "10 # crlf_lines ls2 @ hl @ 13 # r"] by (simp add: Cons crlf_lines_def)
    moreover have "c_search caseless ?n ?t = Inr (Some (length (crlf_lines ls) - 2))"
      using Cons.IH Cons.prems Cons by auto
    moreover have "2 \<le> length (crlf_lines ls)" by (simp add: Cons crlf_lines_def)
    ultimately show ?thesis using skip cc unfolding split by (simp add: crlf_lines_def)
  qed
qed

subsection \<open>Well-formed requests\<close>

definition known_method :: "byte list \<Rightarrow> bool" where
  "known_method l \<longleftrightarrow> (\<exists>m \<in> set http_methods. same_text caseless m (take (length m) l))"

lemma methods_not_cr: "m \<in> set http_methods \<Longrightarrow> c \<in> set m \<Longrightarrow> \<not> caseless c 13"
  using caseless_cr [of c] by (auto simp: caseless_def http_methods_def bytes_def)

lemma http_method_line: "http_method_matched http_methods (l @ 13 # s) = Inr (known_method l)"
proof -
  have "http_method_matched ms (l @ 13 # s) = Inr (\<exists>m \<in> set ms. same_text caseless m (take (length m) l))"
    if "set ms \<subseteq> set http_methods" for ms
    using that
  proof (induction ms)
    case (Cons m ms)
    then show ?case using c_prefix_line [of m caseless l s] methods_not_cr [of m] by (auto simp: c_strncasecmp_eq_def)
  qed simp
  then show ?thesis by (simp add: known_method_def)
qed

text \<open>A text cut to a zeroed buffer of \<open>n\<close> bytes, terminator included.\<close>

definition fitted :: "nat \<Rightarrow> byte list \<Rightarrow> byte list" where
  "fitted n s = take (n - 1) s @ replicate (n - min (n - 1) (length s)) 0"

lemma fitted_props:
  assumes "0 < n" and "0 \<notin> set s"
  shows "length (fitted n s) = n" "terminated (fitted n s)" "cstr (fitted n s) = take (n - 1) s"
proof -
  have z: "0 \<notin> set (take (n - 1) s)" using assms(2) by (meson in_set_takeD)
  have p: "0 < n - min (n - 1) (length s)" using assms(1) by (auto simp: min_def)
  show "terminated (fitted n s)" unfolding fitted_def using terminated_append_zeros [OF z] p by blast
  show "cstr (fitted n s) = take (n - 1) s" unfolding fitted_def by (rule cstr_append_zeros [OF z])
  show "length (fitted n s) = n" using assms(1) by (auto simp: fitted_def min_def)
qed

lemma memcpy_fitted:
  assumes "0 < n"
  shows "c_memcpy (replicate n 0) 0 (p @ s @ r) (length p) (if length s < n then length s else n - 1) = Inr (fitted n s)"
proof -
  let ?k = "if length s < n then length s else n - 1"
  have k: "?k \<le> length s" "?k \<le> n" "?k = min (n - 1) (length s)" using assms by auto
  then show ?thesis by (subst c_memcpy_ok) (simp_all add: fitted_def min_def)
qed

text \<open>
  A request: the method, the target and the rest of the request line, further header lines, then a
  line whose first five characters are \<open>Host:\<close> in any case.
\<close>

definition http_request :: "byte list \<Rightarrow> byte list \<Rightarrow> byte list \<Rightarrow> byte list list \<Rightarrow> byte list \<Rightarrow> bool" where
  "http_request method target version lines hostline \<longleftrightarrow>
     known_method (method @ 32 # target @ 32 # version) \<and> 32 \<notin> set method \<and> 32 \<notin> set target
     \<and> list_all line_ok ((method @ 32 # target @ 32 # version) # lines) \<and> list_all (\<lambda>l. \<not> host_line l) lines
     \<and> host_line hostline \<and> line_ok hostline \<and> 6 \<le> length hostline"

lemma extract_path_request:
  assumes l: "line_ok (m @ 32 # t @ 32 # v)" and w: "32 \<notin> set m" "32 \<notin> set t" and n: "length (m @ 32 # t @ 32 # v) < n"
  shows "extract_path ((m @ 32 # t @ 32 # v) @ 13 # 10 # r) n (replicate 1024 0) = Inr (Some (fitted 1024 t))"
proof -
  let ?rl = "m @ 32 # t @ 32 # v" and ?req = "(m @ 32 # t @ 32 # v) @ 13 # 10 # r"
  have 1: "c_strstr ?req [13, 10] = Inr (Some (length ?rl))"
    using c_search_skip [of "(=)" ?rl "[10]" "13 # 10 # r"] l unfolding c_strstr_def line_ok_def by simp
  have z: "0 \<notin> set m" "0 \<notin> set t" using l by (auto simp: line_ok_def)
  have 2: "c_strchr 32 ?req = Inr (Some (length m))" using c_strchr_hit [OF w(1) z(1), of "(t @ 32 # v) @ 13 # 10 # r"] by simp
  have 3: "c_strchr 32 (drop (length m + 1) ?req) = Inr (Some (length t))"
    using c_strchr_hit [OF w(2) z(2), of "v @ 13 # 10 # r"] by simp
  have 4: "c_memcpy (replicate 1024 0) 0 ?req (length m + 1) (if length t < 1024 then length t else 1024 - 1) = Inr (fitted 1024 t)"
    using memcpy_fitted [of 1024 "m @ [32]" t "32 # v @ 13 # 10 # r"] by simp
  show ?thesis unfolding extract_path_def 1 2 Let_def using 3 4 n by (simp add: PATH_LENGTH_def split: if_splits)
qed

lemma extract_host_request:
  assumes "ls \<noteq> []" and "list_all line_ok ls" and "list_all (\<lambda>l. \<not> host_line l) (tl ls)"
    and h: "host_line hl" "line_ok hl" "6 \<le> length hl" and n: "length (crlf_lines ls) + length hl < n"
  shows "extract_host (crlf_lines ls @ hl @ 13 # r) n (replicate 256 0) = Inr (fitted 256 (drop 6 hl))"
proof -
  let ?req = "crlf_lines ls @ hl @ 13 # r" and ?i = "length (crlf_lines ls) - 2"
  have 1: "c_strcasestr ?req (13 # 10 # bytes ''Host:'') = Inr (Some ?i)"
    unfolding c_strcasestr_def by (rule host_search [OF assms(1-3) h(1)])
  have i: "?i + 8 = length (crlf_lines ls) + 6" using assms(1) by (cases ls) (simp_all add: crlf_lines_def)
  then have d: "drop (?i + 8) ?req = drop 6 hl @ 13 # r" using h(3) by simp
  have 2: "c_strchr 13 (drop (?i + 8) ?req) = Inr (Some (length (drop 6 hl)))"
    unfolding d using h(2) by (intro c_strchr_hit) (auto simp: line_ok_def dest: in_set_dropD)
  have "take 6 hl @ drop 6 hl @ 13 # r = hl @ 13 # r" by (metis append.assoc append_take_drop_id)
  with memcpy_fitted [of 256 "crlf_lines ls @ take 6 hl" "drop 6 hl" "13 # r"]
  have 3: "c_memcpy (replicate 256 0) 0 ?req (?i + 8) (if length (drop 6 hl) < 256 then length (drop 6 hl) else 256 - 1) =
      Inr (fitted 256 (drop 6 hl))" using h(3) by (simp add: i split: if_splits)
  have "?i < n" "?i + 8 + length (drop 6 hl) < n" using n i h(3) by simp_all
  then show ?thesis unfolding extract_host_def 1 Let_def using 2 3 by (simp add: DOMAIN_LENGTH_def split: if_splits)
qed

lemma extract_http_request:
  assumes q: "http_request m t v ls hl" and n: "length (crlf_lines ((m @ 32 # t @ 32 # v) # ls)) + length hl < n"
  shows "extract_http_payload (replicate 256 0) (replicate 1024 0) (crlf_lines ((m @ 32 # t @ 32 # v) # ls) @ hl @ 13 # r) n =
     Inr (True, fitted 256 (drop 6 hl), fitted 1024 t)"
proof -
  let ?rl = "m @ 32 # t @ 32 # v"
  have p: "crlf_lines (?rl # ls) @ hl @ 13 # r = ?rl @ 13 # 10 # crlf_lines ls @ hl @ 13 # r" by (simp add: crlf_lines_def)
  have "http_method_matched http_methods (crlf_lines (?rl # ls) @ hl @ 13 # r) = Inr True"
    unfolding p using q http_method_line [of ?rl] by (simp only: http_request_def)
  moreover have "extract_path (crlf_lines (?rl # ls) @ hl @ 13 # r) n (replicate 1024 0) = Inr (Some (fitted 1024 t))"
    unfolding p using q n by (intro extract_path_request) (auto simp: http_request_def crlf_lines_def)
  moreover have "extract_host (crlf_lines (?rl # ls) @ hl @ 13 # r) n (replicate 256 0) = Inr (fitted 256 (drop 6 hl))"
    using q n by (intro extract_host_request) (auto simp: http_request_def)
  ultimately show ?thesis by (simp add: extract_http_payload_def)
qed

subsection \<open>Arbitrary payloads\<close>

lemma c_prefix_total:
  assumes "terminated p" and "\<And>c. c \<in> set needle \<Longrightarrow> \<not> eq c 0"
  shows "\<exists>b. c_prefix eq needle p = Inr b \<and> (b \<longrightarrow> length needle \<le> length (cstr p))"
  using assms
proof (induction needle arbitrary: p)
  case (Cons c cs)
  then obtain b bs where p: "p = b # bs" by (cases p) (auto simp: terminated_def)
  show ?case
  proof (cases "eq c b")
    case True
    then have "b \<noteq> 0" using Cons.prems(2) [of c] by auto
    with True Cons.IH [of bs] Cons.prems p show ?thesis by (auto simp: terminated_def cstr_def)
  next
    case False
    then show ?thesis by (intro exI [of _ False]) (simp add: p)
  qed
qed auto

lemma c_search_total:
  assumes "terminated p" and "\<And>c. c \<in> set needle \<Longrightarrow> \<not> eq c 0"
  shows "\<exists>r. c_search eq needle p = Inr r \<and> (\<forall>i. r = Some i \<longrightarrow> i + length needle \<le> length (cstr p))"
  using assms(1)
proof (induction p)
  case Nil
  then show ?case by (simp add: terminated_def)
next
  case (Cons b p)
  from c_prefix_total [of "b # p" needle eq, OF Cons.prems assms(2)] obtain f where
    f: "c_prefix eq needle (b # p) = Inr f" "f \<longrightarrow> length needle \<le> length (cstr (b # p))" by blast
  show ?case
  proof (cases "f \<or> b = 0")
    case True
    with f show ?thesis by auto
  next
    case False
    with Cons obtain r where "c_search eq needle p = Inr r" "\<forall>i. r = Some i \<longrightarrow> i + length needle \<le> length (cstr p)"
      by (auto simp: terminated_def)
    with f False show ?thesis by (auto simp: cstr_def)
  qed
qed

lemma c_strchr_total: "c \<noteq> 0 \<Longrightarrow> terminated p \<Longrightarrow> \<exists>r. c_strchr c p = Inr r \<and> (\<forall>i. r = Some i \<longrightarrow> i < length (cstr p))"
proof (induction c p rule: c_strchr.induct)
  case (2 c b bs)
  then show ?case by (cases "b = c \<or> b = 0") (auto simp: terminated_def cstr_def)
qed (simp add: terminated_def)

lemma terminated_drop: "terminated p \<Longrightarrow> i \<le> length (cstr p) \<Longrightarrow> terminated (drop i p)"
  using terminated_split [of p] by (metis drop_append diff_is_0_eq' drop0 in_set_conv_decomp terminated_def)

lemma copy_into_zeros:
  assumes "off + k \<le> length req" and "k < n"
  shows "\<exists>b. c_memcpy (replicate n 0) 0 req off k = Inr b \<and> length b = n \<and> terminated b"
  using assms by (subst c_memcpy_ok) (auto simp: terminated_def)

lemma methods_not_zero: "m \<in> set http_methods \<Longrightarrow> c \<in> set m \<Longrightarrow> \<not> caseless c 0"
  using c_tolower_control [of 0 c] by (auto simp: caseless_def http_methods_def bytes_def c_tolower_def)

lemma http_method_total: "terminated p \<Longrightarrow> \<exists>b. http_method_matched http_methods p = Inr b"
proof -
  assume p: "terminated p"
  have "\<exists>b. http_method_matched ms p = Inr b" if "set ms \<subseteq> set http_methods" for ms
    using that
  proof (induction ms)
    case (Cons m ms)
    then show ?case using c_prefix_total [OF p, of m caseless] methods_not_zero [of m] by (auto simp: c_strncasecmp_eq_def)
  qed auto
  then show ?thesis by blast
qed

lemma extract_path_safe:
  assumes "terminated p"
  shows "\<exists>r. extract_path p n (replicate 1024 0) = Inr r \<and> (\<forall>b. r = Some b \<longrightarrow> length b = 1024 \<and> terminated b)"
proof -
  have z: "length (replicate 1024 0 :: byte list) = 1024" "terminated (replicate 1024 0)" by (simp_all add: terminated_zeros)
  have "\<exists>r. c_search (=) [13, 10] p = Inr r \<and> (\<forall>i. r = Some i \<longrightarrow> i + length [13, 10 :: byte] \<le> length (cstr p))"
    by (rule c_search_total [OF assms]) auto
  then obtain le where le: "c_strstr p [13, 10] = Inr le" by (auto simp: c_strstr_def)
  from c_strchr_total [of 32, OF _ assms] obtain i where i: "c_strchr 32 p = Inr i" "\<And>j. i = Some j \<Longrightarrow> j < length (cstr p)" by auto
  show ?thesis
  proof (cases i)
    case None
    with le i(1) z show ?thesis by (auto simp: extract_path_def split: option.splits)
  next
    case (Some j)
    with i(2) have "terminated (drop (j + 1) p)" by (intro terminated_drop [OF assms]) auto
    from c_strchr_total [of 32, OF _ this] obtain k where k: "c_strchr 32 (drop (j + 1) p) = Inr k"
      "\<And>x. k = Some x \<Longrightarrow> x < length (cstr (drop (j + 1) p))" by auto
    have b: "j + 1 + x \<le> length p" if "k = Some x" for x
      using k(2) [OF that] length_cstr_le [of "drop (j + 1) p"] by simp
    let ?m = "\<lambda>x. if x < PATH_LENGTH then x else PATH_LENGTH - 1"
    have c: "\<exists>b. c_memcpy (replicate 1024 0) 0 p (j + 1) (?m x) = Inr b \<and> length b = 1024 \<and> terminated b" if "k = Some x" for x
      using b [OF that] by (intro copy_into_zeros) (auto simp: PATH_LENGTH_def)
    show ?thesis
    proof (cases k)
      case None
      with le i(1) Some k(1) z show ?thesis by (auto simp: extract_path_def Let_def split: option.splits)
    next
      case k': (Some x)
      from c [OF k'] obtain b where "c_memcpy (replicate 1024 0) 0 p (j + 1) (?m x) = Inr b" "length b = 1024" "terminated b" by blast
      with le i(1) Some k(1) k' z show ?thesis unfolding extract_path_def Let_def by (auto split: option.splits if_splits)
    qed
  qed
qed

lemma extract_host_safe:
  assumes p: "terminated p" "terminated (drop (Suc (length (cstr p))) p)"
  shows "\<exists>b. extract_host p n (replicate 256 0) = Inr b \<and> length b = 256 \<and> terminated b"
proof -
  let ?n = "13 # 10 # bytes ''Host:''"
  have z: "length (replicate 256 0 :: byte list) = 256" "terminated (replicate 256 0)" by (simp_all add: terminated_zeros)
  have nz: "\<not> caseless c 0" if "c \<in> set ?n" for c
    using that c_tolower_control [of 0 c] by (auto simp: caseless_def bytes_def c_tolower_def)
  from c_search_total [of p ?n caseless, OF p(1) nz] obtain r where r': "c_search caseless ?n p = Inr r"
    "\<forall>i. r = Some i \<longrightarrow> i + length ?n \<le> length (cstr p)" by blast
  have "length ?n = 7" by (simp add: bytes_def)
  with r' have r: "c_strcasestr p ?n = Inr r" "\<And>i. r = Some i \<Longrightarrow> i + 7 \<le> length (cstr p)"
    unfolding c_strcasestr_def by auto
  show ?thesis
  proof (cases r)
    case None
    with r(1) z show ?thesis by (simp add: extract_host_def)
  next
    case (Some i)
    have "terminated (drop (i + 8) p)"
    proof (cases "i + 8 \<le> length (cstr p)")
      case False
      with r(2) [OF Some] have "i + 8 = Suc (length (cstr p))" by simp
      then show ?thesis using p(2) by (simp only:)
    qed (rule terminated_drop [OF p(1)])
    from c_strchr_total [of 13, OF _ this] obtain k where k: "c_strchr 13 (drop (i + 8) p) = Inr k"
      "\<And>x. k = Some x \<Longrightarrow> x < length (cstr (drop (i + 8) p))" by auto
    let ?m = "\<lambda>x. if x < DOMAIN_LENGTH then x else DOMAIN_LENGTH - 1"
    show ?thesis
    proof (cases k)
      case None
      with r(1) Some k(1) z show ?thesis by (simp add: extract_host_def Let_def)
    next
      case k': (Some x)
      have "i + 8 + x \<le> length p" using k(2) [OF k'] length_cstr_le [of "drop (i + 8) p"] by simp
      then have "\<exists>b. c_memcpy (replicate 256 0) 0 p (i + 8) (?m x) = Inr b \<and> length b = 256 \<and> terminated b"
        by (intro copy_into_zeros) (auto simp: DOMAIN_LENGTH_def)
      with r(1) Some k(1) k' z show ?thesis unfolding extract_host_def Let_def by auto
    qed
  qed
qed

subsection \<open>Properties\<close>

text \<open>
  C18: From a request with a known method (in any case), its target and a \<open>Host\<close> header (in any case)
  among its headers, the path becomes the target and the domain the text of the header from the
  seventh character on, both terminated and cut to 1023 and 255 characters.  The sixth character of
  the header line, normally a space, is skipped whatever it is.
\<close>

theorem http_request_extracted:
  assumes "http_request m t v ls hl" and "length (crlf_lines ((m @ 32 # t @ 32 # v) # ls)) + length hl < n"
  shows "\<exists>domain path. extract_http_payload (replicate 256 0) (replicate 1024 0)
      (crlf_lines ((m @ 32 # t @ 32 # v) # ls) @ hl @ 13 # r) n = Inr (True, domain, path)
    \<and> terminated domain \<and> cstr domain = take 255 (drop 6 hl) \<and> terminated path \<and> cstr path = take 1023 t"
proof -
  have "0 \<notin> set hl" "0 \<notin> set t" using assms(1) by (auto simp: http_request_def line_ok_def)
  then have "0 \<notin> set (drop 6 hl)" "0 \<notin> set t" by (auto dest: in_set_dropD)
  then show ?thesis using extract_http_request [OF assms] fitted_props [of 256 "drop 6 hl"] fitted_props [of 1024 t] by simp
qed

theorem http_request_extracted_witness:
  "\<exists>domain path. extract_http_payload (replicate 256 0) (replicate 1024 0)
       (bytes ''get /x HTTP/1.1'' @ [13, 10] @ bytes ''Accept: *'' @ [13, 10] @ bytes ''HOST:a.com'' @ [13, 10, 13, 10]) 60
     = Inr (True, domain, path) \<and> cstr domain = bytes ''.com'' \<and> cstr path = bytes ''/x''"
proof -
  let ?m = "bytes ''get''" and ?t = "bytes ''/x''" and ?v = "bytes ''HTTP/1.1''" and ?l = "bytes ''Accept: *''" and ?h = "bytes ''HOST:a.com''"
  have "host_line ?h" "\<not> host_line ?l" by (simp_all add: host_line_def same_text_def bytes_def caseless_def c_tolower_def)
  moreover have "known_method (?m @ 32 # ?t @ 32 # ?v)"
    unfolding known_method_def http_methods_def
    by (rule bexI [of _ "bytes ''GET ''"]) (simp_all add: same_text_def bytes_def caseless_def c_tolower_def)
  ultimately have q: "http_request ?m ?t ?v [?l] ?h"
    by (simp add: http_request_def line_ok_def) (simp add: bytes_def)
  have "length (crlf_lines ((?m @ 32 # ?t @ 32 # ?v) # [?l])) + length ?h < 60" by (simp add: crlf_lines_def bytes_def)
  from http_request_extracted [OF q this, of "[10, 13, 10]"] show ?thesis
    by (simp add: crlf_lines_def) (simp add: bytes_def, blast)
qed

text \<open>
  C20: Whatever bytes a payload has, and wherever it ends, the extraction stays inside the objects
  involved as long as two zero bytes follow in the receive buffer: it returns, and leaves domain and
  path terminated.  (One zero byte is not enough, because the search for the end of the host starts
  one character behind the match.)
\<close>

theorem http_extraction_safe:
  assumes "terminated payload" and "terminated (drop (Suc (length (cstr payload))) payload)"
  shows "\<exists>found domain path. extract_http_payload (replicate 256 0) (replicate 1024 0) payload n = Inr (found, domain, path)
    \<and> length domain = 256 \<and> terminated domain \<and> length path = 1024 \<and> terminated path"
proof -
  from http_method_total [OF assms(1)] obtain b where b: "http_method_matched http_methods payload = Inr b" by blast
  from extract_path_safe [OF assms(1), of n] obtain r where r: "extract_path payload n (replicate 1024 0) = Inr r"
    "\<forall>p. r = Some p \<longrightarrow> length p = 1024 \<and> terminated p" by blast
  from extract_host_safe [OF assms, of n] obtain d where d: "extract_host payload n (replicate 256 0) = Inr d"
    "length d = 256" "terminated d" by blast
  from b r d show ?thesis
    by (cases b; cases r) (auto simp: extract_http_payload_def terminated_zeros)
qed

theorem http_extraction_safe_witness:
  "\<exists>found domain path. extract_http_payload (replicate 256 0) (replicate 1024 0) (bytes ''GET / '' @ [13, 10, 0, 7, 0]) 9
     = Inr (found, domain, path) \<and> terminated domain"
proof -
  have "terminated (bytes ''GET / '' @ [13, 10, 0, 7, 0])"
    "terminated (drop (Suc (length (cstr (bytes ''GET / '' @ [13, 10, 0, 7, 0])))) (bytes ''GET / '' @ [13, 10, 0, 7, 0]))"
    by (simp_all add: terminated_def cstr_def bytes_def)
  from http_extraction_safe [OF this] show ?thesis by blast
qed

text \<open>A packet that carries a request, with complete headers.\<close>

definition http_packet :: "packet_info \<Rightarrow> nat \<Rightarrow> byte list \<Rightarrow> byte list \<Rightarrow> bool" where
  "http_packet pk ihl target hl \<longleftrightarrow> (\<exists>off tot m v ls r.
     ip_ihl (pk_payload pk) = Inr ihl \<and> tcp_off (pk_payload pk) (ihl * 4) = Inr off \<and> ip_tot_len (pk_payload pk) = Inr tot
     \<and> 20 \<le> off \<and> http_request m target v ls hl
     \<and> drop (ihl * 4 + off) (pk_payload pk) = crlf_lines ((m @ 32 # target @ 32 # v) # ls) @ hl @ 13 # r
     \<and> 10 \<le> tcp_payload_length tot off ihl
     \<and> length (crlf_lines ((m @ 32 # target @ 32 # v) # ls)) + length hl < unat (tcp_payload_length tot off ihl))"

lemma http_packet_extract:
  assumes "http_packet pk ihl target hl"
  shows "\<exists>off tot. ip_ihl (pk_payload pk) = Inr ihl \<and> tcp_off (pk_payload pk) (ihl * 4) = Inr off \<and> ip_tot_len (pk_payload pk) = Inr tot
    \<and> \<not> tcp_payload_length tot off ihl < 10 \<and> ihl * 4 + 20 \<le> length (pk_payload pk)
    \<and> extract_http_payload (replicate 256 0) (replicate 1024 0) (drop (ihl * 4 + off) (pk_payload pk)) (unat (tcp_payload_length tot off ihl)) =
      Inr (True, fitted 256 (drop 6 hl), fitted 1024 target)"
proof -
  let ?p = "pk_payload pk"
  from assms obtain off tot m v ls r where h: "ip_ihl ?p = Inr ihl" "tcp_off ?p (ihl * 4) = Inr off" "ip_tot_len ?p = Inr tot"
    "20 \<le> off" and req: "http_request m target v ls hl"
      "drop (ihl * 4 + off) ?p = crlf_lines ((m @ 32 # target @ 32 # v) # ls) @ hl @ 13 # r"
      "length (crlf_lines ((m @ 32 # target @ 32 # v) # ls)) + length hl < unat (tcp_payload_length tot off ihl)"
    and n: "\<not> tcp_payload_length tot off ihl < 10" by (auto simp: http_packet_def)
  have "drop (ihl * 4 + off) ?p \<noteq> []" by (simp add: req(2))
  then have "ihl * 4 + 20 \<le> length ?p" using h(4) by simp
  moreover have "extract_http_payload (replicate 256 0) (replicate 1024 0) (drop (ihl * 4 + off) ?p) (unat (tcp_payload_length tot off ihl)) =
      Inr (True, fitted 256 (drop 6 hl), fitted 1024 target)" unfolding req(2) by (rule extract_http_request [OF req(1,3)])
  ultimately show ?thesis using h n by blast
qed

text \<open>The verdict of a request that was extracted.\<close>

lemma packet_handle_tcp80_verdict:
  assumes q: "http_packet pk ihl target hl" and u: "ul_domain u = replicate 256 0" "ul_path u = replicate 1024 0"
    and run: "packet_handle_tcp80 J E u pk st = Inr st'"
  shows "\<exists>v u' s1. check_access J E (u\<lparr>ul_domain := fitted 256 (drop 6 hl), ul_path := fitted 1024 target\<rparr>)
        (pk_payload pk) st = Inr (v, u', s1)
    \<and> (\<exists>s2. (if v = NF_DROP then tcp_reset E ''TCP(80) RST: '' (ul_domain u') (pk_payload pk) s1 else Inr s1) = Inr s2
         \<and> dm_verdict E (pk_id pk) v s2 = Inr st')"
proof -
  from http_packet_extract [OF q] obtain off tot where h: "ip_ihl (pk_payload pk) = Inr ihl"
    "tcp_off (pk_payload pk) (ihl * 4) = Inr off" "ip_tot_len (pk_payload pk) = Inr tot" "\<not> tcp_payload_length tot off ihl < 10"
    "extract_http_payload (ul_domain u) (ul_path u) (drop (ihl * 4 + off) (pk_payload pk)) (unat (tcp_payload_length tot off ihl)) =
      Inr (True, fitted 256 (drop 6 hl), fitted 1024 target)" unfolding u by blast
  from run h show ?thesis by (auto simp: packet_handle_tcp80_def Let_def result_simps)
qed


definition sample_http_packet :: packet_info where
  "sample_http_packet = \<lparr>pk_id = 4, pk_payload = [0x45, 0, 0, 69, 0, 0, 0, 0, 64, 6, 0, 0, 10, 0, 0, 2, 93, 184, 216, 34,
     0x30, 0x39, 0, 80, 0, 0, 0, 5, 0, 0, 1, 0, 0x50, 0x18, 1, 0, 0, 0, 0, 0]
     @ crlf_lines [bytes ''GET / HTTP/1.1''] @ bytes ''Host: a.com'' @ [13, 10], pk_length = 69\<rparr>"

lemma sample_http_packet_ok:
  "ip_ihl (pk_payload sample_http_packet) = Inr 5" "tcp_off (pk_payload sample_http_packet) 20 = Inr 20"
  "ip_tot_len (pk_payload sample_http_packet) = Inr 69" "tcp_payload_length 69 20 5 = 29"
  "drop 40 (pk_payload sample_http_packet) = crlf_lines [bytes ''GET'' @ 32 # bytes ''/'' @ 32 # bytes ''HTTP/1.1'']
     @ bytes ''Host: a.com'' @ 13 # [10]"
  "http_request (bytes ''GET'') (bytes ''/'') (bytes ''HTTP/1.1'') [] (bytes ''Host: a.com'')"
proof -
  let ?rl = "bytes ''GET'' @ 32 # bytes ''/'' @ 32 # bytes ''HTTP/1.1''"
  have b: "bytes ''GET / HTTP/1.1'' = ?rl" by (simp add: bytes_def)
  show "drop 40 (pk_payload sample_http_packet) = crlf_lines [?rl] @ bytes ''Host: a.com'' @ 13 # [10]"
    by (simp add: sample_http_packet_def b)
  show "ip_ihl (pk_payload sample_http_packet) = Inr 5" "tcp_off (pk_payload sample_http_packet) 20 = Inr 20"
    "ip_tot_len (pk_payload sample_http_packet) = Inr 69" "tcp_payload_length 69 20 5 = 29"
    by (simp_all add: sample_http_packet_def ip_ihl_def tcp_off_def ip_tot_len_def rd8_def rd16be_def be16_def tcp_payload_length_def)
  have "known_method ?rl" unfolding known_method_def http_methods_def
    by (rule bexI [of _ "bytes ''GET ''"]) (simp_all add: same_text_def bytes_def caseless_def)
  moreover have "host_line (bytes ''Host: a.com'')" by (simp add: host_line_def same_text_def bytes_def caseless_def)
  ultimately show "http_request (bytes ''GET'') (bytes ''/'') (bytes ''HTTP/1.1'') [] (bytes ''Host: a.com'')"
    by (simp add: http_request_def line_ok_def) (simp add: bytes_def)
qed

lemma sample_http_packet_request: "http_packet sample_http_packet 5 (bytes ''/'') (bytes ''Host: a.com'')"
  unfolding http_packet_def
  by (rule exI [of _ 20], rule exI [of _ 69], rule exI [of _ "bytes ''GET''"], rule exI [of _ "bytes ''HTTP/1.1''"],
      rule exI [of _ "[]"], rule exI [of _ "[10]"])
     (use sample_http_packet_ok in \<open>simp add: crlf_lines_def bytes_def\<close>)


end
