(* ===== verification/Tcp443.thy ===== *)
theory Tcp443
  imports Packet_Handler
begin

text \<open>
  \<open>tcp443.c\<close>: TLS connections.  The server name is read from the ClientHello; a ClientHello that does
  not fit one packet is collected in a flow, whose packets are all judged together when it is
  complete.  The offsets of the parser are 16-bit values that wrap around; indices into the payload
  are computed in \<open>int\<close>.

  The lemmas show what the parser extracts from a well-formed ClientHello, and which packets the
  handler accounts for: all of them, except one whose flow cannot take it.
\<close>

subsection \<open>The server name\<close>

definition min_u16 :: "u16 \<Rightarrow> u16 \<Rightarrow> u16" where
  "min_u16 v1 v2 = (if v1 < v2 then v1 else v2)"

definition from_u8be :: "u16 \<Rightarrow> u16 \<Rightarrow> u16" where
  "from_u8be b1 b2 = push_bit 8 b1 + (b2 AND 0xFF)"

text \<open>\<open>from_u8be (payload[i], payload[i + 1])\<close>\<close>

definition u8be_at :: "byte list \<Rightarrow> nat \<Rightarrow> u16 result" where
  "u8be_at payload i = rbind (rd8 payload i) (\<lambda>a. rbind (rd8 payload (i + 1)) (\<lambda>b. Inr (from_u8be (ucast a) (ucast b))))"

fun sni_loop :: "nat \<Rightarrow> byte list \<Rightarrow> u16 \<Rightarrow> u16 \<Rightarrow> byte list \<Rightarrow> (bool \<times> byte list) result" where
  "sni_loop 0 payload extention_offset end_of_extentions domain = Inr (False, domain)"
| "sni_loop (Suc iterations) payload extention_offset end_of_extentions domain =
    (if extention_offset < end_of_extentions
     then rbind (u8be_at payload (unat extention_offset)) (\<lambda>extention_id.
          rbind (u8be_at payload (unat (extention_offset + 2))) (\<lambda>extention_length.
            if extention_id = 0
            then rbind (u8be_at payload (unat (extention_offset + 2 + 2 + 3))) (\<lambda>sni_length.
                 rbind (c_memcpy domain 0 payload (unat (extention_offset + 2 + 2 + 3 + 2))
                          (unat (min_u16 sni_length (of_nat DOMAIN_LENGTH)))) (\<lambda>domain. Inr (True, domain)))
            else sni_loop iterations payload (extention_offset + 2 + 2 + extention_length) end_of_extentions domain))
     else Inr (False, domain))"

definition extract_sni :: "byte list \<Rightarrow> byte list \<Rightarrow> u16 \<Rightarrow> (bool \<times> byte list) result" where
  "extract_sni domain payload payload_length =
    (if payload_length < 10 then Inr (False, domain)
     else rbind (rd8 payload 0) (\<lambda>b0. if b0 \<noteq> 0x16 then Inr (False, domain)
     else rbind (rd8 payload 5) (\<lambda>b5. if b5 \<noteq> 0x01 then Inr (False, domain)
     else rbind (u8be_at payload 3) (\<lambda>handshake_length.
       if payload_length < handshake_length then Inr (False, domain)
       else let base_offset = 43 :: u16 in
       if unat payload_length < unat base_offset + 2 then Inr (False, domain)
       else rbind (rd8 payload (unat base_offset)) (\<lambda>s.
       let session_id_length = ucast s :: u16 in
       if unat handshake_length < unat session_id_length + unat base_offset + 2 then Inr (False, domain)
       else let cipher_length_start = base_offset + session_id_length + 1 in
       rbind (u8be_at payload (unat cipher_length_start)) (\<lambda>cipher_length.
       let offset = base_offset + session_id_length + cipher_length + 2 in
       if handshake_length < offset then Inr (False, domain)
       else rbind (rd8 payload (unat offset + 1)) (\<lambda>c.
       let compression_length = ucast c :: u16; offset = offset + (compression_length + 2) in
       if handshake_length < offset then Inr (False, domain)
       else rbind (u8be_at payload (unat offset)) (\<lambda>extentions_length.
       let extention_offset = 2 + offset; end_of_extentions = extention_offset + extentions_length
       in sni_loop 50 payload extention_offset end_of_extentions domain))))))))"

subsection \<open>The handler\<close>

text \<open>The verdict on a complete ClientHello, with the reset of a blocked connection.\<close>

definition judge_hello ::
    "('j, 't) json_c \<Rightarrow> packet_env \<Rightarrow> uwebfilterlog \<Rightarrow> byte list \<Rightarrow> byte list \<Rightarrow> u16 \<Rightarrow> daemon \<Rightarrow> (verdict \<times> daemon) result" where
  "judge_hello J E u packet payload payload_length st =
     rbind (extract_sni (ul_domain u) payload payload_length) (\<lambda>(found, domain).
     let u = u\<lparr>ul_domain := domain\<rparr> in
     rbind (if found then check_access J E u packet st else Inr (NF_ACCEPT, u, st)) (\<lambda>(verdict, u, st).
     rbind (if verdict = NF_DROP then tcp_reset E ''TCP(443) RST: '' (ul_domain u) packet st else Inr st) (\<lambda>st.
       Inr (verdict, st))))"

text \<open>A further packet of the flow at address \<open>a\<close>.\<close>

definition continue_flow ::
    "('j, 't) json_c \<Rightarrow> packet_env \<Rightarrow> uwebfilterlog \<Rightarrow> packet_info \<Rightarrow> byte list \<Rightarrow> u16 \<Rightarrow> nat \<Rightarrow> daemon \<Rightarrow> daemon result" where
  "continue_flow J E u pk payload payload_length a st =
     rbind (flow_get a (dm_flows st)) (\<lambda>f.
     rbind (tcpflow_value_append (fl_value f) (pk_id pk) payload payload_length) (\<lambda>(appended, v).
     let f = f\<lparr>fl_value := v\<rparr>; st = st\<lparr>dm_flows := flow_put a f (dm_flows st)\<rparr> in
     if \<not> appended
     then rbind (tcpflow_setverdict_and_free (pe_sendto E) a NF_ACCEPT (dm_flows st)) (\<lambda>fl. Inr (st\<lparr>dm_flows := fl\<rparr>))
     else if tcpflow_iscomplete f
     then rbind (judge_hello J E u (pk_payload pk) (fv_payload v) (fv_current v) st) (\<lambda>(verdict, st).
          rbind (tcpflow_setverdict_and_free (pe_sendto E) a verdict (dm_flows st)) (\<lambda>fl. Inr (st\<lparr>dm_flows := fl\<rparr>)))
     else Inr st))"

text \<open>The first packet of a ClientHello that needs more packets.\<close>

definition start_flow ::
    "packet_env \<Rightarrow> packet_info \<Rightarrow> tcpflow_key \<Rightarrow> byte list \<Rightarrow> u16 \<Rightarrow> u16 \<Rightarrow> daemon \<Rightarrow> daemon result" where
  "start_flow E pk key payload payload_length handshake_length st =
    (let r = tcpflow_create (pe_calloc E) key handshake_length (dm_flows st); st = st\<lparr>dm_flows := snd r\<rparr> in
     case fst r of
       None \<Rightarrow> dm_verdict E (pk_id pk) NF_ACCEPT st
     | Some a \<Rightarrow>
         rbind (flow_get a (dm_flows st)) (\<lambda>f.
         rbind (tcpflow_value_append (fl_value f) (pk_id pk) payload payload_length) (\<lambda>(appended, v).
         let st = st\<lparr>dm_flows := flow_put a (f\<lparr>fl_value := v\<rparr>) (dm_flows st)\<rparr> in
         if \<not> appended
         then rbind (dm_verdict E (pk_id pk) NF_ACCEPT st) (\<lambda>st.
              rbind (tcpflow_free a (dm_flows st)) (\<lambda>fl. Inr (st\<lparr>dm_flows := fl\<rparr>)))
         else rbind (tcpflow_insert (pe_malloc E) (pe_sendto E) (pe_flow_now E) a (dm_flows st)) (\<lambda>fl.
              Inr (st\<lparr>dm_flows := fl\<rparr>)))))"

definition packet_handle_tcp443 ::
    "('j, 't) json_c \<Rightarrow> packet_env \<Rightarrow> uwebfilterlog \<Rightarrow> packet_info \<Rightarrow> daemon \<Rightarrow> daemon result" where
  "packet_handle_tcp443 J E u pk st =
     (let packet = pk_payload pk in
      rbind (ip_ihl packet) (\<lambda>ihl.
      rbind (tcp_off packet (ihl * 4)) (\<lambda>off.
      rbind (ip_tot_len packet) (\<lambda>tot_len.
      let payload = drop (ihl * 4 + off) packet;
          payload_length = tcp_payload_length tot_len off ihl
      in if payload_length < 10 then dm_verdict E (pk_id pk) NF_ACCEPT st
      else rbind (ip_saddr packet) (\<lambda>src.
      rbind (ip_daddr packet) (\<lambda>dst.
      let key = \<lparr>fk_src = src, fk_dst = dst, fk_port = ul_srcport u\<rparr> in
      rbind (tcpflow_lookup (pe_pad E) key (dm_flows st)) (\<lambda>tcpflow.
      case tcpflow of
        Some a \<Rightarrow> continue_flow J E u pk payload payload_length a st
      | None \<Rightarrow>
          rbind (rd8 payload 0) (\<lambda>b0.
          rbind (if b0 \<noteq> 0x16 then Inr True else rbind (rd8 payload 5) (\<lambda>b5. Inr (b5 \<noteq> 0x01))) (\<lambda>other.
          if other then dm_verdict E (pk_id pk) NF_ACCEPT st
          else rbind (u8be_at payload 3) (\<lambda>handshake_length.
          if handshake_length \<le> payload_length
          then rbind (judge_hello J E u packet payload payload_length st) (\<lambda>(verdict, st). dm_verdict E (pk_id pk) verdict st)
          else if FLOW_PAYLOAD_SIZE < unat handshake_length then dm_verdict E (pk_id pk) NF_ACCEPT st
          else start_flow E pk key payload payload_length handshake_length st))))))))))"

subsection \<open>What the handler accounts for\<close>

lemma judge_hello_ok:
  assumes ok: "daemon_ok st" and r: "judge_hello J E u packet payload n st = Inr (v, st')"
  shows "daemon_ok st' \<and> dm_accounted st' = dm_accounted st \<and> dm_config st' = dm_config st \<and>
     dm_flows st' = (dm_flows st)\<lparr>net := net (dm_flows st')\<rparr>"
proof -
  from r obtain found u1 u2 s1 where s1: "(if found then check_access J E u1 packet st else Inr (NF_ACCEPT, u1, st)) = Inr (v, u2, s1)"
    and s2: "(if v = NF_DROP then tcp_reset E ''TCP(443) RST: '' (ul_domain u2) packet s1 else Inr s1) = Inr st'"
    by (auto simp: judge_hello_def result_simps Let_def)
  have 1: "daemon_ok s1 \<and> dm_accounted s1 = dm_accounted st \<and> dm_config s1 = dm_config st \<and> dm_flows s1 = dm_flows st"
  proof (cases found)
    case True
    with s1 have c: "check_access J E u1 packet st = Inr (v, u2, s1)" by simp
    from check_access_ok [OF ok c] check_access_Inr [OF c] ok show ?thesis by (simp add: daemon_ok_def)
  next
    case False
    with s1 ok show ?thesis by simp
  qed
  have "dm_flows st' = (dm_flows s1)\<lparr>net := net (dm_flows st')\<rparr>"
    using s2 by (auto simp: tcp_reset_def dm_set_net_def dm_logger_def result_simps Let_def split: if_splits)
  with 1 s2 show ?thesis by (auto dest!: tcp_reset_ok split: if_splits)
qed

lemma cached_flows_net: "cached_flows (fl\<lparr>net := out\<rparr>) = cached_flows fl"
  by (simp add: cached_flows_def)

lemma dm_flows_update:
  assumes "daemon_ok st" and "flows_ok [] fl"
  shows "daemon_ok (st\<lparr>dm_flows := fl\<rparr>)" "dm_accounted (st\<lparr>dm_flows := fl\<rparr>) = accounted [] fl"
  using assms by (simp_all add: daemon_ok_def dm_accounted_def)

text \<open>All packets of a flow get a verdict, and nothing else happens.\<close>

lemma finish_flow_ok:
  assumes ok: "daemon_ok st" and a: "a \<in> set (cached_flows (dm_flows st))"
    and r: "rbind (tcpflow_setverdict_and_free sendto_ok a v (dm_flows st)) (\<lambda>fl. Inr (st\<lparr>dm_flows := fl\<rparr>)) = Inr st'"
  shows "daemon_ok st' \<and> dm_accounted st' = dm_accounted st \<and> dm_config st' = dm_config st"
proof -
  have f: "flows_ok [] (dm_flows st)" using ok by (simp add: daemon_ok_def)
  from r obtain fl where fl: "tcpflow_setverdict_and_free sendto_ok a v (dm_flows st) = Inr fl" "st' = st\<lparr>dm_flows := fl\<rparr>"
    by (auto simp: result_simps)
  from tcpflow_setverdict_and_free_Inr [OF f a fl(1)] dm_flows_update [OF ok, of fl] fl(2) show ?thesis
    by (simp add: dm_accounted_def)
qed

lemma continue_flow_ok:
  assumes ok: "daemon_ok st" and a: "a \<in> set (cached_flows (dm_flows st))" and f: "fl_heap (dm_flows st) a = Some f"
    and r: "continue_flow J E u pk payload n a st = Inr st'"
  shows "daemon_ok st' \<and> dm_config st' = dm_config st
    \<and> dm_accounted st' = (if append_fits (fl_value f) n then add_mset (pk_id pk) (dm_accounted st) else dm_accounted st)"
proof -
  have fo: "flows_ok [] (dm_flows st)" using ok by (simp add: daemon_ok_def)
  have v: "value_ok (fl_value f)" using flows_okD(5) [OF fo f] .
  have get: "flow_get a (dm_flows st) = Inr f" by (simp add: flow_get_def f)
  show ?thesis
  proof (cases "append_fits (fl_value f) n")
    case False
    have "flow_put a (f\<lparr>fl_value := fl_value f\<rparr>) (dm_flows st) = dm_flows st"
      using f by (simp add: flow_put_def fun_upd_idem)
    with r get append_cases(1) [OF v False] have
      "rbind (tcpflow_setverdict_and_free (pe_sendto E) a NF_ACCEPT (dm_flows st)) (\<lambda>fl. Inr (st\<lparr>dm_flows := fl\<rparr>)) = Inr st'"
      by (simp add: continue_flow_def Let_def)
    from finish_flow_ok [OF ok a this] False show ?thesis by simp
  next
    case True
    from r get obtain b v' where "tcpflow_value_append (fl_value f) (pk_id pk) payload n = Inr (b, v')"
      by (auto simp: continue_flow_def result_simps)
    with append_cases(2,3) [OF v True] obtain v' where ap: "tcpflow_value_append (fl_value f) (pk_id pk) payload n = Inr (True, v')"
      "value_ok v'" "take (fv_index v') (fv_ids v') = flow_ids f @ [pk_id pk]"
      unfolding flow_ids_def by (metis Inl_Inr_False not_le)
    let ?fl = "flow_put a (f\<lparr>fl_value := v'\<rparr>) (dm_flows st)"
    let ?s = "st\<lparr>dm_flows := ?fl\<rparr>"
    have "flows_ok [] ?fl \<and> accounted [] ?fl = accounted [] (dm_flows st) + mset [pk_id pk]"
      using a by (intro flow_put_ok [OF fo _ f ap(2,3)]) simp
    then have s: "daemon_ok ?s" "dm_accounted ?s = add_mset (pk_id pk) (dm_accounted st)" "dm_config ?s = dm_config st"
      using dm_flows_update [OF ok, of ?fl] by (simp_all add: dm_accounted_def)
    have c: "a \<in> set (cached_flows (dm_flows ?s))" using a by (simp add: cached_flows_def flow_put_def)
    show ?thesis
    proof (cases "tcpflow_iscomplete (f\<lparr>fl_value := v'\<rparr>)")
      case False
      with r get ap(1) s True show ?thesis by (auto simp: continue_flow_def Let_def)
    next
      case complete: True
      with r get ap(1) obtain w s2 where j: "judge_hello J E u (pk_payload pk) (fv_payload v') (fv_current v') ?s = Inr (w, s2)"
        "rbind (tcpflow_setverdict_and_free (pe_sendto E) a w (dm_flows s2)) (\<lambda>fl. Inr (s2\<lparr>dm_flows := fl\<rparr>)) = Inr st'"
        by (auto simp: continue_flow_def Let_def result_simps)
      note k = judge_hello_ok [OF s(1) j(1)]
      from k have "dm_flows s2 = (dm_flows ?s)\<lparr>net := net (dm_flows s2)\<rparr>" by blast
      from arg_cong [OF this, of cached_flows] have "cached_flows (dm_flows s2) = cached_flows (dm_flows ?s)"
        by (simp only: cached_flows_net)
      with c have "a \<in> set (cached_flows (dm_flows s2))" by simp
      from finish_flow_ok [OF _ this j(2)] k s True show ?thesis by simp
    qed
  qed
qed

text \<open>A new flow: the packet is held, judged by the collector, or accepted when no flow can be had.\<close>

lemma start_flow_ok:
  assumes ok: "daemon_ok st" and n: "n < h" "unat h \<le> 12000"
    and r: "start_flow E pk key payload n h st = Inr st'"
  shows "daemon_ok st' \<and> dm_config st' = dm_config st \<and> dm_accounted st' = add_mset (pk_id pk) (dm_accounted st)"
proof (cases "pe_calloc E")
  case False
  with r have "dm_verdict E (pk_id pk) NF_ACCEPT st = Inr st'" by (simp add: start_flow_def tcpflow_create_def)
  from dm_verdict_ok [OF this] ok show ?thesis by simp
next
  case True
  have fo: "flows_ok [] (dm_flows st)" using ok by (simp add: daemon_ok_def)
  let ?a = "fl_next (dm_flows st)" and ?c = "snd (tcpflow_create True key h (dm_flows st))"
  have c: "tcpflow_create True key h (dm_flows st) = (Some ?a, ?c)" by (simp add: tcpflow_create_def)
  have fc: "fst (tcpflow_create True key h (dm_flows st)) = Some ?a" by (simp add: tcpflow_create_def)
  note k = tcpflow_create_ok [OF fo c]
  then obtain f where f: "fl_heap ?c ?a = Some f" "fl_value f = \<lparr>fv_expected = h, fv_current = 0,
      fv_payload = replicate 12000 0, fv_ids = replicate 8 0, fv_index = 0\<rparr>" by auto
  have v: "value_ok (fl_value f)" "append_fits (fl_value f) n" "flow_ids f = []"
    using n by (simp_all add: f(2) value_ok_def append_fits_def flow_ids_def word_less_nat_alt)
  have get: "flow_get ?a ?c = Inr f" by (simp add: flow_get_def f)
  from r True fc get obtain b v' where "tcpflow_value_append (fl_value f) (pk_id pk) payload n = Inr (b, v')"
    by (auto simp: start_flow_def result_simps Let_def)
  with append_cases(2,3) [OF v(1,2)] obtain v' where ap: "tcpflow_value_append (fl_value f) (pk_id pk) payload n = Inr (True, v')"
    "value_ok v'" "take (fv_index v') (fv_ids v') = flow_ids f @ [pk_id pk]"
    unfolding flow_ids_def by (metis Inl_Inr_False not_le)
  let ?fl = "flow_put ?a (f\<lparr>fl_value := v'\<rparr>) ?c"
  have p: "flows_ok [?a] ?fl \<and> accounted [?a] ?fl = accounted [?a] ?c + mset [pk_id pk]"
    using k by (intro flow_put_ok [OF _ _ f(1) ap(2,3)]) simp_all
  from r True fc get ap(1) obtain fl where i: "tcpflow_insert (pe_malloc E) (pe_sendto E) (pe_flow_now E) ?a ?fl = Inr fl"
    "st' = st\<lparr>dm_flows := fl\<rparr>"
    by (auto simp: start_flow_def result_simps Let_def)
  from p have "flows_ok [?a] ?fl" by blast
  from tcpflow_insert_Inr [OF this i(1)] p k i(2) dm_flows_update [OF ok, of fl] show ?thesis by (simp add: dm_accounted_def)
qed

text \<open>The one packet the handler does not account for: its flow exists and cannot take it.\<close>

definition flow_full :: "packet_env \<Rightarrow> uwebfilterlog \<Rightarrow> packet_info \<Rightarrow> daemon \<Rightarrow> bool" where
  "flow_full E u pk st \<longleftrightarrow> (\<exists>ihl off tot src dst a f.
     ip_ihl (pk_payload pk) = Inr ihl \<and> tcp_off (pk_payload pk) (ihl * 4) = Inr off \<and> ip_tot_len (pk_payload pk) = Inr tot
     \<and> ip_saddr (pk_payload pk) = Inr src \<and> ip_daddr (pk_payload pk) = Inr dst \<and> 10 \<le> tcp_payload_length tot off ihl
     \<and> tcpflow_lookup (pe_pad E) \<lparr>fk_src = src, fk_dst = dst, fk_port = ul_srcport u\<rparr> (dm_flows st) = Inr (Some a)
     \<and> fl_heap (dm_flows st) a = Some f \<and> \<not> append_fits (fl_value f) (tcp_payload_length tot off ihl))"

lemma packet_handle_tcp443_ok:
  assumes ok: "daemon_ok st" and r: "packet_handle_tcp443 J E u pk st = Inr st'"
  shows "daemon_ok st' \<and> dm_config st' = dm_config st
    \<and> dm_accounted st' = (if flow_full E u pk st then dm_accounted st else add_mset (pk_id pk) (dm_accounted st))"
proof -
  let ?p = "pk_payload pk"
  from r obtain ihl off tot where h: "ip_ihl ?p = Inr ihl" "tcp_off ?p (ihl * 4) = Inr off" "ip_tot_len ?p = Inr tot"
    by (auto simp: packet_handle_tcp443_def result_simps Let_def)
  let ?n = "tcp_payload_length tot off ihl" and ?pl = "drop (ihl * 4 + off) ?p"
  have accept: ?thesis if "dm_verdict E (pk_id pk) NF_ACCEPT st = Inr st'" "\<not> flow_full E u pk st"
    using dm_verdict_ok [OF that(1)] that(2) ok by simp
  show ?thesis
  proof (cases "?n < 10")
    case True
    with r h have "dm_verdict E (pk_id pk) NF_ACCEPT st = Inr st'" by (simp add: packet_handle_tcp443_def)
    moreover have "\<not> flow_full E u pk st" using True h by (auto simp: flow_full_def)
    ultimately show ?thesis by (rule accept)
  next
    case False
    have fo: "flows_ok [] (dm_flows st)" using ok by (simp add: daemon_ok_def)
    from r h False obtain src dst fl where k: "ip_saddr ?p = Inr src" "ip_daddr ?p = Inr dst"
      "tcpflow_lookup (pe_pad E) \<lparr>fk_src = src, fk_dst = dst, fk_port = ul_srcport u\<rparr> (dm_flows st) = Inr fl"
      by (auto simp: packet_handle_tcp443_def result_simps Let_def)
    show ?thesis
    proof (cases fl)
      case (Some a)
      with tcpflow_lookup_Some [OF fo] k(3) obtain f where a: "a \<in> set (cached_flows (dm_flows st))"
        "fl_heap (dm_flows st) a = Some f" by blast
      have full: "flow_full E u pk st \<longleftrightarrow> \<not> append_fits (fl_value f) ?n"
        using h k Some a(2) False by (auto simp: flow_full_def not_less)
      from r h False k Some have "continue_flow J E u pk ?pl ?n a st = Inr st'"
        by (simp add: packet_handle_tcp443_def Let_def)
      from continue_flow_ok [OF ok a this] full show ?thesis by simp
    next
      case None
      have nf: "\<not> flow_full E u pk st" using h k None by (auto simp: flow_full_def)
      from r h False k None consider "dm_verdict E (pk_id pk) NF_ACCEPT st = Inr st'"
        | s1 v where "judge_hello J E u ?p ?pl ?n st = Inr (v, s1)" "dm_verdict E (pk_id pk) v s1 = Inr st'"
        | hl where "?n < hl" "unat hl \<le> 12000"
            "start_flow E pk \<lparr>fk_src = src, fk_dst = dst, fk_port = ul_srcport u\<rparr> ?pl ?n hl st = Inr st'"
        unfolding packet_handle_tcp443_def Let_def
        by (auto simp: result_simps FLOW_PAYLOAD_SIZE_def MAX_PACKET_COUNT_def MAX_PACKET_SIZE_def not_le not_less split: if_splits)
      then show ?thesis
      proof cases
        case 1
        with nf show ?thesis by (intro accept)
      next
        case 2
        from judge_hello_ok [OF ok 2(1)] dm_verdict_ok [OF 2(2)] nf show ?thesis by simp
      next
        case 3
        from start_flow_ok [OF ok 3] nf show ?thesis by simp
      qed
    qed
  qed
qed

interpretation tls: packet_handler "packet_handle_tcp443 J" for J
proof unfold_locales
  fix J :: "('j, 't) json_c" and E u pk st st'
  assume "daemon_ok st" and "packet_handle_tcp443 J E u pk st = Inr st'"
  note h = packet_handle_tcp443_ok [OF this]
  from h show "daemon_ok st' \<and> dm_config st' = dm_config st" by blast
  from h show "dm_accounted st' \<subseteq># add_mset (pk_id pk) (dm_accounted st)" by simp
  from h show "dm_accounted st \<subseteq># dm_accounted st'" by simp
qed

subsection \<open>Well-formed ClientHello messages\<close>

definition be_bytes :: "nat \<Rightarrow> byte list" where
  "be_bytes n = [of_nat (n div 256), of_nat n]"

definition ext_bytes :: "nat \<times> byte list \<Rightarrow> byte list" where
  "ext_bytes e = be_bytes (fst e) @ be_bytes (length (snd e)) @ snd e"

definition sni_data :: "byte list \<Rightarrow> byte list" where
  "sni_data name = be_bytes (length name + 3) @ [0] @ be_bytes (length name) @ name"

text \<open>
  The record: type, version, length, then the handshake message with its length, version and random
  value (37 bytes), session identifier, cipher suites, compression methods and extensions.
\<close>

definition hello_body :: "byte list \<Rightarrow> byte list \<Rightarrow> byte list \<Rightarrow> byte list \<Rightarrow> byte list \<Rightarrow> byte list" where
  "hello_body rnd session ciphers methods exts =
     rnd @ [of_nat (length session)] @ session @ be_bytes (length ciphers) @ ciphers @ [of_nat (length methods)] @ methods
     @ be_bytes (length exts) @ exts"

definition client_hello :: "byte list \<Rightarrow> byte list \<Rightarrow> byte list \<Rightarrow> byte list \<Rightarrow> byte list \<Rightarrow> byte list \<Rightarrow> byte list" where
  "client_hello ver rnd session ciphers methods exts =
     [0x16] @ ver @ be_bytes (length (hello_body rnd session ciphers methods exts) + 1) @ [0x01]
     @ hello_body rnd session ciphers methods exts"

definition hello_exts :: "(nat \<times> byte list) list \<Rightarrow> byte list \<Rightarrow> byte list \<Rightarrow> byte list" where
  "hello_exts others name rest = concat (map ext_bytes others) @ ext_bytes (0, sni_data name) @ rest"

lemma length_be_bytes [simp]: "length (be_bytes n) = 2"
  by (simp add: be_bytes_def)

lemma unat_of_nat16: "n < 65536 \<Longrightarrow> unat (of_nat n :: u16) = n"
  by (simp add: unsigned_of_nat take_bit_eq_mod)

lemma from_u8be_be16: "from_u8be (ucast a) (ucast b) = be16 a (b :: byte)"
proof -
  have "ucast b AND (0xFF :: u16) = ucast b"
  proof -
    have "(0xFF :: u16) = mask 8" by (simp add: mask_eq_exp_minus_1)
    then have "ucast b AND (0xFF :: u16) = take_bit 8 (ucast b)" by (simp only: take_bit_eq_mask)
    also have "\<dots> = ucast b" by (rule bit_word_eqI) (auto simp: bit_take_bit_iff bit_ucast_iff dest: bit_imp_le_length)
    finally show ?thesis .
  qed
  moreover have "push_bit 8 (ucast a :: u16) = ucast a * 256" by (simp add: push_bit_eq_mult)
  ultimately show ?thesis by (simp only: from_u8be_def be16_def)
qed

lemma from_u8be_bytes:
  assumes "n < 65536"
  shows "from_u8be (ucast (of_nat (n div 256) :: byte)) (ucast (of_nat n :: byte)) = of_nat n"
proof -
  have "unat (of_nat (n div 256) :: byte) = n div 256" "unat (of_nat n :: byte) = n mod 256"
    using assms by (simp_all add: unsigned_of_nat take_bit_eq_mod)
  then have "unat (be16 (of_nat (n div 256)) (of_nat n)) = n" by (simp add: unat_be16)
  with assms show ?thesis unfolding from_u8be_be16 by (simp add: word_unat_eq_iff unat_of_nat16)
qed

lemma u8be_at_bytes:
  assumes "drop i p = be_bytes n @ r" and "n < 65536"
  shows "u8be_at p i = Inr (of_nat n)"
proof -
  have 0: "drop i p = of_nat (n div 256) # of_nat n # r" using assms(1) by (simp add: be_bytes_def)
  then have "drop (i + 1) p = of_nat n # r" by (metis Suc_eq_plus1 drop_Suc list.sel(3) tl_drop)
  from drop_head [OF 0] drop_head [OF this] from_u8be_bytes [OF assms(2)] show ?thesis by (simp add: u8be_at_def)
qed

lemma u16_plus: "unat (a :: u16) + unat b < 65536 \<Longrightarrow> unat (a + b) = unat a + unat b"
  by (simp add: unat_word_ariths)

lemma drop_plus: "drop i p = a @ r \<Longrightarrow> drop (i + length a) p = r"
  by (metis add.commute append_eq_conv_conj drop_drop)

definition other_ext :: "nat \<times> byte list \<Rightarrow> bool" where
  "other_ext e \<longleftrightarrow> 0 < fst e \<and> fst e < 65536"

lemma length_ext_bytes: "length (ext_bytes e) = length (snd e) + 4"
  by (simp add: ext_bytes_def)

text \<open>The name, where the loop arrives at its extension.\<close>

lemma sni_found:
  assumes d: "drop (unat off) p = ext_bytes (0, sni_data name) @ r" and e: "unat off + 9 + length name \<le> unat end_off"
  shows "sni_loop (Suc k) p off end_off (replicate 256 0) = Inr (True, take 256 name @ replicate (256 - length name) 0)"
proof -
  have l: "unat off + 9 + length name < 65536" using e u16_less_65536 [of end_off] by simp
  have off: "unat (off + 2) = unat off + 2" "unat (off + 2 + 2 + 3) = unat off + 7" "unat (off + 2 + 2 + 3 + 2) = unat off + 9"
    using l u16_plus [of off 2] u16_plus [of off 7] u16_plus [of off 9] by (simp_all add: add.assoc)
  have x: "drop (unat off) p = be_bytes 0 @ be_bytes (length name + 5) @ (be_bytes (length name + 3) @ [0]) @ be_bytes (length name) @ name @ r"
    using d by (simp add: ext_bytes_def sni_data_def numeral_eq_Suc)
  then have x2: "drop (unat off + 2) p = be_bytes (length name + 5) @ (be_bytes (length name + 3) @ [0]) @ be_bytes (length name) @ name @ r"
    using drop_plus [OF x] by simp
  then have x7: "drop (unat off + 7) p = be_bytes (length name) @ name @ r"
    using drop_plus [OF drop_plus [OF x2]] by (simp add: numeral_eq_Suc)
  then have x9: "drop (unat off + 9) p = name @ r" using drop_plus [OF x7] by (simp add: numeral_eq_Suc)
  have 1: "u8be_at p (unat off) = Inr 0" using u8be_at_bytes [OF x] by simp
  have 2: "u8be_at p (unat off + 2) = Inr (of_nat (length name + 5))" using l by (intro u8be_at_bytes [OF x2]) simp
  have 3: "u8be_at p (unat off + 7) = Inr (of_nat (length name))" using l by (intro u8be_at_bytes [OF x7]) simp
  have m: "unat (min_u16 (of_nat (length name)) (of_nat DOMAIN_LENGTH)) = min (length name) 256"
    using l by (auto simp: min_u16_def DOMAIN_LENGTH_def word_less_nat_alt unat_of_nat16 min_def)
  have "length (drop (unat off + 9) p) = length (name @ r)" by (simp only: x9)
  then have "unat off + 9 + min (length name) 256 \<le> length p \<or> name = []" by (cases name) (auto simp: min_def)
  then have c: "c_memcpy (replicate 256 0) 0 p (unat off + 9) (min (length name) 256) =
      Inr (take 256 name @ replicate (256 - length name) 0)"
  proof
    assume "unat off + 9 + min (length name) 256 \<le> length p"
    then show ?thesis by (subst c_memcpy_ok) (simp_all add: x9 min_def)
  next
    assume n: "name = []"
    have "drop (unat off + 7) p = be_bytes 0 @ r" using x7 n by simp
    then have "length (drop (unat off + 7) p) \<ge> 2" by simp
    then have "unat off + 9 \<le> length p" by simp
    with n show ?thesis by (subst c_memcpy_ok) simp_all
  qed
  have "off < end_off" using e by (simp add: word_less_nat_alt)
  then show ?thesis unfolding sni_loop.simps off 1 2 3 rbind.simps m c by simp
qed

lemma sni_loop_finds:
  assumes "list_all other_ext others" and "length others < k"
    and "drop (unat off) p = concat (map ext_bytes others) @ ext_bytes (0, sni_data name) @ r"
    and "unat off + length (concat (map ext_bytes others)) + 9 + length name \<le> unat end_off"
  shows "sni_loop k p off end_off (replicate 256 0) = Inr (True, take 256 name @ replicate (256 - length name) 0)"
  using assms
proof (induction others arbitrary: k off)
  case Nil
  then show ?case by (cases k) (simp, simp only: sni_found list.map concat.simps append_Nil list.size add_0_right)
next
  case (Cons e others)
  let ?r = "concat (map ext_bytes others) @ ext_bytes (0, sni_data name) @ r"
  obtain k' where k: "k = Suc k'" using Cons.prems(2) by (cases k) auto
  have e: "other_ext e" using Cons.prems(1) by simp
  have b: "unat off + (length (snd e) + 4) + length (concat (map ext_bytes others)) + 9 + length name \<le> unat end_off"
    using Cons.prems(4) by (simp add: length_ext_bytes)
  have l: "unat off + (length (snd e) + 4) < 65536" "length (snd e) < 65536" using b u16_less_65536 [of end_off] by simp_all
  have x: "drop (unat off) p = be_bytes (fst e) @ be_bytes (length (snd e)) @ snd e @ ?r"
    using Cons.prems(3) ext_bytes_def [of e] by simp
  have x2: "drop (unat off + 2) p = be_bytes (length (snd e)) @ snd e @ ?r" using drop_plus [OF x] by simp
  have x4: "drop (unat off + (length (snd e) + 4)) p = ?r" using drop_plus [OF drop_plus [OF x2]] by (simp add: numeral_eq_Suc)
  have off: "unat (off + 2) = unat off + 2" "unat (off + 2 + 2 + of_nat (length (snd e))) = unat off + (length (snd e) + 4)"
    using l u16_plus [of off 2] u16_plus [of off 4] u16_plus [of "off + 4" "of_nat (length (snd e))"]
    by (simp_all add: add.assoc unat_of_nat16)
  have 1: "u8be_at p (unat off) = Inr (of_nat (fst e))" using e by (intro u8be_at_bytes [OF x]) (simp add: other_ext_def)
  have 2: "u8be_at p (unat off + 2) = Inr (of_nat (length (snd e)))" by (rule u8be_at_bytes [OF x2 l(2)])
  have "unat (of_nat (fst e) :: u16) \<noteq> 0" using e by (simp add: other_ext_def unat_of_nat16)
  then have nz: "(of_nat (fst e) :: u16) \<noteq> 0" by auto
  have "off < end_off" using b by (simp add: word_less_nat_alt)
  then have "sni_loop k p off end_off (replicate 256 0) =
      sni_loop k' p (off + 2 + 2 + of_nat (length (snd e))) end_off (replicate 256 0)"
    using 1 2 nz by (simp add: k off(1))
  also have "\<dots> = Inr (True, take 256 name @ replicate (256 - length name) 0)"
  proof (rule Cons.IH)
    show "list_all other_ext others" "length others < k'" using Cons.prems(1,2) by (simp_all add: k)
    show "drop (unat (off + 2 + 2 + of_nat (length (snd e)))) p = ?r" unfolding off(2) by (rule x4)
    show "unat (off + 2 + 2 + of_nat (length (snd e))) + length (concat (map ext_bytes others)) + 9 + length name \<le> unat end_off"
      unfolding off(2) using b by simp
  qed
  finally show ?case .
qed

text \<open>The offsets of the fields of a ClientHello.\<close>

lemma client_hello_fields:
  fixes ver rnd session ciphers methods exts tail
  assumes "length ver = 2" and "length rnd = 37"
  defines "p \<equiv> client_hello ver rnd session ciphers methods exts @ tail"
    and "a \<equiv> length session" and "b \<equiv> length ciphers" and "c \<equiv> length methods"
  shows "drop 0 p = 0x16 # drop 1 p" "drop 3 p = be_bytes (44 + a + b + c + length exts) @ 0x01 # drop 6 p" "drop 5 p = 0x01 # drop 6 p"
    "drop 43 p = of_nat a # drop 44 p" "drop (44 + a) p = be_bytes b @ drop (46 + a) p"
    "drop (46 + a + b) p = of_nat c # drop (47 + a + b) p" "drop (47 + a + b + c) p = be_bytes (length exts) @ drop (49 + a + b + c) p"
    "drop (49 + a + b + c) p = exts @ tail"
proof -
  let ?hs = "44 + a + b + c + length exts"
  have l: "length (hello_body rnd session ciphers methods exts) + 1 = ?hs"
    using assms(2) by (simp add: hello_body_def a_def b_def c_def)
  let ?r1 = "be_bytes (length exts) @ exts @ tail"
  let ?r2 = "of_nat c # methods @ ?r1"
  let ?r3 = "be_bytes b @ ciphers @ ?r2"
  let ?r4 = "of_nat a # session @ ?r3"
  have p0: "drop 0 p = [0x16] @ ver @ be_bytes ?hs @ [0x01] @ rnd @ ?r4"
    unfolding p_def client_hello_def l by (simp add: hello_body_def a_def b_def c_def)
  have p1: "drop 1 p = ver @ be_bytes ?hs @ [0x01] @ rnd @ ?r4" using drop_plus [OF p0] by simp
  have p3: "drop 3 p = be_bytes ?hs @ [0x01] @ rnd @ ?r4" using drop_plus [OF p1] assms(1) by (simp add: numeral_eq_Suc)
  have p5: "drop 5 p = [0x01] @ rnd @ ?r4" using drop_plus [OF p3] by simp
  have p6: "drop 6 p = rnd @ ?r4" using drop_plus [OF p5] by simp
  have p43: "drop 43 p = [of_nat a] @ session @ ?r3" using drop_plus [OF p6] assms(2) by simp
  have p44: "drop 44 p = session @ ?r3" using drop_plus [OF p43] by simp
  have q1: "drop (44 + a) p = ?r3" using drop_plus [OF p44] by (simp add: a_def)
  have q2: "drop (46 + a) p = ciphers @ ?r2" using drop_plus [OF q1] by (simp add: add.commute)
  have q3: "drop (46 + a + b) p = [of_nat c] @ methods @ ?r1" using drop_plus [OF q2] by (simp add: b_def)
  have q4: "drop (47 + a + b) p = methods @ ?r1" using drop_plus [OF q3] by (simp add: ac_simps)
  have q5: "drop (47 + a + b + c) p = ?r1" using drop_plus [OF q4] by (simp add: c_def)
  have q6: "drop (49 + a + b + c) p = exts @ tail" using drop_plus [OF q5] by (simp add: ac_simps)
  show "drop 0 p = 0x16 # drop 1 p" "drop 3 p = be_bytes ?hs @ 0x01 # drop 6 p" "drop 5 p = 0x01 # drop 6 p"
    "drop 43 p = of_nat a # drop 44 p" "drop (44 + a) p = be_bytes b @ drop (46 + a) p"
    "drop (46 + a + b) p = of_nat c # drop (47 + a + b) p" "drop (47 + a + b + c) p = be_bytes (length exts) @ drop (49 + a + b + c) p"
    "drop (49 + a + b + c) p = exts @ tail"
    using p0 p1 p3 p5 p6 p43 p44 q1 q2 q3 q4 q5 q6 by simp_all
qed

lemma extract_sni_hello:
  assumes l: "length ver = 2" "length rnd = 37" "length session < 256" "length methods < 256"
    and o: "list_all other_ext others" "length others < 50"
    and t: "length (client_hello ver rnd session ciphers methods (hello_exts others name rest)) < 65536"
    and n: "length (client_hello ver rnd session ciphers methods (hello_exts others name rest)) \<le> unat n + 5"
  shows "extract_sni (replicate 256 0) (client_hello ver rnd session ciphers methods (hello_exts others name rest) @ tail) n =
    Inr (True, take 256 name @ replicate (256 - length name) 0)"
proof -
  let ?e = "hello_exts others name rest" and ?a = "length session" and ?b = "length ciphers" and ?c = "length methods"
  let ?p = "client_hello ver rnd session ciphers methods ?e @ tail"
  define hs o1 o2 o3 o4 where d: "hs = 44 + ?a + ?b + ?c + length ?e" "o1 = 44 + ?a" "o2 = 45 + ?a + ?b"
    "o3 = 47 + ?a + ?b + ?c" "o4 = 49 + ?a + ?b + ?c"
  note f = client_hello_fields [OF l(1,2), of session ciphers methods ?e tail, folded d]
  have el: "length (concat (map ext_bytes others)) + 9 + length name \<le> length ?e"
    by (simp add: hello_exts_def length_ext_bytes sni_data_def)
  have "length (client_hello ver rnd session ciphers methods ?e) = hs + 5"
    using l by (simp add: client_hello_def hello_body_def d)
  then have hs: "hs + 5 < 65536" "hs \<le> unat n" using t n by simp_all
  have b: "hs < 65536" "o1 < 65536" "o2 < 65536" "o3 < 65536" "o4 < 65536" "?a < 65536" "?b < 65536" "length ?e < 65536"
    "o4 + length ?e < 65536" "o2 \<le> hs" "o3 \<le> hs" "?a + 45 \<le> hs" "45 \<le> hs" using hs(1) el by (simp_all add: d)
  note v = unat_of_nat16 [OF b(1)] unat_of_nat16 [OF b(2)] unat_of_nat16 [OF b(3)] unat_of_nat16 [OF b(4)] unat_of_nat16 [OF b(5)]
    unat_of_nat16 [OF b(6)]
  have u: "(ucast (of_nat ?a :: byte) :: u16) = of_nat ?a" "(ucast (of_nat ?c :: byte) :: u16) = of_nat ?c"
    using l(3,4) by (simp_all add: word_unat_eq_iff unsigned_ucast_eq unsigned_of_nat take_bit_eq_mod)
  have s: "43 + of_nat ?a + 1 = (of_nat o1 :: u16)" "43 + of_nat ?a + of_nat ?b + 2 = (of_nat o2 :: u16)"
    "of_nat o2 + (of_nat ?c + 2) = (of_nat o3 :: u16)" "2 + of_nat o3 = (of_nat o4 :: u16)" by (simp_all add: d)
  have g: "\<not> n < of_nat hs" "\<not> of_nat hs < (of_nat o2 :: u16)" "\<not> of_nat hs < (of_nat o3 :: u16)" "\<not> n < 10"
    "\<not> unat n < 43 + 2" "\<not> unat (of_nat hs :: u16) < unat (of_nat ?a :: u16) + 43 + 2"
    unfolding word_less_nat_alt v using hs(2) b by simp_all
  have i: "o2 + 1 = 46 + ?a + ?b" "unat (43 :: u16) = 43" by (simp_all add: d)
  have r: "rd8 ?p 0 = Inr 0x16" "rd8 ?p 5 = Inr 0x01" "rd8 ?p 43 = Inr (of_nat ?a)" "rd8 ?p (46 + ?a + ?b) = Inr (of_nat ?c)"
    by (rule drop_head [OF f(1)], rule drop_head [OF f(3)], rule drop_head [OF f(4)], rule drop_head [OF f(6)])
  have q: "u8be_at ?p 3 = Inr (of_nat hs)" "u8be_at ?p o1 = Inr (of_nat ?b)" "u8be_at ?p o3 = Inr (of_nat (length ?e))"
    by (rule u8be_at_bytes [OF f(2) b(1)], rule u8be_at_bytes [OF f(5) b(7)], rule u8be_at_bytes [OF f(7) b(8)])
  have loop: "sni_loop 50 ?p (of_nat o4) (of_nat o4 + of_nat (length ?e)) (replicate 256 0) =
      Inr (True, take 256 name @ replicate (256 - length name) 0)"
  proof (rule sni_loop_finds [OF o])
    have "unat (of_nat o4 + of_nat (length ?e) :: u16) = o4 + length ?e" using unat_of_nat16 [OF b(9)] by simp
    then show "unat (of_nat o4 :: u16) + length (concat (map ext_bytes others)) + 9 + length name
        \<le> unat (of_nat o4 + of_nat (length ?e) :: u16)" unfolding v using el by simp
    show "drop (unat (of_nat o4 :: u16)) ?p = concat (map ext_bytes others) @ ext_bytes (0, sni_data name) @ rest @ tail"
      unfolding v f(8) by (simp add: hello_exts_def)
  qed
  have r4: "rd8 ?p (Suc o2) = Inr (of_nat ?c)" using r(4) unfolding i(1) [symmetric] by simp
  show ?thesis
    unfolding extract_sni_def Let_def r q u rbind.simps i(2) s v(2,4) using g r q loop by (simp add: r4 u s v)
qed

subsection \<open>Properties\<close>

text \<open>
  C19: From a ClientHello of at most 65535 bytes, with any session identifier, cipher suites and
  compression methods and up to 49 extensions before the server name extension, the parser extracts
  the server name: its first 256 bytes are copied into the domain.  A name of up to 255 bytes is
  terminated; a longer one fills the domain, which is then not a C string.
\<close>

theorem sni_extracted:
  assumes "length ver = 2" "length rnd = 37" "length session < 256" "length methods < 256"
    and "list_all other_ext others" "length others < 50"
    and "length (client_hello ver rnd session ciphers methods (hello_exts others name rest)) < 65536"
    and "length (client_hello ver rnd session ciphers methods (hello_exts others name rest)) \<le> unat n + 5" and "0 \<notin> set name"
  shows "\<exists>domain. extract_sni (replicate 256 0)
      (client_hello ver rnd session ciphers methods (hello_exts others name rest) @ tail) n = Inr (True, domain)
    \<and> length domain = 256 \<and> take (length name) domain = take 256 name
    \<and> (terminated domain \<longleftrightarrow> length name < 256) \<and> (length name < 256 \<longrightarrow> cstr domain = name)"
proof -
  let ?d = "take 256 name @ replicate (256 - length name) 0"
  have z: "0 \<notin> set (take 256 name)" using assms(9) by (meson in_set_takeD)
  have "terminated ?d \<longleftrightarrow> length name < 256" using terminated_append_zeros [OF z] by auto
  moreover have "length name < 256 \<longrightarrow> cstr ?d = name" using assms(9) by simp
  moreover have "length ?d = 256" "take (length name) ?d = take 256 name" by (auto simp: min_def)
  ultimately show ?thesis using extract_sni_hello [OF assms(1-8), of tail] by blast
qed

definition sample_hello :: "byte list" where
  "sample_hello = client_hello [3, 1] (replicate 37 7) [] [0x13, 0x01] [0]
     (hello_exts [(10, [0, 2, 0, 29])] (bytes ''a.com'') [])"

lemma sample_hello_length: "length sample_hello = 74"
  by (simp add: sample_hello_def client_hello_def hello_body_def hello_exts_def ext_bytes_def sni_data_def bytes_def)

theorem sni_extracted_witness:
  "\<exists>domain. extract_sni (replicate 256 0) sample_hello 74 = Inr (True, domain) \<and> cstr domain = bytes ''a.com''"
proof -
  have o: "list_all other_ext [(10, [0, 2, 0, 29])]" by (simp add: other_ext_def)
  have z: "0 \<notin> set (bytes ''a.com'')" "length (bytes ''a.com'') < 256" by (simp_all add: bytes_def)
  note l = sample_hello_length [unfolded sample_hello_def]
  show ?thesis unfolding sample_hello_def
    using sni_extracted [of "[3, 1]" "replicate 37 7" "[]" "[0]" "[(10, [0, 2, 0, 29])]" "[0x13, 0x01]" "bytes ''a.com''" "[]" 74 "[]"]
      o z l by auto
qed

text \<open>A TCP packet of a connection: the payload (to the end of the buffer) and its length.\<close>

definition tls_packet :: "packet_info \<Rightarrow> tcpflow_key \<Rightarrow> byte list \<Rightarrow> u16 \<Rightarrow> bool" where
  "tls_packet pk key payload n \<longleftrightarrow> (\<exists>ihl off tot.
     ip_ihl (pk_payload pk) = Inr ihl \<and> tcp_off (pk_payload pk) (ihl * 4) = Inr off \<and> ip_tot_len (pk_payload pk) = Inr tot
     \<and> ip_saddr (pk_payload pk) = Inr (fk_src key) \<and> ip_daddr (pk_payload pk) = Inr (fk_dst key)
     \<and> drop (ihl * 4 + off) (pk_payload pk) = payload \<and> n = tcp_payload_length tot off ihl \<and> 10 \<le> n)"

lemma key_eta: "\<lparr>fk_src = fk_src key, fk_dst = fk_dst key, fk_port = fk_port key\<rparr> = key"
  by simp

lemma tls_packet_key:
  assumes "tls_packet pk key payload n" and "ul_srcport u = fk_port key"
    and "tcpflow_lookup (pe_pad E) key (dm_flows st) = Inr (Some a)"
  shows "packet_handle_tcp443 J E u pk st = continue_flow J E u pk payload n a st"
  using assms by (auto simp: tls_packet_def packet_handle_tcp443_def Let_def not_less key_eta)

lemma tls_packet_hello:
  assumes "tls_packet pk key payload n" and "ul_srcport u = fk_port key"
    and "tcpflow_lookup (pe_pad E) key (dm_flows st) = Inr None"
    and "rd8 payload 0 = Inr 0x16" and "rd8 payload 5 = Inr 0x01" and "u8be_at payload 3 = Inr h"
  shows "packet_handle_tcp443 J E u pk st =
    (if h \<le> n then rbind (judge_hello J E u (pk_payload pk) payload n st) (\<lambda>(verdict, st). dm_verdict E (pk_id pk) verdict st)
     else if 12000 < unat h then dm_verdict E (pk_id pk) NF_ACCEPT st
     else start_flow E pk key payload n h st)"
  using assms by (auto simp: tls_packet_def packet_handle_tcp443_def Let_def not_less key_eta FLOW_PAYLOAD_SIZE_def
      MAX_PACKET_COUNT_def MAX_PACKET_SIZE_def)

text \<open>A new flow is created with the packet in it, and inserted.\<close>

lemma start_flow_eq:
  assumes ok: "flows_ok [] (dm_flows st)" and n: "n < h" "unat h \<le> 12000" "unat n \<le> length payload" and E: "pe_calloc E"
  shows "\<exists>f fl. start_flow E pk key payload n h st =
      rbind (tcpflow_insert (pe_malloc E) (pe_sendto E) (pe_flow_now E) (fl_next (dm_flows st)) fl) (\<lambda>fl. Inr (st\<lparr>dm_flows := fl\<rparr>))
    \<and> flows_ok [fl_next (dm_flows st)] fl \<and> fl_heap fl (fl_next (dm_flows st)) = Some f \<and> fl_key f = key
    \<and> fl_cache fl = fl_cache (dm_flows st) \<and> fl_last_gc fl = fl_last_gc (dm_flows st) \<and> net fl = net (dm_flows st)
    \<and> flow_ids f = [pk_id pk] \<and> fv_expected (fl_value f) = h \<and> unat (fv_current (fl_value f)) = unat n \<and> fv_index (fl_value f) = 1
    \<and> take (unat n) (fv_payload (fl_value f)) = take (unat n) payload"
proof -
  let ?a = "fl_next (dm_flows st)" and ?c = "snd (tcpflow_create True key h (dm_flows st))"
  have c: "tcpflow_create True key h (dm_flows st) = (Some ?a, ?c)" by (simp add: tcpflow_create_def)
  have fc: "fst (tcpflow_create True key h (dm_flows st)) = Some ?a" "fl_last_gc ?c = fl_last_gc (dm_flows st)"
    by (simp_all add: tcpflow_create_def)
  note k = tcpflow_create_ok [OF ok c]
  then obtain f where f: "fl_heap ?c ?a = Some f" "fl_key f = key" "fl_value f = \<lparr>fv_expected = h, fv_current = 0,
      fv_payload = replicate 12000 0, fv_ids = replicate 8 0, fv_index = 0\<rparr>" by auto
  have v: "value_ok (fl_value f)" "append_fits (fl_value f) n" "flow_ids f = []"
    using n by (simp_all add: f(3) value_ok_def append_fits_def flow_ids_def word_less_nat_alt)
  have get: "flow_get ?a ?c = Inr f" by (simp add: flow_get_def f)
  from append_cases(3) [OF v(1,2) n(3), of "pk_id pk"] obtain v' where ap:
    "tcpflow_value_append (fl_value f) (pk_id pk) payload n = Inr (True, v')" "value_ok v'" "fv_expected v' = h"
    "unat (fv_current v') = unat n" "take (unat n) (fv_payload v') = take (unat n) payload" "fv_index v' = 1"
    "take (fv_index v') (fv_ids v') = flow_ids f @ [pk_id pk]"
    by (auto simp: f(3) flow_ids_def)
  let ?f = "f\<lparr>fl_value := v'\<rparr>"
  have "flows_ok [?a] (flow_put ?a ?f ?c)" using flow_put_ok [OF _ _ f(1) ap(2,7), of "[?a]"] k by simp
  then show ?thesis using k fc E get ap v(3) f(2)
    by (intro exI [of _ ?f] exI [of _ "flow_put ?a ?f ?c"]) (simp add: start_flow_def flow_put_def flow_ids_def)
qed

text \<open>A flow that was just started, when no collection is due.\<close>

lemma start_flow_held:
  assumes ok: "flows_ok [] (dm_flows st)" and n: "n < h" "unat h \<le> 12000" "unat n \<le> length payload"
    and E: "pe_calloc E" and gc: "\<not> fl_last_gc (dm_flows st) < pe_flow_now E - 60"
    and key: "tcpflow_lookup [0, 0] key (dm_flows st) = Inr None" and r: "start_flow E pk key payload n h st = Inr st'"
  shows "\<exists>a f. flows_ok [] (dm_flows st') \<and> tcpflow_lookup [0, 0] key (dm_flows st') = Inr (Some a)
    \<and> fl_heap (dm_flows st') a = Some f \<and> a \<in> set (cached_flows (dm_flows st')) \<and> flow_ids f = [pk_id pk]
    \<and> fv_expected (fl_value f) = h \<and> unat (fv_current (fl_value f)) = unat n \<and> fv_index (fl_value f) = 1
    \<and> take (unat n) (fv_payload (fl_value f)) = take (unat n) payload
    \<and> st' = st\<lparr>dm_flows := dm_flows st'\<rparr> \<and> dm_net st' = dm_net st"
proof -
  let ?a = "fl_next (dm_flows st)"
  from start_flow_eq [OF ok n E, of pk key] obtain f fl0 where s: "start_flow E pk key payload n h st =
      rbind (tcpflow_insert (pe_malloc E) (pe_sendto E) (pe_flow_now E) ?a fl0) (\<lambda>fl. Inr (st\<lparr>dm_flows := fl\<rparr>))"
    and p: "flows_ok [?a] fl0" and f: "fl_heap fl0 ?a = Some f" "fl_key f = key"
    and e: "fl_cache fl0 = fl_cache (dm_flows st)" "fl_last_gc fl0 = fl_last_gc (dm_flows st)" "net fl0 = net (dm_flows st)"
    and v: "flow_ids f = [pk_id pk]" "fv_expected (fl_value f) = h" "unat (fv_current (fl_value f)) = unat n"
      "fv_index (fl_value f) = 1" "take (unat n) (fv_payload (fl_value f)) = take (unat n) payload" by blast
  from r s obtain fl where i: "tcpflow_insert (pe_malloc E) (pe_sendto E) (pe_flow_now E) ?a fl0 = Inr fl" "st' = st\<lparr>dm_flows := fl\<rparr>"
    by (auto simp: result_simps)
  have g2: "flow_get ?a fl0 = Inr f" by (simp add: flow_get_def f)
  from i(1) gc obtain t where t: "HASH_ADD (pe_malloc E) (key_bytes [0, 0] key) ?a (fl_cache (dm_flows st)) = Inr t" "fl = fl0\<lparr>fl_cache := t\<rparr>"
    by (auto simp: tcpflow_insert_def g2 e f(2) result_simps Let_def)
  have "?a \<notin> set (cached_flows (dm_flows st))" using flows_okD(2) [OF p] by (simp add: cached_flows_def e(1))
  then have ti: "uthash_ok t" "hash_items t = hash_items (fl_cache (dm_flows st)) @ [(key_bytes [0, 0] key, ?a)]"
    using ut.add_Inr [OF flows_okD(1) [OF ok] _ t(1)] by (auto simp: cached_flows_def)
  have nk: "key_bytes [0, 0] key \<notin> fst ` set (hash_items (fl_cache (dm_flows st)))"
    using ut.look_correct [OF flows_okD(1) [OF ok], of "key_bytes [0, 0] key"] key by (auto simp: tcpflow_lookup_def)
  have "tcpflow_lookup [0, 0] key fl = Inr (Some ?a)"
    using ut.look_correct [OF ti(1), of "key_bytes [0, 0] key"] nk
    by (force simp: tcpflow_lookup_def t(2) ti(2) split: option.splits)
  moreover have "flows_ok [] fl" using tcpflow_insert_Inr [OF p i(1)] by blast
  moreover have "?a \<in> set (cached_flows fl)" by (simp add: cached_flows_def t(2) ti(2))
  ultimately show ?thesis using v i(2) e(3) f(1)
    by (intro exI [of _ ?a] exI [of _ f]) (simp add: dm_net_def t(2))
qed

text \<open>A complete ClientHello with a server name of at most 255 bytes.\<close>

definition hello_for :: "byte list \<Rightarrow> byte list \<Rightarrow> bool" where
  "hello_for hello name \<longleftrightarrow> (\<exists>ver rnd session ciphers methods others rest.
     hello = client_hello ver rnd session ciphers methods (hello_exts others name rest)
     \<and> length ver = 2 \<and> length rnd = 37 \<and> length session < 256 \<and> length methods < 256
     \<and> list_all other_ext others \<and> length others < 50 \<and> length hello < 65536 \<and> 0 \<notin> set name \<and> length name < 256)"

lemma hello_for_facts:
  assumes "hello_for hello name"
  shows "rd8 (hello @ t) 0 = Inr 0x16" "rd8 (hello @ t) 5 = Inr 0x01" "u8be_at (hello @ t) 3 = Inr (of_nat (length hello - 5))"
    "length hello \<le> unat n + 5 \<Longrightarrow> extract_sni (replicate 256 0) (hello @ t) n = Inr (True, name @ replicate (256 - length name) 0)"
    "length hello < 65536" "49 < length hello"
proof -
  from assms obtain ver rnd session ciphers methods others rest where
    h: "hello = client_hello ver rnd session ciphers methods (hello_exts others name rest)"
    and l: "length ver = 2" "length rnd = 37" "length session < 256" "length methods < 256" "list_all other_ext others" "length others < 50"
      "length hello < 65536" "length name < 256" by (auto simp: hello_for_def)
  let ?e = "hello_exts others name rest"
  note f = client_hello_fields [OF l(1,2), of session ciphers methods ?e t, folded h]
  have n: "length hello = 44 + length session + length ciphers + length methods + length ?e + 5"
    using l(1,2) by (simp add: h client_hello_def hello_body_def)
  show "rd8 (hello @ t) 0 = Inr 0x16" by (rule drop_head [OF f(1)])
  show "rd8 (hello @ t) 5 = Inr 0x01" by (rule drop_head [OF f(3)])
  have "length hello - 5 = 44 + length session + length ciphers + length methods + length ?e" using n by simp
  then show "u8be_at (hello @ t) 3 = Inr (of_nat (length hello - 5))" using u8be_at_bytes [OF f(2)] l(7) n by simp
  show "extract_sni (replicate 256 0) (hello @ t) n = Inr (True, name @ replicate (256 - length name) 0)"
    if "length hello \<le> unat n + 5"
    using extract_sni_hello [OF l(1-6) l(7) [unfolded h] that [unfolded h], of t] l(8) h by simp
  show "length hello < 65536" by (rule l(7))
  show "49 < length hello" using n by (simp add: hello_exts_def length_ext_bytes)
qed

lemma judge_hello_sni:
  assumes e: "extract_sni (ul_domain u) payload n = Inr (True, d)" and r: "judge_hello J E u packet payload n st = Inr (v, st')"
  shows "\<exists>u' s1. check_access J E (u\<lparr>ul_domain := d\<rparr>) packet st = Inr (v, u', s1) \<and> verdicts (dm_net st') = verdicts (dm_net st)"
proof -
  from r e obtain u' s1 where c: "check_access J E (u\<lparr>ul_domain := d\<rparr>) packet st = Inr (v, u', s1)"
    and t: "(if v = NF_DROP then tcp_reset E ''TCP(443) RST: '' (ul_domain u') packet s1 else Inr s1) = Inr st'"
    by (auto simp: judge_hello_def result_simps)
  from c have n: "dm_net s1 = dm_net st" by (rule check_access_steps) (simp add: dm_net_def)
  have "verdicts (dm_net st') = verdicts (dm_net s1)"
    using t by (auto dest: tcp_reset_verdicts split: if_splits)
  with c n show ?thesis by auto
qed

text \<open>A ClientHello in one packet.\<close>

lemma tls_hello_verdict:
  assumes h: "hello_for hello name" and p: "tls_packet pk key (hello @ tail) n" "length hello \<le> unat n + 5"
    and k: "ul_srcport u = fk_port key" "tcpflow_lookup (pe_pad E) key (dm_flows st) = Inr None"
    and u: "ul_domain u = replicate 256 0" and run: "packet_handle_tcp443 J E u pk st = Inr st'"
  shows "\<exists>v u' s1. check_access J E (u\<lparr>ul_domain := name @ replicate (256 - length name) 0\<rparr>) (pk_payload pk) st = Inr (v, u', s1)
    \<and> verdicts (dm_net st') = verdicts (dm_net st) @ [(pk_id pk, v)]"
proof -
  note f = hello_for_facts [OF h]
  have "of_nat (length hello - 5) \<le> n" using f(5) p(2) by (simp add: word_le_nat_alt unat_of_nat16)
  with run obtain v s1 where j: "judge_hello J E u (pk_payload pk) (hello @ tail) n st = Inr (v, s1)" "dm_verdict E (pk_id pk) v s1 = Inr st'"
    unfolding tls_packet_hello [where E = E, OF p(1) k f(1-3)] by (auto simp: result_simps)
  from judge_hello_sni [OF _ j(1)] f(4) [OF p(2)] u j(2) show ?thesis by (fastforce simp: dm_verdict_Inr)
qed

text \<open>
  C6: A ClientHello that arrives in one packet, on a connection for which no flow is pending, is judged by
  its server name whenever the handler completes: the verdict sent for the packet is the one
  \<open>check_access\<close> gives for that name, it is the only verdict sent, and no flow keeps the packet.  The TCP
  payload has at least 10 bytes and holds the whole ClientHello, the log record is fresh, and the message
  has fewer than 50 other extensions and a server name of at most 255 bytes without a NUL.
\<close>

theorem tls_hello_judged:
  assumes h: "hello_for hello name" and p: "tls_packet pk key (hello @ tail) n" "length hello \<le> unat n + 5"
    and k: "ul_srcport u = fk_port key" "tcpflow_lookup (pe_pad E) key (dm_flows st) = Inr None"
    and u: "ul_domain u = replicate 256 0" and ok: "daemon_ok st" and run: "packet_handle_tcp443 J E u pk st = Inr st'"
  shows "\<exists>v u' s1. check_access J E (u\<lparr>ul_domain := name @ replicate (256 - length name) 0\<rparr>) (pk_payload pk) st = Inr (v, u', s1)
    \<and> verdicts (dm_net st') = verdicts (dm_net st) @ [(pk_id pk, v)] \<and> daemon_ok st'
    \<and> dm_accounted st' = add_mset (pk_id pk) (dm_accounted st)"
proof -
  have "\<not> flow_full E u pk st" using p(1) k by (auto simp: flow_full_def tls_packet_def key_eta)
  with packet_handle_tcp443_ok [OF ok run] tls_hello_verdict [OF h p k u run] show ?thesis by auto
qed

text \<open>The packet that completes a flow: the whole buffer is parsed, and every packet of the flow judged.\<close>

lemma continue_flow_eq:
  assumes fo: "flows_ok [] (dm_flows st)" and a: "a \<in> set (cached_flows (dm_flows st))" "fl_heap (dm_flows st) a = Some f"
    and x: "unat (fv_current (fl_value f)) = length x" "take (length x) (fv_payload (fl_value f)) = x"
    and n: "unat n = length y" "append_fits (fl_value f) n" "unat (fv_expected (fl_value f)) \<le> length (x @ y)"
  shows "\<exists>fl f' t n'. continue_flow J E u pk (y @ r2) n a st =
      rbind (judge_hello J E u (pk_payload pk) ((x @ y) @ t) n' (st\<lparr>dm_flows := fl\<rparr>)) (\<lambda>(verdict, st).
      rbind (tcpflow_setverdict_and_free (pe_sendto E) a verdict (dm_flows st)) (\<lambda>fl. Inr (st\<lparr>dm_flows := fl\<rparr>)))
    \<and> unat n' = length (x @ y) \<and> flows_ok [] fl \<and> a \<in> set (cached_flows fl) \<and> fl_heap fl a = Some f'
    \<and> flow_ids f' = flow_ids f @ [pk_id pk] \<and> net fl = net (dm_flows st)"
proof -
  from append_cases(3) [OF flows_okD(5) [OF fo a(2)] n(2), of "y @ r2" "pk_id pk"] n(1) obtain w where w:
    "tcpflow_value_append (fl_value f) (pk_id pk) (y @ r2) n = Inr (True, w)" "value_ok w"
    "fv_expected w = fv_expected (fl_value f)" "unat (fv_current w) = length (x @ y)" "take (length (x @ y)) (fv_payload w) = x @ y"
    "take (fv_index w) (fv_ids w) = flow_ids f @ [pk_id pk]"
    by (auto simp: x flow_ids_def)
  let ?f = "f\<lparr>fl_value := w\<rparr>"
  let ?fl = "flow_put a ?f (dm_flows st)"
  obtain t where t: "fv_payload w = (x @ y) @ t" using w(5) by (metis append_take_drop_id)
  have "tcpflow_iscomplete ?f" using w(3,4) n(3) by (simp add: tcpflow_iscomplete_def word_le_nat_alt)
  moreover have "flows_ok [] ?fl" using flow_put_ok [OF fo _ a(2) w(2,6)] a(1) by simp
  ultimately show ?thesis
    using a w(1,4,6) unfolding continue_flow_def t [symmetric]
    by (intro exI [of _ ?fl] exI [of _ ?f] exI [of _ t] exI [of _ "fv_current w"])
       (simp add: t flow_get_def flow_put_def cached_flows_def flow_ids_def)
qed

lemma judged_flow:
  assumes ok: "daemon_ok (st\<lparr>dm_flows := fl\<rparr>)" and a: "a \<in> set (cached_flows fl)" "fl_heap fl a = Some f" "flow_ids f \<noteq> []"
    and j: "judge_hello J E u packet payload n (st\<lparr>dm_flows := fl\<rparr>) = Inr (v, s3)"
  shows "rbind (tcpflow_setverdict_and_free (pe_sendto E) a v (dm_flows s3)) (\<lambda>fl. Inr (s3\<lparr>dm_flows := fl\<rparr>)) = Inr st' \<Longrightarrow>
      dm_net st' = dm_net s3 @ map (\<lambda>i. VERDICT i v) (flow_ids f)"
    and "pe_sendto E \<Longrightarrow>
      \<exists>st'. rbind (tcpflow_setverdict_and_free (pe_sendto E) a v (dm_flows s3)) (\<lambda>fl. Inr (s3\<lparr>dm_flows := fl\<rparr>)) = Inr st'"
proof -
  from judge_hello_ok [OF ok j] have s3: "daemon_ok s3" "dm_flows s3 = fl\<lparr>net := net (dm_flows s3)\<rparr>" by auto
  have "cached_flows (dm_flows s3) = cached_flows fl" "fl_heap (dm_flows s3) = fl_heap fl"
    by (subst s3(2), simp add: cached_flows_def)+
  then have c: "flows_ok [] (dm_flows s3)" "a \<in> set (cached_flows (dm_flows s3))" "fl_heap (dm_flows s3) a = Some f"
    using s3(1) a by (simp_all add: daemon_ok_def)
  have e: "\<exists>fl4. tcpflow_setverdict_and_free (pe_sendto E) a v (dm_flows s3) = Inr fl4
      \<and> net fl4 = net (dm_flows s3) @ map (\<lambda>i. VERDICT i v) (flow_ids f)" if "pe_sendto E"
    using tcpflow_setverdict_and_free_eq [OF c, of "pe_sendto E" v] that by blast
  then show "pe_sendto E \<Longrightarrow>
      \<exists>st'. rbind (tcpflow_setverdict_and_free (pe_sendto E) a v (dm_flows s3)) (\<lambda>fl. Inr (s3\<lparr>dm_flows := fl\<rparr>)) = Inr st'" by auto
  assume r: "rbind (tcpflow_setverdict_and_free (pe_sendto E) a v (dm_flows s3)) (\<lambda>fl. Inr (s3\<lparr>dm_flows := fl\<rparr>)) = Inr st'"
  have "pe_sendto E"
  proof (rule ccontr)
    assume "\<not> pe_sendto E"
    from tcpflow_setverdict_and_free_exit [OF c this a(3), of v] r show False by simp
  qed
  with e r show "dm_net st' = dm_net s3 @ map (\<lambda>i. VERDICT i v) (flow_ids f)" by (auto simp: dm_net_def)
qed

lemma verdicts_map: "verdicts (map (\<lambda>i. VERDICT i v) is) = map (\<lambda>i. (i, v)) is"
  by (induction "is") (simp_all add: verdicts_def)

text \<open>The beginning of a message tells its type and length.\<close>

lemma first_bytes:
  assumes h: "hello_for (x @ y) name" and p: "tls_packet pk key (x @ r) n" "unat n = length x"
  shows "rd8 (x @ r) 0 = Inr 0x16" "rd8 (x @ r) 5 = Inr 0x01" "u8be_at (x @ r) 3 = Inr (of_nat (length (x @ y) - 5))"
proof -
  note f = hello_for_facts [OF h]
  have x10: "10 \<le> length x" using p by (auto simp: tls_packet_def word_le_nat_alt)
  have cut: "rd8 (x @ r) i = rd8 ((x @ y) @ []) i" if "i < 10" for i using that x10 by (simp add: rd8_def nth_append)
  have "u8be_at (x @ r) 3 = u8be_at ((x @ y) @ []) 3" using cut [of 3] cut [of 4] by (simp add: u8be_at_def)
  then show "rd8 (x @ r) 0 = Inr 0x16" "rd8 (x @ r) 5 = Inr 0x01" "u8be_at (x @ r) 3 = Inr (of_nat (length (x @ y) - 5))"
    using f(1-3) [of "[]"] cut [of 0] cut [of 5] by simp_all
qed

text \<open>A flow that holds the bytes \<open>x\<close> of a message, in packets with the identifiers \<open>ids\<close>.\<close>

definition flow_holds :: "tcpflow_key \<Rightarrow> u16 \<Rightarrow> byte list \<Rightarrow> u32 list \<Rightarrow> nat \<Rightarrow> flow_state \<Rightarrow> bool" where
  "flow_holds key h x ids a fl \<longleftrightarrow> flows_ok [] fl \<and> tcpflow_lookup [0, 0] key fl = Inr (Some a) \<and> a \<in> set (cached_flows fl)
     \<and> (\<exists>f. fl_heap fl a = Some f \<and> flow_ids f = ids \<and> fv_expected (fl_value f) = h
          \<and> unat (fv_current (fl_value f)) = length x \<and> take (length x) (fv_payload (fl_value f)) = x)"

lemma flow_index: "value_ok (fl_value f) \<Longrightarrow> fv_index (fl_value f) = length (flow_ids f)"
  by (simp add: value_ok_def flow_ids_def)

lemma flow_holds_start:
  assumes ok: "flows_ok [] (dm_flows st)" and n: "n < h" "unat h \<le> 12000" "unat n = length x"
    and E: "pe_calloc E" and gc: "pe_flow_now E \<le> fl_last_gc (dm_flows st) + 60"
    and key: "tcpflow_lookup [0, 0] key (dm_flows st) = Inr None" and r: "start_flow E pk key (x @ r) n h st = Inr st'"
  shows "\<exists>a fl. st' = st\<lparr>dm_flows := fl\<rparr> \<and> flow_holds key h x [pk_id pk] a fl \<and> net fl = net (dm_flows st)"
proof -
  have gc: "\<not> fl_last_gc (dm_flows st) < pe_flow_now E - 60" and l: "unat n \<le> length (x @ r)" using gc n(3) by simp_all
  from start_flow_held [OF ok n(1,2) l E gc key r] show ?thesis
    by (auto simp: flow_holds_def n(3) dm_net_def intro!: exI [of _ "dm_flows st'"])
qed

text \<open>A packet in the middle is held, too.\<close>

lemma flow_holds_step:
  assumes f: "flow_holds key h x ids a (dm_flows st)" and n: "unat n = length y" "length ids < 8" "length (x @ y) < unat h" "unat h \<le> 12000"
    and r: "continue_flow J E u pk (y @ r) n a st = Inr st'"
  shows "\<exists>fl. st' = st\<lparr>dm_flows := fl\<rparr> \<and> flow_holds key h (x @ y) (ids @ [pk_id pk]) a fl \<and> net fl = net (dm_flows st)"
proof -
  from f obtain fw where fo: "flows_ok [] (dm_flows st)" and l: "tcpflow_lookup [0, 0] key (dm_flows st) = Inr (Some a)"
    and a: "a \<in> set (cached_flows (dm_flows st))" and fw: "fl_heap (dm_flows st) a = Some fw" "flow_ids fw = ids" "fv_expected (fl_value fw) = h"
      "unat (fv_current (fl_value fw)) = length x" "take (length x) (fv_payload (fl_value fw)) = x" by (auto simp: flow_holds_def)
  have v: "value_ok (fl_value fw)" by (rule flows_okD(5) [OF fo fw(1)])
  have fits: "append_fits (fl_value fw) n" using flow_index [OF v] n fw by (simp add: append_fits_def)
  from append_cases(3) [OF v fits, of "y @ r" "pk_id pk"] n(1) obtain w where w:
    "tcpflow_value_append (fl_value fw) (pk_id pk) (y @ r) n = Inr (True, w)" "value_ok w"
    "fv_expected w = h" "unat (fv_current w) = length (x @ y)" "take (length (x @ y)) (fv_payload w) = x @ y"
    "take (fv_index w) (fv_ids w) = flow_ids fw @ [pk_id pk]"
    by (auto simp: fw flow_ids_def)
  let ?f = "fw\<lparr>fl_value := w\<rparr>"
  let ?fl = "flow_put a ?f (dm_flows st)"
  have "\<not> tcpflow_iscomplete ?f" using w(3,4) n(3) by (simp add: tcpflow_iscomplete_def word_le_nat_alt)
  with r w(1) fw(1) have "st' = st\<lparr>dm_flows := ?fl\<rparr>" by (simp add: continue_flow_def flow_get_def)
  moreover have "flows_ok [] ?fl" using flow_put_ok [OF fo _ fw(1) w(2,6)] a by simp
  then have "flow_holds key h (x @ y) (ids @ [pk_id pk]) a ?fl"
    using l a w(3-6) fw(2) unfolding flow_holds_def by (simp add: flow_put_def cached_flows_def tcpflow_lookup_def flow_ids_def)
  ultimately show ?thesis by (intro exI [of _ ?fl]) (simp add: flow_put_def)
qed

text \<open>One packet of a connection: what the handler is called with, and the bytes of the message in it.\<close>

record segment =
  sg_env :: packet_env
  sg_log :: uwebfilterlog
  sg_packet :: packet_info
  sg_data :: "byte list"

definition segment_ok :: "tcpflow_key \<Rightarrow> segment \<Rightarrow> bool" where
  "segment_ok key sg \<longleftrightarrow> (\<exists>r n. tls_packet (sg_packet sg) key (sg_data sg @ r) n \<and> unat n = length (sg_data sg))
     \<and> ul_srcport (sg_log sg) = fk_port key \<and> ul_domain (sg_log sg) = replicate 256 0 \<and> pe_pad (sg_env sg) = [0, 0]"

lemma segment_okI:
  "\<lbrakk>tls_packet (sg_packet sg) key (sg_data sg @ r) n; unat n = length (sg_data sg); ul_srcport (sg_log sg) = fk_port key;
    ul_domain (sg_log sg) = replicate 256 0; pe_pad (sg_env sg) = [0, 0]\<rbrakk> \<Longrightarrow> segment_ok key sg"
  by (auto simp: segment_ok_def)

definition handle_segment :: "('j, 't) json_c \<Rightarrow> segment \<Rightarrow> daemon \<Rightarrow> daemon result" where
  "handle_segment J sg = packet_handle_tcp443 J (sg_env sg) (sg_log sg) (sg_packet sg)"

definition segment_id :: "segment \<Rightarrow> u32" where
  "segment_id sg = pk_id (sg_packet sg)"

lemma segment_continues:
  assumes "segment_ok key sg" and "flow_holds key h x ids a (dm_flows st)"
  shows "\<exists>r n. handle_segment J sg st = continue_flow J (sg_env sg) (sg_log sg) (sg_packet sg) (sg_data sg @ r) n a st
    \<and> unat n = length (sg_data sg)"
proof -
  from assms(1) obtain r n where p: "tls_packet (sg_packet sg) key (sg_data sg @ r) n" "unat n = length (sg_data sg)"
    "ul_srcport (sg_log sg) = fk_port key" "pe_pad (sg_env sg) = [0, 0]" by (auto simp: segment_ok_def)
  have "tcpflow_lookup (pe_pad (sg_env sg)) key (dm_flows st) = Inr (Some a)" using assms(2) p(4) by (simp add: flow_holds_def)
  from tls_packet_key [OF p(1,3) this] p(2) show ?thesis unfolding handle_segment_def by blast
qed

lemma middle_segments:
  assumes "list_all (segment_ok key) mids" and "flow_holds key h x ids a (dm_flows st)" and "length ids + length mids \<le> 8"
    and "length (x @ concat (map sg_data mids)) < unat h" and "unat h \<le> 12000" and "rfold (handle_segment J) mids st = Inr st'"
  shows "\<exists>fl. st' = st\<lparr>dm_flows := fl\<rparr> \<and> flow_holds key h (x @ concat (map sg_data mids)) (ids @ map segment_id mids) a fl
    \<and> net fl = net (dm_flows st)"
  using assms
proof (induction mids arbitrary: x ids st)
  case Nil
  then show ?case by (intro exI [of _ "dm_flows st"]) simp
next
  case (Cons sg mids)
  from Cons.prems(6) obtain s where s: "handle_segment J sg st = Inr s" "rfold (handle_segment J) mids s = Inr st'"
    by (auto simp: result_simps)
  have sg: "segment_ok key sg" "list_all (segment_ok key) mids" using Cons.prems(1) by simp_all
  from segment_continues [OF sg(1) Cons.prems(2), of J] s(1) obtain r n where
    c: "continue_flow J (sg_env sg) (sg_log sg) (sg_packet sg) (sg_data sg @ r) n a st = Inr s" "unat n = length (sg_data sg)" by auto
  from flow_holds_step [OF Cons.prems(2) c(2) _ _ Cons.prems(5) c(1)] Cons.prems(3,4) obtain fl where
    fl: "s = st\<lparr>dm_flows := fl\<rparr>" "flow_holds key h (x @ sg_data sg) (ids @ [segment_id sg]) a (dm_flows s)" "net fl = net (dm_flows st)"
    by (auto simp: segment_id_def)
  from Cons.IH [OF sg(2) fl(2) _ _ Cons.prems(5) s(2)] Cons.prems(3,4) fl(1,3) show ?case by auto
qed

text \<open>The packet that completes the message.\<close>

lemma last_segment:
  assumes ok: "daemon_ok st" and f: "flow_holds key h x ids a (dm_flows st)" and sg: "segment_ok key sg"
    and n: "length ids < 8" "ids \<noteq> []" "length (x @ sg_data sg) \<le> 12000" "unat h \<le> length (x @ sg_data sg)"
    and hello: "hello_for (x @ sg_data sg) name" and run: "handle_segment J sg st = Inr st'"
  shows "\<exists>v u' s fl. check_access J (sg_env sg) ((sg_log sg)\<lparr>ul_domain := name @ replicate (256 - length name) 0\<rparr>)
      (pk_payload (sg_packet sg)) (st\<lparr>dm_flows := fl\<rparr>) = Inr (v, u', s)
    \<and> verdicts (dm_net st') = verdicts (dm_net st) @ map (\<lambda>i. (i, v)) (ids @ [segment_id sg])"
proof -
  let ?E = "sg_env sg" and ?u = "sg_log sg" and ?pk = "sg_packet sg" and ?xy = "x @ sg_data sg"
  from segment_continues [OF sg f, of J] run obtain r m where m: "continue_flow J ?E ?u ?pk (sg_data sg @ r) m a st = Inr st'"
    "unat m = length (sg_data sg)" by auto
  from f obtain fw where fo: "flows_ok [] (dm_flows st)" and a: "a \<in> set (cached_flows (dm_flows st))" "fl_heap (dm_flows st) a = Some fw"
    and fw: "flow_ids fw = ids" "fv_expected (fl_value fw) = h" "unat (fv_current (fl_value fw)) = length x"
      "take (length x) (fv_payload (fl_value fw)) = x" by (auto simp: flow_holds_def)
  have fits: "append_fits (fl_value fw) m"
    using flow_index [OF flows_okD(5) [OF fo a(2)]] n(1,3) m(2) fw by (simp add: append_fits_def)
  have ex: "unat (fv_expected (fl_value fw)) \<le> length ?xy" using n(4) fw(2) by simp
  from continue_flow_eq [OF fo a fw(3,4) m(2) fits ex, of J ?E ?u ?pk r] obtain fl f' t n' where c:
    "continue_flow J ?E ?u ?pk (sg_data sg @ r) m a st =
      rbind (judge_hello J ?E ?u (pk_payload ?pk) (?xy @ t) n' (st\<lparr>dm_flows := fl\<rparr>)) (\<lambda>(verdict, st).
      rbind (tcpflow_setverdict_and_free (pe_sendto ?E) a verdict (dm_flows st)) (\<lambda>fl. Inr (st\<lparr>dm_flows := fl\<rparr>)))"
    "unat n' = length ?xy" "flows_ok [] fl" "a \<in> set (cached_flows fl)" "fl_heap fl a = Some f'"
    "flow_ids f' = flow_ids fw @ [pk_id ?pk]" "net fl = net (dm_flows st)" by blast
  from m(1) c(1) obtain v s3 where j: "judge_hello J ?E ?u (pk_payload ?pk) (?xy @ t) n' (st\<lparr>dm_flows := fl\<rparr>) = Inr (v, s3)"
    "rbind (tcpflow_setverdict_and_free (pe_sendto ?E) a v (dm_flows s3)) (\<lambda>fl. Inr (s3\<lparr>dm_flows := fl\<rparr>)) = Inr st'"
    by (auto simp: result_simps)
  from judged_flow(1) [OF dm_flows_update(1) [OF ok c(3)] c(4,5) _ j] c(6) fw(1)
  have net2: "dm_net st' = dm_net s3 @ map (\<lambda>i. VERDICT i v) (ids @ [segment_id sg])" by (simp add: segment_id_def)
  have "extract_sni (ul_domain ?u) (?xy @ t) n' = Inr (True, name @ replicate (256 - length name) 0)"
    using hello_for_facts(4) [OF hello, of n' t] c(2) sg by (simp add: segment_ok_def)
  from judge_hello_sni [OF this j(1)] net2 c(7) show ?thesis by (auto simp: dm_net_def verdicts_map simp del: map_append)
qed

text \<open>
  C5: A ClientHello that is split over two to eight packets of a connection is judged like one that is
  not: before the last packet a flow holds the earlier ones, in their order and without a verdict, and
  after it all of them get the verdict that \<open>check_access\<close> gives for the server name, in their order.
  The conditions: every packet carries at least 10 bytes of payload, the last one more than 5 bytes of
  the message (the expected size lacks the record header), and all together at most 12000; no flow is
  pending for the connection before, the first packet finds no collection due and memory for the flow;
  the padding of the lookup keys is zero; the log records are fresh; the server name has at most 255 bytes without a NUL and fewer than
  50 other extensions stand beside it; and the handlers complete.
\<close>

theorem split_hello_judged:
  assumes ok: "daemon_ok st" and sg: "list_all (segment_ok key) (first # mids @ [last_one])" "length mids \<le> 6"
    and h: "hello_for (concat (map sg_data (first # mids @ [last_one]))) name"
      "length (concat (map sg_data (first # mids @ [last_one]))) \<le> 12000"
      "length (concat (map sg_data (first # mids))) + 5 < length (concat (map sg_data (first # mids @ [last_one])))"
    and E: "pe_calloc (sg_env first)" "pe_flow_now (sg_env first) \<le> fl_last_gc (dm_flows st) + 60"
    and k: "tcpflow_lookup [0, 0] key (dm_flows st) = Inr None"
    and run: "rfold (handle_segment J) (first # mids) st = Inr s1" "handle_segment J last_one s1 = Inr s2"
  shows "dm_net s1 = dm_net st
    \<and> (\<exists>a f. tcpflow_lookup [0, 0] key (dm_flows s1) = Inr (Some a) \<and> fl_heap (dm_flows s1) a = Some f
        \<and> flow_ids f = map segment_id (first # mids))
    \<and> (\<exists>v u' s fl. check_access J (sg_env last_one)
      ((sg_log last_one)\<lparr>ul_domain := name @ replicate (256 - length name) 0\<rparr>) (pk_payload (sg_packet last_one)) (st\<lparr>dm_flows := fl\<rparr>) = Inr (v, u', s)
    \<and> verdicts (dm_net s2) = verdicts (dm_net st) @ map (\<lambda>i. (i, v)) (map segment_id (first # mids @ [last_one])))"
proof -
  let ?x = "sg_data first" and ?m = "concat (map sg_data mids)" and ?y = "sg_data last_one"
  let ?hello = "?x @ ?m @ ?y"
  let ?h = "of_nat (length ?hello - 5) :: u16"
  have hello: "hello_for ?hello name" using h(1) by simp
  have hl: "length ?hello \<le> 12000" "length (?x @ ?m) + 5 < length ?hello" using h(2,3) by simp_all
  have so: "segment_ok key first" "list_all (segment_ok key) mids" "segment_ok key last_one" using sg(1) by simp_all
  from run(1) obtain s0 where s0: "handle_segment J first st = Inr s0" "rfold (handle_segment J) mids s0 = Inr s1" by (auto simp: result_simps)
  from so(1) obtain r n where p: "tls_packet (sg_packet first) key (?x @ r) n" "unat n = length ?x" "ul_srcport (sg_log first) = fk_port key"
    "pe_pad (sg_env first) = [0, 0]" by (auto simp: segment_ok_def)
  note f = first_bytes [OF hello p(1,2)]
  have uh: "unat ?h = length ?hello - 5" using hl(1) by (intro unat_of_nat16) simp
  have nh: "\<not> ?h \<le> n" "n < ?h" "unat ?h \<le> 12000" using uh hl p(2) by (simp_all add: word_le_nat_alt word_less_nat_alt)
  have fo: "flows_ok [] (dm_flows st)" using ok by (simp add: daemon_ok_def)
  have "start_flow (sg_env first) (sg_packet first) key (?x @ r) n ?h st = Inr s0"
    using s0(1) nh unfolding handle_segment_def tls_packet_hello [OF p(1,3) k [folded p(4)] f] by simp
  from flow_holds_start [OF fo nh(2,3) p(2) E k this] obtain a fl0 where
    fl0: "s0 = st\<lparr>dm_flows := fl0\<rparr>" "flow_holds key ?h ?x [segment_id first] a fl0" "net fl0 = net (dm_flows st)" by (auto simp: segment_id_def)
  have "length (?x @ ?m) < unat ?h" using hl uh by simp
  from middle_segments [OF so(2) _ _ this nh(3) s0(2), of "[segment_id first]" a] fl0 sg(2) obtain fl1 where
    fl1: "s1 = st\<lparr>dm_flows := fl1\<rparr>" "flow_holds key ?h (?x @ ?m) (segment_id first # map segment_id mids) a fl1" "net fl1 = net (dm_flows st)"
    by auto
  have ok1: "daemon_ok s1" unfolding fl1(1) using fl1(2) by (intro dm_flows_update(1) [OF ok]) (simp add: flow_holds_def)
  have h1: "flow_holds key ?h (?x @ ?m) (segment_id first # map segment_id mids) a (dm_flows s1)" using fl1(1,2) by simp
  have held: "\<exists>a f. tcpflow_lookup [0, 0] key (dm_flows s1) = Inr (Some a) \<and> fl_heap (dm_flows s1) a = Some f
      \<and> flow_ids f = map segment_id (first # mids)" using h1 by (auto simp: flow_holds_def)
  have net: "dm_net s1 = dm_net st" using fl1(1,3) by (simp add: dm_net_def)
  from last_segment [OF ok1 h1 so(3) _ _ _ _ _ run(2), of name] sg(2) hl(1) hello uh fl1(1,3)
  show ?thesis by (intro conjI net held) (auto simp: dm_net_def)
qed

text \<open>
  C28: A packet of a flow that holds eight packets, or whose buffer has no room for it, is forgotten:
  the packets of the flow are accepted in their order and the flow is freed, but no verdict is sent for
  the packet itself and no flow holds it.
\<close>

theorem full_flow_forgets_packet:
  assumes ok: "daemon_ok st" and p: "tls_packet pk key payload n" "ul_srcport u = fk_port key"
    and a: "tcpflow_lookup (pe_pad E) key (dm_flows st) = Inr (Some a)" "fl_heap (dm_flows st) a = Some f"
    and full: "fv_index (fl_value f) = 8 \<or> 12000 < unat (fv_current (fl_value f)) + unat n" and E: "pe_sendto E"
  shows "\<exists>st'. packet_handle_tcp443 J E u pk st = Inr st' \<and> daemon_ok st' \<and> a \<notin> set (cached_flows (dm_flows st'))
    \<and> dm_net st' = dm_net st @ map (\<lambda>i. VERDICT i NF_ACCEPT) (flow_ids f) \<and> dm_accounted st' = dm_accounted st"
proof -
  have fo: "flows_ok [] (dm_flows st)" using ok by (simp add: daemon_ok_def)
  have c: "a \<in> set (cached_flows (dm_flows st))" using tcpflow_lookup_Some [OF fo a(1)] by blast
  have full: "\<not> append_fits (fl_value f) n" using full by (auto simp: append_fits_def)
  have "flow_put a (f\<lparr>fl_value := fl_value f\<rparr>) (dm_flows st) = dm_flows st" using a(2) by (simp add: flow_put_def fun_upd_idem)
  then have r: "continue_flow J E u pk payload n a st =
      rbind (tcpflow_setverdict_and_free (pe_sendto E) a NF_ACCEPT (dm_flows st)) (\<lambda>fl. Inr (st\<lparr>dm_flows := fl\<rparr>))"
    using append_cases(1) [OF flows_okD(5) [OF fo a(2)] full] by (simp add: continue_flow_def flow_get_def a(2))
  from tcpflow_setverdict_and_free_eq [OF fo c a(2), of "pe_sendto E" NF_ACCEPT] E obtain fl where
    fl: "tcpflow_setverdict_and_free (pe_sendto E) a NF_ACCEPT (dm_flows st) = Inr fl"
      "net fl = net (dm_flows st) @ map (\<lambda>i. VERDICT i NF_ACCEPT) (flow_ids f)"
      "hash_items (fl_cache fl) = filter (\<lambda>p. snd p \<noteq> a) (hash_items (fl_cache (dm_flows st)))" by blast
  have run: "packet_handle_tcp443 J E u pk st = Inr (st\<lparr>dm_flows := fl\<rparr>)"
    unfolding tls_packet_key [OF p a(1)] r by (simp add: fl(1))
  from r fl(1) continue_flow_ok [OF ok c a(2), of J E u pk payload n "st\<lparr>dm_flows := fl\<rparr>"] full
  have "daemon_ok (st\<lparr>dm_flows := fl\<rparr>) \<and> dm_accounted (st\<lparr>dm_flows := fl\<rparr>) = dm_accounted st" by simp
  with run fl(2,3) show ?thesis by (auto simp: dm_net_def cached_flows_def)
qed

subsection \<open>Witnesses\<close>

definition sample_tls :: "u32 \<Rightarrow> byte list \<Rightarrow> packet_info" where
  "sample_tls i payload = \<lparr>pk_id = i, pk_payload = [0x45, 0] @ be_bytes (length payload + 40)
     @ [0, 0, 0, 0, 64, 6, 0, 0, 1, 0, 0, 0, 2, 0, 0, 0, 0, 3, 1, 0xBB, 0, 0, 0, 5, 0, 0, 1, 0, 0x50, 0x18, 1, 0, 0, 0, 0, 0]
     @ payload, pk_length = of_nat (length payload + 40)\<rparr>"

lemma sample_tls_packet:
  assumes "10 \<le> length payload" "length payload < 60000"
  shows "tls_packet (sample_tls i payload) sample_key payload (of_nat (length payload))"
    "ip_ihl (pk_payload (sample_tls i payload)) = Inr 5" "length (pk_payload (sample_tls i payload)) = length payload + 40"
proof -
  have t: "ip_tot_len (pk_payload (sample_tls i payload)) = Inr (of_nat (length payload + 40))"
    using from_u8be_bytes [of "length payload + 40"] assms(2)
    by (simp add: sample_tls_def be_bytes_def ip_tot_len_def rd16be_def rd8_def from_u8be_be16)
  have n: "10 \<le> (of_nat (length payload) :: u16)" using assms by (simp add: word_le_nat_alt unat_of_nat16)
  show i: "ip_ihl (pk_payload (sample_tls i payload)) = Inr 5" by (simp add: sample_tls_def ip_ihl_def rd8_def)
  show "tls_packet (sample_tls i payload) sample_key payload (of_nat (length payload))"
    unfolding tls_packet_def
    by (rule exI [of _ 5], rule exI [of _ 20], rule exI [of _ "of_nat (length payload + 40)"], intro conjI)
       (use t n i in \<open>simp_all add: sample_tls_def be_bytes_def tcp_off_def ip_saddr_def ip_daddr_def rd32le_def rd8_def
          le32_def sample_key_def tcp_payload_length_def\<close>)
  show "length (pk_payload (sample_tls i payload)) = length payload + 40" by (simp add: sample_tls_def)
qed

lemma judge_hello_total:
  assumes "extract_sni (ul_domain u) payload n = Inr (True, d)" and c: "check_access J E (u\<lparr>ul_domain := d\<rparr>) packet st = Inr (v, u', s1)"
    and p: "ip_ihl packet = Inr ihl" "ihl * 4 + 20 \<le> length packet" and d: "terminated d"
  shows "\<exists>st'. judge_hello J E u packet payload n st = Inr (v, st')"
proof -
  from c have "ul_domain u' = d" by (rule check_access_steps) simp
  with tcp_reset_total [OF p, of "ul_domain u'" E "''TCP(443) RST: ''" s1] assms(1) c d show ?thesis
    by (cases v) (auto simp: judge_hello_def Let_def)
qed

lemma check_access_flows:
  "check_access J E u p st = Inr (v, u', s) \<Longrightarrow> check_access J E u p (st\<lparr>dm_flows := fl\<rparr>) = Inr (v, u', s\<lparr>dm_flows := fl\<rparr>)"
  by (auto simp: check_access_def result_simps Let_def) blast+

definition sample_tls_record :: uwebfilterlog where
  "sample_tls_record = uwebfilterlog_zero\<lparr>ul_proto := Some (cmem (bytes ''tcp'')), ul_srcport := 3\<rparr>"

lemma sample_tls_record_ok:
  "ul_domain sample_tls_record = replicate 256 0" "ul_srcport sample_tls_record = fk_port sample_key"
  "request_ok (sample_tls_record\<lparr>ul_domain := bytes ''a.com'' @ replicate (256 - length (bytes ''a.com'')) 0\<rparr>)"
  using sample_name_no_zero
  by (simp_all add: sample_tls_record_def request_ok_def record_ok_def uwebfilterlog_zero_def IPADDR_LENGTH_def PATH_LENGTH_def
      DOMAIN_LENGTH_def sample_key_def terminated_append_zeros terminated_zeros) (simp_all add: bytes_def)

lemma sample_hello_for: "hello_for sample_hello (bytes ''a.com'')"
  unfolding hello_for_def sample_hello_def
  by (rule exI [of _ "[3, 1]"], rule exI [of _ "replicate 37 7"], rule exI [of _ "[]"], rule exI [of _ "[0x13, 0x01]"], rule exI [of _ "[0]"],
      rule exI [of _ "[(10, [0, 2, 0, 29])]"], rule exI [of _ "[]"])
     (use sample_hello_length sample_name_no_zero in \<open>simp add: sample_hello_def other_ext_def\<close>, simp add: bytes_def)

lemma lookup_init: "tcpflow_lookup pad key flow_init = Inr None"
  by (simp add: tcpflow_lookup_def flow_init_def HASH_FIND_def HASH_FIND_BYHASHVALUE_def)

lemma sample_env_simps: "pe_pad (sample_packet_env t b) = [0, 0]" "pe_sendto (sample_packet_env t b)" "pe_calloc (sample_packet_env t b)"
  "pe_malloc (sample_packet_env t b)" "pe_flow_now (sample_packet_env t b) = 10"
  by (simp_all add: sample_packet_env_def)

text \<open>The sample domain is blocked, whatever flows there are.\<close>

definition sample_named :: uwebfilterlog where
  "sample_named = sample_tls_record\<lparr>ul_domain := bytes ''a.com'' @ replicate (256 - length (bytes ''a.com'')) 0\<rparr>"

definition blocks_sample :: "daemon \<Rightarrow> bool" where
  "blocks_sample st \<longleftrightarrow> (\<forall>iphdr fl. 20 \<le> length iphdr \<longrightarrow>
     (\<exists>u' s. check_access sample_json (sample_packet_env 1001 True) sample_named iphdr (st\<lparr>dm_flows := fl\<rparr>) = Inr (NF_DROP, u', s)))"

lemma sample_named_ok: "request_ok sample_named" "cstr (ul_domain sample_named) = bytes ''a.com''"
  using sample_tls_record_ok(3) sample_name_no_zero by (simp_all add: sample_named_def)

lemma sample_tls_blocked: "\<exists>st. daemon_ok st \<and> dm_flows st = flow_init \<and> blocks_sample st"
proof -
  let ?E = "sample_packet_env 1001 True"
  obtain st where st: "dm_config st = sample_rules" "dm_flows st = flow_init" "lookup_ok [] (dm_lookup st)" "log_ok (dm_log st)"
    "\<And>u iphdr. \<lbrakk>request_ok u; cstr (ul_domain u) = bytes ''a.com''; 20 \<le> length iphdr\<rbrakk> \<Longrightarrow>
       \<exists>u' st'. check_access sample_json ?E u iphdr st = Inr (NF_DROP, u', st')"
    by (rule sample_blocked) blast
  have "blocks_sample st" unfolding blocks_sample_def
  proof (intro allI impI)
    fix iphdr fl
    assume "20 \<le> length (iphdr :: byte list)"
    from st(5) [OF sample_named_ok this] obtain u' s where "check_access sample_json ?E sample_named iphdr st = Inr (NF_DROP, u', s)" by blast
    from check_access_flows [OF this, of fl]
    show "\<exists>u' s. check_access sample_json ?E sample_named iphdr (st\<lparr>dm_flows := fl\<rparr>) = Inr (NF_DROP, u', s)" by blast
  qed
  moreover have "daemon_ok st" using st sample_rules_ok(1) flows_ok_init by (simp add: daemon_ok_def)
  ultimately show ?thesis using st(2) by blast
qed

lemma sample_judged:
  assumes b: "blocks_sample st" and p: "ip_ihl p = Inr 5" "40 \<le> length p" and n: "74 \<le> unat n + 5"
  shows "\<exists>s. judge_hello sample_json (sample_packet_env 1001 True) sample_tls_record p (sample_hello @ t) n (st\<lparr>dm_flows := fl\<rparr>)
    = Inr (NF_DROP, s)"
proof -
  have "20 \<le> length p" using p(2) by simp
  with b obtain u' s where c: "check_access sample_json (sample_packet_env 1001 True) sample_named p (st\<lparr>dm_flows := fl\<rparr>) = Inr (NF_DROP, u', s)"
    unfolding blocks_sample_def by blast
  have x: "extract_sni (ul_domain sample_tls_record) (sample_hello @ t) n = Inr (True, ul_domain sample_named)"
    using hello_for_facts(4) [OF sample_hello_for, of n t] n by (simp add: sample_tls_record_ok(1) sample_hello_length sample_named_def)
  have e: "sample_tls_record\<lparr>ul_domain := ul_domain sample_named\<rparr> = sample_named" by (simp add: sample_named_def)
  have c2: "check_access sample_json (sample_packet_env 1001 True) (sample_tls_record\<lparr>ul_domain := ul_domain sample_named\<rparr>) p
      (st\<lparr>dm_flows := fl\<rparr>) = Inr (NF_DROP, u', s)" unfolding e by (rule c)
  show ?thesis
    by (rule judge_hello_total [OF x c2 p(1)]) (use p(2) sample_named_ok(1) in \<open>simp_all add: request_ok_def\<close>)
qed

theorem tls_hello_judged_witness:
  "\<exists>st st'. packet_handle_tcp443 sample_json (sample_packet_env 1001 True) sample_tls_record (sample_tls 9 sample_hello) st = Inr st'
    \<and> verdicts (dm_net st') = [(9, NF_DROP)]"
proof -
  let ?E = "sample_packet_env 1001 True" and ?pk = "sample_tls 9 sample_hello"
  obtain st where st: "daemon_ok st" "dm_flows st = flow_init" "blocks_sample st" using sample_tls_blocked by blast
  note p = sample_tls_packet [of sample_hello 9, unfolded sample_hello_length, simplified]
  note f = hello_for_facts(1-3) [OF sample_hello_for, of "[]", unfolded sample_hello_length append_Nil2]
  have k: "tcpflow_lookup (pe_pad ?E) sample_key (dm_flows st) = Inr None" by (simp add: st(2) lookup_init)
  have id: "st\<lparr>dm_flows := flow_init\<rparr> = st" using st(2) by simp
  from sample_judged [OF st(3) p(2), of 74 "[]" flow_init] p(3) obtain s where
    j: "judge_hello sample_json ?E sample_tls_record (pk_payload ?pk) sample_hello 74 st = Inr (NF_DROP, s)"
    unfolding id by auto
  have "\<exists>st'. packet_handle_tcp443 sample_json ?E sample_tls_record ?pk st = Inr st'"
    unfolding tls_packet_hello [where E = ?E, OF p(1) sample_tls_record_ok(2) k f(1-3)]
    by (simp add: j dm_verdict_def nfq_send_verdict_def sample_env_simps)
  then obtain st' where run: "packet_handle_tcp443 sample_json ?E sample_tls_record ?pk st = Inr st'" by blast
  have p': "tls_packet ?pk sample_key (sample_hello @ []) 74" using p(1) by simp
  from tls_hello_judged [OF sample_hello_for p' _ sample_tls_record_ok(2) k sample_tls_record_ok(1) st(1) run]
  obtain v u' s1 where v: "check_access sample_json ?E sample_named (pk_payload ?pk) st = Inr (v, u', s1)"
    "verdicts (dm_net st') = verdicts (dm_net st) @ [(pk_id ?pk, v)]"
    by (auto simp: sample_hello_length sample_named_def)
  have "20 \<le> length (pk_payload ?pk)" using p(3) by simp
  with st(3) obtain u2 s2 where "check_access sample_json ?E sample_named (pk_payload ?pk) (st\<lparr>dm_flows := flow_init\<rparr>) = Inr (NF_DROP, u2, s2)"
    unfolding blocks_sample_def by blast
  with v(1) have "v = NF_DROP" by (simp add: id)
  then have "verdicts (dm_net st') = [(9, NF_DROP)]" using v(2) by (simp add: st(2) dm_net_def flow_init_def sample_tls_def)
  with run show ?thesis by blast
qed

text \<open>The two halves of the sample message: the first starts a flow, the second completes it.\<close>

lemma sample_halves:
  "length (take 40 sample_hello) = 40" "length (drop 40 sample_hello) = 34" "take 40 sample_hello @ drop 40 sample_hello = sample_hello"
  by (simp_all add: sample_hello_length)

lemmas sample_half1 = sample_tls_packet [of "take 40 sample_hello" 8, unfolded sample_halves, simplified]
lemmas sample_half2 = sample_tls_packet [of "drop 40 sample_hello" 9, unfolded sample_halves, simplified]

lemma sample_first_half:
  assumes st: "daemon_ok st" "dm_flows st = flow_init"
  shows "\<exists>s1. packet_handle_tcp443 sample_json (sample_packet_env 1001 True) sample_tls_record (sample_tls 8 (take 40 sample_hello)) st = Inr s1
    \<and> start_flow (sample_packet_env 1001 True) (sample_tls 8 (take 40 sample_hello)) sample_key (take 40 sample_hello) 40 69 st = Inr s1"
proof -
  let ?E = "sample_packet_env 1001 True" and ?x = "take 40 sample_hello"
  have k: "tcpflow_lookup (pe_pad ?E) sample_key (dm_flows st) = Inr None" by (simp add: st(2) lookup_init)
  have fo: "flows_ok [] (dm_flows st)" using st(1) by (simp add: daemon_ok_def)
  have b: "rd8 ?x 0 = Inr 0x16" "rd8 ?x 5 = Inr 0x01" "u8be_at ?x 3 = Inr 69"
    by (simp_all add: sample_hello_def client_hello_def hello_body_def rd8_def u8be_at_def be_bytes_def hello_exts_def
        ext_bytes_def sni_data_def bytes_def from_u8be_def)
  from start_flow_eq [OF fo, of 40 69 ?x ?E "sample_tls 8 ?x" sample_key] obtain fl0 where s:
    "start_flow ?E (sample_tls 8 ?x) sample_key ?x 40 69 st =
      rbind (tcpflow_insert True True 10 (fl_next (dm_flows st)) fl0) (\<lambda>fl. Inr (st\<lparr>dm_flows := fl\<rparr>))"
    "flows_ok [fl_next (dm_flows st)] fl0" "fl_cache fl0 = None" by (auto simp: sample_env_simps st(2) flow_init_def sample_hello_length)
  have "hash_room (fl_cache fl0)" by (simp add: s(3) hash_room_def)
  from tcpflow_insert_total [OF s(2) this, of 10] s(1) obtain s1 where s1: "start_flow ?E (sample_tls 8 ?x) sample_key ?x 40 69 st = Inr s1" by auto
  have "packet_handle_tcp443 sample_json ?E sample_tls_record (sample_tls 8 ?x) st = Inr s1"
    unfolding tls_packet_hello [where E = ?E, OF sample_half1(1) sample_tls_record_ok(2) k b] using s1 by simp
  with s1 show ?thesis by blast
qed

lemma sample_second_half:
  assumes st: "daemon_ok st" "dm_flows st = flow_init" "blocks_sample st"
    and s1: "start_flow (sample_packet_env 1001 True) (sample_tls 8 (take 40 sample_hello)) sample_key (take 40 sample_hello) 40 69 st = Inr s1"
  shows "s1 = st\<lparr>dm_flows := dm_flows s1\<rparr> \<and> (\<exists>s2.
    packet_handle_tcp443 sample_json (sample_packet_env 1001 True) sample_tls_record (sample_tls 9 (drop 40 sample_hello)) s1 = Inr s2)"
proof -
  let ?E = "sample_packet_env 1001 True" and ?x = "take 40 sample_hello" and ?y = "drop 40 sample_hello"
  have fo: "flows_ok [] (dm_flows st)" using st(1) by (simp add: daemon_ok_def)
  have gc: "\<not> fl_last_gc (dm_flows st) < pe_flow_now ?E - 60" "tcpflow_lookup [0, 0] sample_key (dm_flows st) = Inr None"
    by (simp_all add: sample_env_simps st(2) lookup_init) (simp add: flow_init_def)
  from start_flow_held [OF fo _ _ _ sample_env_simps(3) gc s1] obtain a f where a: "flows_ok [] (dm_flows s1)"
    "tcpflow_lookup [0, 0] sample_key (dm_flows s1) = Inr (Some a)" "fl_heap (dm_flows s1) a = Some f"
    "a \<in> set (cached_flows (dm_flows s1))" "fv_expected (fl_value f) = 69" "unat (fv_current (fl_value f)) = length ?x"
    "fv_index (fl_value f) = 1" "take (length ?x) (fv_payload (fl_value f)) = ?x" "s1 = st\<lparr>dm_flows := dm_flows s1\<rparr>"
    by (auto simp: sample_hello_length)
  have "append_fits (fl_value f) 34" using a(6,7) by (simp add: append_fits_def sample_hello_length)
  from continue_flow_eq [OF a(1,4,3,6,8) _ this, of ?y sample_json ?E sample_tls_record "sample_tls 9 ?y" "[]"] obtain fl f' t n' where c:
    "continue_flow sample_json ?E sample_tls_record (sample_tls 9 ?y) ?y 34 a s1 =
      rbind (judge_hello sample_json ?E sample_tls_record (pk_payload (sample_tls 9 ?y)) (sample_hello @ t) n' (s1\<lparr>dm_flows := fl\<rparr>)) (\<lambda>(verdict, st).
      rbind (tcpflow_setverdict_and_free (pe_sendto ?E) a verdict (dm_flows st)) (\<lambda>fl. Inr (st\<lparr>dm_flows := fl\<rparr>)))"
    "unat n' = 74" "flows_ok [] fl" "a \<in> set (cached_flows fl)" "fl_heap fl a = Some f'" "flow_ids f' = flow_ids f @ [9]"
    using a(5) by (auto simp: sample_hello_length sample_tls_def)
  have e: "s1\<lparr>dm_flows := fl\<rparr> = st\<lparr>dm_flows := fl\<rparr>" by (subst a(9)) simp
  from sample_judged [OF st(3) sample_half2(2), of n' t fl] sample_half2(3) c(2) obtain s3 where
    j: "judge_hello sample_json ?E sample_tls_record (pk_payload (sample_tls 9 ?y)) (sample_hello @ t) n' (st\<lparr>dm_flows := fl\<rparr>) = Inr (NF_DROP, s3)"
    by auto
  from judged_flow(2) [OF dm_flows_update(1) [OF st(1) c(3)] c(4,5) _ j] c(6) obtain s2 where
    "continue_flow sample_json ?E sample_tls_record (sample_tls 9 ?y) ?y 34 a s1 = Inr s2"
    unfolding c(1) e by (auto simp: j sample_env_simps)
  then have "packet_handle_tcp443 sample_json ?E sample_tls_record (sample_tls 9 ?y) s1 = Inr s2"
    using tls_packet_key [where E = ?E, OF sample_half2(1) sample_tls_record_ok(2), of s1 a sample_json] a(2) by (simp add: sample_env_simps)
  with a(9) show ?thesis by blast
qed

theorem split_hello_judged_witness:
  "\<exists>st s1 s2. packet_handle_tcp443 sample_json (sample_packet_env 1001 True) sample_tls_record
       (sample_tls 8 (take 40 sample_hello)) st = Inr s1
    \<and> packet_handle_tcp443 sample_json (sample_packet_env 1001 True) sample_tls_record
       (sample_tls 9 (drop 40 sample_hello)) s1 = Inr s2
    \<and> dm_net s1 = [] \<and> verdicts (dm_net s2) = [(8, NF_DROP), (9, NF_DROP)]"
proof -
  let ?E = "sample_packet_env 1001 True" and ?x = "take 40 sample_hello" and ?y = "drop 40 sample_hello"
  let ?one = "\<lparr>sg_env = ?E, sg_log = sample_tls_record, sg_packet = sample_tls 8 ?x, sg_data = ?x\<rparr>"
  let ?two = "\<lparr>sg_env = ?E, sg_log = sample_tls_record, sg_packet = sample_tls 9 ?y, sg_data = ?y\<rparr>"
  obtain st where st: "daemon_ok st" "dm_flows st = flow_init" "blocks_sample st" using sample_tls_blocked by blast
  from sample_first_half [OF st(1,2)] obtain s1 where
    r1: "packet_handle_tcp443 sample_json ?E sample_tls_record (sample_tls 8 ?x) st = Inr s1"
    and s1: "start_flow ?E (sample_tls 8 ?x) sample_key ?x 40 69 st = Inr s1" by blast
  from sample_second_half [OF st s1] obtain s2 where
    r2: "packet_handle_tcp443 sample_json ?E sample_tls_record (sample_tls 9 ?y) s1 = Inr s2" by blast
  have k: "tcpflow_lookup [0, 0] sample_key (dm_flows st) = Inr None" by (simp add: st(2) lookup_init)
  have u: "unat (40 :: u16) = length ?x" "unat (34 :: u16) = length ?y" unfolding sample_halves by simp_all
  have p: "tls_packet (sample_tls 8 ?x) sample_key (?x @ []) 40" "tls_packet (sample_tls 9 ?y) sample_key (?y @ []) 34"
    using sample_half1(1) sample_half2(1) by simp_all
  have sg: "list_all (segment_ok sample_key) (?one # [] @ [?two])"
    using segment_okI [of ?one sample_key "[]" 40] segment_okI [of ?two sample_key "[]" 34] p u sample_tls_record_ok(1,2)
    by (simp add: sample_env_simps)
  have run: "rfold (handle_segment sample_json) [?one] st = Inr s1" "handle_segment sample_json ?two s1 = Inr s2"
    using r1 r2 by (simp_all add: handle_segment_def)
  from split_hello_judged [OF st(1) sg _ _ _ _ _ _ k run, of "bytes ''a.com''"] sample_hello_for
  obtain v u' s3 fl where v: "dm_net s1 = dm_net st"
    "check_access sample_json ?E sample_named (pk_payload (sample_tls 9 ?y)) (st\<lparr>dm_flows := fl\<rparr>) = Inr (v, u', s3)"
    "verdicts (dm_net s2) = verdicts (dm_net st) @ [(8, v), (9, v)]"
    by (auto simp: sample_named_def sample_hello_length sample_env_simps st(2) flow_init_def segment_id_def sample_tls_def)
  have "20 \<le> length (pk_payload (sample_tls 9 ?y))" using sample_half2(3) by simp
  with st(3) obtain u2 s4 where "check_access sample_json ?E sample_named (pk_payload (sample_tls 9 ?y)) (st\<lparr>dm_flows := fl\<rparr>) = Inr (NF_DROP, u2, s4)"
    unfolding blocks_sample_def by blast
  with v(2) have "v = NF_DROP" by simp
  then have "dm_net s1 = [] \<and> verdicts (dm_net s2) = [(8, NF_DROP), (9, NF_DROP)]" using v(1,3) by (simp add: st(2) dm_net_def flow_init_def)
  with r1 r2 show ?thesis by blast
qed

theorem full_flow_forgets_packet_witness:
  "\<exists>st st'. packet_handle_tcp443 sample_json (sample_packet_env 1001 True) sample_tls_record (sample_tls 9 sample_hello) st = Inr st'
    \<and> dm_net st' = map (\<lambda>i. VERDICT i NF_ACCEPT) [1, 2, 3, 4, 5, 6, 7, 8]"
proof -
  let ?E = "sample_packet_env 1001 True"
  let ?v = "\<lparr>fv_expected = 500, fv_current = 80, fv_payload = replicate 12000 0, fv_ids = [1, 2, 3, 4, 5, 6, 7, 8], fv_index = 8\<rparr>"
  from sample_inserted obtain fl where fl: "flows_ok [] fl" "hash_items (fl_cache fl) = [(key_bytes [0, 0] sample_key, 0)]" by blast
  obtain f where f: "fl_heap fl 0 = Some f" using flows_ok_alive [OF fl(1)] fl(2) by (auto simp: cached_flows_def)
  let ?f = "f\<lparr>fl_value := ?v\<rparr>"
  let ?fl = "(flow_put 0 ?f fl)\<lparr>net := []\<rparr>"
  have fo: "flows_ok [] ?fl" using fl(1) f by (auto simp: flows_ok_def flow_put_def cached_flows_def value_ok_def)
  let ?st = "(daemon_init sample_rules)\<lparr>dm_flows := ?fl\<rparr>"
  have ok: "daemon_ok ?st" using daemon_ok_init(1) [OF sample_rules_ok(1)] fo by (simp add: daemon_ok_def)
  note p = sample_tls_packet(1) [of sample_hello 9, unfolded sample_hello_length, simplified]
  have k: "tcpflow_lookup (pe_pad ?E) sample_key (dm_flows ?st) = Inr (Some 0)"
    using ut.look_correct [OF flows_okD(1) [OF fl(1)], of "key_bytes [0, 0] sample_key"] fl(2)
    by (auto simp: tcpflow_lookup_def sample_env_simps flow_put_def split: option.splits)
  have h: "fl_heap (dm_flows ?st) 0 = Some ?f" by (simp add: flow_put_def)
  have "dm_net ?st = []" "flow_ids ?f = [1, 2, 3, 4, 5, 6, 7, 8]" by (simp_all add: dm_net_def flow_ids_def)
  then show ?thesis
    using full_flow_forgets_packet [OF ok p sample_tls_record_ok(2) k h _ sample_env_simps(2), of sample_json] by auto
qed

end
