(* ===== verification/Nfqueue.thy ===== *)
theory Nfqueue
  imports Udp53 Tcp80 Tcp443
begin

text \<open>
  \<open>nfqueue.c\<close>: the dispatch of packets to the handlers, the callback on a queue message, the start of
  the queue and the receive loop.  \<open>libmnl\<close> and \<open>libnetfilter_queue\<close> are parameters: a message is what
  \<open>nfq_nlmsg_parse\<close> finds in it, and \<open>mnl_cb_run\<close> is an argument of the loop, of which \<open>calls_back\<close>
  states the documented behaviour.

  The loop is an \<open>inductive\<close> relation between the buffers received so far and the state; its
  invariant, by rule induction from the contracts of the handlers, is that packets are conserved.
\<close>

subsection \<open>Dispatch\<close>

definition IPPROTO_TCP :: byte where "IPPROTO_TCP = 6"
definition IPPROTO_UDP :: byte where "IPPROTO_UDP = 17"

definition packet_handle :: "('j, 't) json_c \<Rightarrow> packet_env \<Rightarrow> packet_info \<Rightarrow> daemon \<Rightarrow> daemon result" where
  "packet_handle J E pk st =
     (let packet = pk_payload pk; u = uwebfilterlog_zero in
      rbind (ip_protocol packet) (\<lambda>protocol.
      if protocol = IPPROTO_TCP
      then rbind (ip_ihl packet) (\<lambda>ihl.
           rbind (l4_sport packet (ihl * 4)) (\<lambda>srcport.
           rbind (l4_dport packet (ihl * 4)) (\<lambda>dstport.
           let u = u\<lparr>ul_proto := Some (cmem (bytes ''tcp'')), ul_srcport := srcport, ul_dstport := dstport\<rparr> in
           if dstport = 80 then packet_handle_tcp80 J E u pk st
           else if dstport = 443 then packet_handle_tcp443 J E u pk st
           else dm_verdict E (pk_id pk) NF_ACCEPT st)))
      else if protocol = IPPROTO_UDP
      then rbind (ip_ihl packet) (\<lambda>ihl.
           rbind (l4_sport packet (ihl * 4)) (\<lambda>srcport.
           rbind (l4_dport packet (ihl * 4)) (\<lambda>dstport.
           let u = u\<lparr>ul_proto := Some (cmem (bytes ''udp'')), ul_srcport := srcport, ul_dstport := dstport\<rparr> in
           if dstport = 53 then packet_handle_udp53 J E u pk st
           else dm_verdict E (pk_id pk) NF_ACCEPT st)))
      else dm_verdict E (pk_id pk) NF_ACCEPT st))"

subsection \<open>The callback\<close>

text \<open>
  A queue message: whether it can be parsed, the packet header attribute (its bytes) and the payload
  attribute (the bytes from it to the end of the receive buffer, and its length), if present.
\<close>

record nfq_msg =
  nm_parsed :: bool
  nm_packet_hdr :: "byte list option"
  nm_payload :: "(byte list \<times> u16) option"

definition MNL_CB_ERROR :: int where "MNL_CB_ERROR = -1"
definition MNL_CB_STOP :: int where "MNL_CB_STOP = 0"
definition MNL_CB_OK :: int where "MNL_CB_OK = 1"

text \<open>\<open>packet_id\<close> is the first field of the header, in network order.\<close>

definition hdr_packet_id :: "byte list \<Rightarrow> u32 result" where
  "hdr_packet_id hdr = rbind (rd16be hdr 0) (\<lambda>hi. rbind (rd16be hdr 2) (\<lambda>lo. Inr (push_bit 16 (ucast hi) OR ucast lo)))"

definition queue_cb :: "('j, 't) json_c \<Rightarrow> packet_env \<times> nfq_msg \<Rightarrow> daemon \<Rightarrow> (int \<times> daemon) result" where
  "queue_cb J m st =
    (if \<not> nm_parsed (snd m) then Inr (MNL_CB_ERROR, st)
     else case nm_packet_hdr (snd m) of
       None \<Rightarrow> Inr (MNL_CB_ERROR, st)
     | Some ph \<Rightarrow>
         rbind (hdr_packet_id ph) (\<lambda>pid.
         case nm_payload (snd m) of
           None \<Rightarrow> Inl NullDeref
         | Some (payload, len) \<Rightarrow>
             rbind (packet_handle J (fst m) \<lparr>pk_id = pid, pk_payload = payload, pk_length = len\<rparr> st) (\<lambda>st.
               Inr (MNL_CB_OK, st))))"

subsection \<open>Start\<close>

text \<open>
  Configuration messages, as the attributes put into them in order.  An attribute value of 32 bits is
  given by its bytes.
\<close>

datatype cfg_attr =
    NFQA_CFG_CMD_BIND nat                  \<comment> \<open>the address family\<close>
  | NFQA_CFG_PARAMS_COPY_PACKET nat        \<comment> \<open>how much of a packet is copied\<close>
  | NFQA_CFG_QUEUE_MAXLEN "byte list"
  | NFQA_CFG_FLAGS "byte list"
  | NFQA_CFG_MASK "byte list"

record cfg_msg =
  cm_queue :: nat
  cm_attrs :: "cfg_attr list"

record start_env =
  se_open :: bool
  se_bind :: bool
  se_malloc :: bool
  se_sendto :: "nat \<Rightarrow> bool"                \<comment> \<open>whether the n-th message can be sent\<close>

definition QUEUE_NUM :: nat where "QUEUE_NUM = 0"
definition AF_INET :: nat where "AF_INET = 2"

definition htonl_bytes :: "nat \<Rightarrow> byte list" where
  "htonl_bytes n = [of_nat (n div 16777216), of_nat (n div 65536), of_nat (n div 256), of_nat n]"

definition cfg_put :: "cfg_attr \<Rightarrow> cfg_msg \<Rightarrow> cfg_msg" where
  "cfg_put a m = m\<lparr>cm_attrs := cm_attrs m @ [a]\<rparr>"

definition cfg_sendto :: "start_env \<Rightarrow> cfg_msg \<Rightarrow> cfg_msg list \<Rightarrow> cfg_msg list result" where
  "cfg_sendto S m sent = (if se_sendto S (length sent) then Inr (sent @ [m]) else Inl Exit)"

text \<open>The part of \<open>nfqueue_main\<close> before the loop: the configuration messages it sends.\<close>

definition nfqueue_start :: "start_env \<Rightarrow> cfg_msg list result" where
  "nfqueue_start S =
    (if \<not> se_open S then Inl Exit
     else if \<not> se_bind S then Inl Exit
     else if \<not> se_malloc S then Inl Exit
     else let nlh = cfg_put (NFQA_CFG_CMD_BIND AF_INET) \<lparr>cm_queue = QUEUE_NUM, cm_attrs = []\<rparr>
          in rbind (cfg_sendto S nlh []) (\<lambda>sent.
             let nlh = cfg_put (NFQA_CFG_QUEUE_MAXLEN (htonl_bytes 0xFFFF)) nlh;
                 nlh = cfg_put (NFQA_CFG_PARAMS_COPY_PACKET 0xFFFF) \<lparr>cm_queue = QUEUE_NUM, cm_attrs = []\<rparr>;
                 nlh = cfg_put (NFQA_CFG_FLAGS (htonl_bytes 4)) nlh;
                 nlh = cfg_put (NFQA_CFG_MASK (htonl_bytes 4)) nlh
             in cfg_sendto S nlh sent))"

subsection \<open>The receive loop\<close>

type_synonym 'b cb_run =
  "(packet_env \<times> nfq_msg \<Rightarrow> daemon \<Rightarrow> (int \<times> daemon) result) \<Rightarrow> 'b \<Rightarrow> daemon \<Rightarrow> (int \<times> daemon) result"

text \<open>One round of the loop; \<open>None\<close> is a failed receive.\<close>

definition nfqueue_recv :: "'b cb_run \<Rightarrow> ('j, 't) json_c \<Rightarrow> 'b option \<Rightarrow> daemon \<Rightarrow> daemon result" where
  "nfqueue_recv run J buf st =
    (case buf of
       None \<Rightarrow> Inl Exit
     | Some b \<Rightarrow> rbind (run (queue_cb J) b st) (\<lambda>(ret, st). if ret < 0 then Inl Exit else Inr st))"

text \<open>The states of the process after the buffers received so far; a fault or an exit ends it.\<close>

inductive nfqueue_loop :: "'b cb_run \<Rightarrow> ('j, 't) json_c \<Rightarrow> daemon \<Rightarrow> 'b option list \<Rightarrow> daemon result \<Rightarrow> bool"
  for run :: "'b cb_run" and J :: "('j, 't) json_c" and st :: daemon where
  start: "nfqueue_loop run J st [] (Inr st)"
| recv: "nfqueue_loop run J st bufs (Inr s) \<Longrightarrow> nfqueue_recv run J buf s = r \<Longrightarrow> nfqueue_loop run J st (bufs @ [buf]) r"

inductive_cases nfqueue_loop_NilE: "nfqueue_loop run J st [] r"
inductive_cases nfqueue_loop_snocE: "nfqueue_loop run J st (bufs @ [buf]) r"

text \<open>
  \<open>mnl_cb_run\<close> calls the callback on the messages of the buffer in order, until one returns
  \<open>MNL_CB_STOP\<close> or less, which is then its result; otherwise the result depends on the buffer only.
\<close>

fun cb_sequence :: "('m \<Rightarrow> 's \<Rightarrow> (int \<times> 's) result) \<Rightarrow> 'm list \<Rightarrow> int \<Rightarrow> 's \<Rightarrow> (int \<times> 's) result" where
  "cb_sequence cb [] ret st = Inr (ret, st)"
| "cb_sequence cb (m # ms) ret st =
     rbind (cb m st) (\<lambda>(r, st). if r \<le> MNL_CB_STOP then Inr (r, st) else cb_sequence cb ms ret st)"

definition calls_back :: "'b cb_run \<Rightarrow> ('b \<Rightarrow> (packet_env \<times> nfq_msg) list \<times> int) \<Rightarrow> bool" where
  "calls_back run msgs \<longleftrightarrow> (\<forall>cb b st. run cb b st = cb_sequence cb (fst (msgs b)) (snd (msgs b)) st)"

subsection \<open>Conservation of packets\<close>

text \<open>The identifier of the packet in a message, and the messages of port 443.\<close>

definition msg_ids :: "nfq_msg \<Rightarrow> u32 list" where
  "msg_ids m = (if nm_parsed m then case nm_packet_hdr m of None \<Rightarrow> []
     | Some h \<Rightarrow> (case hdr_packet_id h of Inl e \<Rightarrow> [] | Inr i \<Rightarrow> [i]) else [])"

definition tls_payload :: "byte list \<Rightarrow> bool" where
  "tls_payload p \<longleftrightarrow> ip_protocol p = Inr IPPROTO_TCP
     \<and> (case ip_ihl p of Inl e \<Rightarrow> False | Inr ihl \<Rightarrow> l4_dport p (ihl * 4) = Inr 443)"

definition tls_msg :: "nfq_msg \<Rightarrow> bool" where
  "tls_msg m \<longleftrightarrow> (case nm_payload m of None \<Rightarrow> False | Some p \<Rightarrow> tls_payload (fst p))"

definition received :: "('b \<Rightarrow> (packet_env \<times> nfq_msg) list \<times> int) \<Rightarrow> 'b option list \<Rightarrow> nfq_msg list" where
  "received msgs bufs = concat (map (\<lambda>b. case b of None \<Rightarrow> [] | Some b \<Rightarrow> map snd (fst (msgs b))) bufs)"

definition ids_of :: "nfq_msg list \<Rightarrow> u32 multiset" where
  "ids_of ms = mset (concat (map msg_ids ms))"

lemma ids_of_simps [simp]: "ids_of [] = {#}" "ids_of (m # ms) = mset (msg_ids m) + ids_of ms" "ids_of (a @ b) = ids_of a + ids_of b"
  by (simp_all add: ids_of_def)

lemma packet_handle_cases:
  assumes "packet_handle J E pk st = Inr st'"
  obtains (accept) "dm_verdict E (pk_id pk) NF_ACCEPT st = Inr st'" "\<not> tls_payload (pk_payload pk)"
    | (http) u where "packet_handle_tcp80 J E u pk st = Inr st'" "\<not> tls_payload (pk_payload pk)"
    | (tls) u where "packet_handle_tcp443 J E u pk st = Inr st'" "tls_payload (pk_payload pk)"
    | (dns) u where "packet_handle_udp53 J E u pk st = Inr st'" "\<not> tls_payload (pk_payload pk)"
  using assms unfolding packet_handle_def Let_def
  by (auto simp: result_simps tls_payload_def IPPROTO_TCP_def IPPROTO_UDP_def split: if_splits)

text \<open>A packet of port 443 may be held or forgotten; any other one is judged.\<close>

lemma packet_handle_ok:
  assumes ok: "daemon_ok st" and r: "packet_handle J E pk st = Inr st'"
  shows "daemon_ok st' \<and> dm_config st' = dm_config st \<and> dm_accounted st \<subseteq># dm_accounted st'
    \<and> dm_accounted st' \<subseteq># add_mset (pk_id pk) (dm_accounted st)
    \<and> (\<not> tls_payload (pk_payload pk) \<longrightarrow> dm_accounted st' = add_mset (pk_id pk) (dm_accounted st))"
  using r
proof (cases rule: packet_handle_cases)
  case accept
  with dm_verdict_ok [OF accept(1)] ok show ?thesis by simp
next
  case http
  with http.keeps_ok [OF ok http(1)] http.prompt [OF ok http(1)] show ?thesis by simp
next
  case tls
  with tls.keeps_ok [OF ok tls(1)] tls.no_extra [OF ok tls(1)] tls.no_loss [OF ok tls(1)] show ?thesis by simp
next
  case dns
  with udp.keeps_ok [OF ok dns(1)] udp.prompt [OF ok dns(1)] show ?thesis by simp
qed

interpretation queue: packet_handler "\<lambda>E u pk. packet_handle J E pk" for J
  by unfold_locales (use packet_handle_ok in blast)+

lemma queue_cb_ok:
  assumes ok: "daemon_ok st" and r: "queue_cb J m st = Inr (ret, st')"
  shows "daemon_ok st' \<and> dm_config st' = dm_config st
    \<and> dm_accounted st' \<subseteq># mset (msg_ids (snd m)) + dm_accounted st
    \<and> (if tls_msg (snd m) then {#} else mset (msg_ids (snd m))) + dm_accounted st \<subseteq># dm_accounted st'"
proof (cases "\<exists>ph. nm_parsed (snd m) \<and> nm_packet_hdr (snd m) = Some ph")
  case False
  then have "msg_ids (snd m) = []" by (auto simp: msg_ids_def split: option.splits)
  with False r ok show ?thesis by (auto simp: queue_cb_def split: option.splits if_splits)
next
  case True
  with r obtain ph i p n where m: "nm_parsed (snd m)" "nm_packet_hdr (snd m) = Some ph" "hdr_packet_id ph = Inr i" "nm_payload (snd m) = Some (p, n)"
    and h: "packet_handle J (fst m) \<lparr>pk_id = i, pk_payload = p, pk_length = n\<rparr> st = Inr st'"
    by (auto simp: queue_cb_def result_simps split: option.splits)
  have "msg_ids (snd m) = [i]" "tls_msg (snd m) = tls_payload p" using m by (simp_all add: msg_ids_def tls_msg_def)
  with packet_handle_ok [OF ok h] show ?thesis by simp
qed

lemma distinct_sub_mset:
  assumes "mset xs \<subseteq># mset ys" and "distinct ys"
  shows "distinct xs"
proof -
  from assms(1) obtain zs where "mset ys = mset (xs @ zs)" by (metis ex_mset mset_append subset_mset.le_iff_add)
  with assms(2) have "distinct (xs @ zs)" by (metis mset_eq_imp_distinct_iff)
  then show ?thesis by simp
qed

definition prompt_msgs :: "nfq_msg list \<Rightarrow> nfq_msg list" where
  "prompt_msgs ms = filter (\<lambda>m. \<not> tls_msg m) ms"

text \<open>What a state accounts for after the messages \<open>ms\<close>, compared with the state before.\<close>

definition conserved :: "nfq_msg list \<Rightarrow> daemon \<Rightarrow> daemon \<Rightarrow> bool" where
  "conserved ms st st' \<longleftrightarrow> daemon_ok st' \<and> dm_config st' = dm_config st
     \<and> dm_accounted st' \<subseteq># ids_of ms + dm_accounted st \<and> ids_of (prompt_msgs ms) + dm_accounted st \<subseteq># dm_accounted st'"

lemma conserved_refl: "daemon_ok st \<Longrightarrow> conserved [] st st"
  by (simp add: conserved_def prompt_msgs_def)

lemma conserved_trans:
  assumes "conserved a st s" and "conserved b s st'"
  shows "conserved (a @ b) st st'"
proof -
  have "dm_accounted st' \<subseteq># ids_of b + (ids_of a + dm_accounted st)"
    using assms unfolding conserved_def by (meson subset_mset.add_left_mono subset_mset.order_trans)
  moreover have "ids_of (prompt_msgs b) + (ids_of (prompt_msgs a) + dm_accounted st) \<subseteq># dm_accounted st'"
    using assms unfolding conserved_def by (meson subset_mset.add_left_mono subset_mset.order_trans)
  ultimately show ?thesis using assms by (simp add: conserved_def prompt_msgs_def ac_simps)
qed

lemma queue_cb_conserved: "daemon_ok st \<Longrightarrow> queue_cb J m st = Inr (ret, st') \<Longrightarrow> conserved [snd m] st st'"
  using queue_cb_ok [of st J m ret st'] by (simp add: conserved_def prompt_msgs_def split: if_splits)

lemma queue_cb_ret: "queue_cb J m st = Inr (ret, st') \<Longrightarrow> ret = MNL_CB_OK \<or> ret = MNL_CB_ERROR"
  by (auto simp: queue_cb_def result_simps split: if_splits option.splits)

lemma cb_sequence_conserved:
  assumes "daemon_ok st" and "cb_sequence (queue_cb J) ms tail st = Inr (ret, st')" and "0 \<le> ret"
  shows "conserved (map snd ms) st st'"
  using assms
proof (induction ms arbitrary: st)
  case Nil
  then show ?case by (simp add: conserved_refl)
next
  case (Cons m ms)
  from Cons.prems(2) obtain r s where m: "queue_cb J m st = Inr (r, s)"
    and rest: "(if r \<le> MNL_CB_STOP then Inr (r, s) else cb_sequence (queue_cb J) ms tail s) = Inr (ret, st')"
    by (auto simp: result_simps)
  have "cb_sequence (queue_cb J) ms tail s = Inr (ret, st')"
    using rest queue_cb_ret [OF m] Cons.prems(3) by (auto simp: MNL_CB_OK_def MNL_CB_ERROR_def MNL_CB_STOP_def)
  with Cons.IH [of s] queue_cb_conserved [OF Cons.prems(1) m] Cons.prems(3) have "conserved (map snd ms) s st'"
    by (simp add: conserved_def)
  from conserved_trans [OF queue_cb_conserved [OF Cons.prems(1) m] this] show ?case by simp
qed

lemma nfqueue_recv_conserved:
  assumes "calls_back run msgs" and "daemon_ok st" and "nfqueue_recv run J buf st = Inr st'"
  shows "conserved (received msgs [buf]) st st'"
proof -
  from assms obtain b ret where b: "buf = Some b" "cb_sequence (queue_cb J) (fst (msgs b)) (snd (msgs b)) st = Inr (ret, st')" "0 \<le> ret"
    by (auto simp: nfqueue_recv_def calls_back_def result_simps split: option.splits if_splits)
  from cb_sequence_conserved [OF assms(2) b(2,3)] b(1) show ?thesis by (simp add: received_def)
qed

lemma nfqueue_loop_conserved:
  assumes "nfqueue_loop run J st bufs r" and "calls_back run msgs" and "daemon_ok st" and "r = Inr s"
  shows "conserved (received msgs bufs) st s"
  using assms
proof (induction arbitrary: s rule: nfqueue_loop.induct)
  case start
  then show ?case by (simp add: conserved_refl received_def)
next
  case (recv bufs s0 buf r)
  from recv.IH [OF recv.prems(1,2) refl] have c: "conserved (received msgs bufs) st s0" .
  then have "daemon_ok s0" by (simp add: conserved_def)
  from conserved_trans [OF c nfqueue_recv_conserved [OF recv.prems(1) this]] recv.hyps(2) recv.prems(3)
  show ?case by (simp add: received_def)
qed

subsection \<open>Properties\<close>

text \<open>
  C3: Packets are conserved by the receive loop.  In every state the loop reaches, the invariants of
  all components hold and the configuration is the one it started with; the packets that were judged or
  are held are packets that were received, each at most as often as it was received; and every packet
  received that is not one of TCP port 443 is among them.
\<close>

theorem packets_conserved:
  assumes "calls_back run msgs" and "config_ok cfg" and "nfqueue_loop run J (daemon_init cfg) bufs (Inr s)"
  shows "daemon_ok s \<and> dm_config s = cfg \<and> dm_accounted s \<subseteq># ids_of (received msgs bufs)
    \<and> ids_of (filter (\<lambda>m. \<not> tls_msg m) (received msgs bufs)) \<subseteq># dm_accounted s"
  using nfqueue_loop_conserved [OF assms(3,1) daemon_ok_init(1) [OF assms(2)] refl] daemon_ok_init(2)
  by (simp add: conserved_def prompt_msgs_def daemon_init_def)

text \<open>
  C4: No packet is judged twice or out of the blue: when the kernel gives every packet an identifier of
  its own, every verdict the daemon ever sends is for a packet it received, no packet gets two, and a
  packet that is still held in a flow has none.
\<close>

theorem one_verdict_per_packet:
  assumes "calls_back run msgs" and "config_ok cfg" and "nfqueue_loop run J (daemon_init cfg) bufs (Inr s)"
    and "distinct (concat (map msg_ids (received msgs bufs)))"
  shows "distinct (verdict_ids (dm_net s)) \<and> set (verdict_ids (dm_net s)) \<subseteq> set (concat (map msg_ids (received msgs bufs)))
    \<and> set (verdict_ids (dm_net s)) \<inter> set (held (cached_flows (dm_flows s)) (dm_flows s)) = {}"
proof -
  let ?v = "verdict_ids (dm_net s)" and ?h = "held (cached_flows (dm_flows s)) (dm_flows s)"
  have "mset (?v @ ?h) \<subseteq># mset (concat (map msg_ids (received msgs bufs)))"
    using nfqueue_loop_conserved [OF assms(3,1) daemon_ok_init(1) [OF assms(2)] refl] daemon_ok_init(2)
    by (simp add: conserved_def dm_accounted_def accounted_def dm_net_def ids_of_def)
  moreover from this have "distinct (?v @ ?h)" using assms(4) by (rule distinct_sub_mset)
  ultimately show ?thesis by (auto dest: mset_subset_eqD)
qed

text \<open>Packets the filter does not examine.\<close>

definition passed_over :: "byte list \<Rightarrow> bool" where
  "passed_over p \<longleftrightarrow> (\<exists>protocol. ip_protocol p = Inr protocol \<and>
     (if protocol = IPPROTO_TCP \<or> protocol = IPPROTO_UDP
      then \<exists>ihl srcport dstport. ip_ihl p = Inr ihl \<and> l4_sport p (ihl * 4) = Inr srcport \<and> l4_dport p (ihl * 4) = Inr dstport
        \<and> dstport \<notin> (if protocol = IPPROTO_TCP then {80, 443} else {53})
      else True))"

definition passing_msg :: "packet_env \<times> nfq_msg \<Rightarrow> u32 \<Rightarrow> bool" where
  "passing_msg m i \<longleftrightarrow> pe_sendto (fst m) \<and> nm_parsed (snd m) \<and> (\<exists>ph p n. nm_packet_hdr (snd m) = Some ph
     \<and> hdr_packet_id ph = Inr i \<and> nm_payload (snd m) = Some (p, n) \<and> passed_over p)"

lemma packet_handle_passed_over:
  assumes "passed_over (pk_payload pk)"
  shows "packet_handle J E pk st = dm_verdict E (pk_id pk) NF_ACCEPT st"
  using assms by (auto simp: passed_over_def packet_handle_def IPPROTO_TCP_def IPPROTO_UDP_def Let_def split: if_splits)

lemma queue_cb_passing:
  assumes "passing_msg m i"
  shows "queue_cb J m st = Inr (MNL_CB_OK, dm_set_net (dm_net st @ [VERDICT i NF_ACCEPT]) st)"
  using assms by (auto simp: passing_msg_def queue_cb_def packet_handle_passed_over dm_verdict_def nfq_send_verdict_def)

lemma cb_sequence_passing:
  "list_all2 passing_msg ms is \<Longrightarrow> cb_sequence (queue_cb J) (ms @ rest) ret st =
     cb_sequence (queue_cb J) rest ret (dm_set_net (dm_net st @ map (\<lambda>i. VERDICT i NF_ACCEPT) is) st)"
proof (induction ms "is" arbitrary: st rule: list_all2_induct)
  case Nil
  show ?case by (simp add: dm_set_net_def dm_net_def)
next
  case (Cons m ms i "is")
  then show ?case by (simp add: queue_cb_passing MNL_CB_OK_def MNL_CB_STOP_def) (simp add: dm_set_net_def)
qed

text \<open>
  C14: Traffic the filter does not examine passes.  A buffer of messages on packets that are neither
  TCP for port 80 or 443 nor UDP for port 53 is handled completely, whatever the state of the daemon:
  every packet gets the verdict to accept it, in the order of arrival, and nothing else changes.
\<close>

theorem other_traffic_passes:
  assumes "calls_back run msgs" and "msgs b = (ms, MNL_CB_OK)" and "list_all2 passing_msg ms is"
  shows "nfqueue_recv run J (Some b) st = Inr (dm_set_net (dm_net st @ map (\<lambda>i. VERDICT i NF_ACCEPT) is) st)"
  using assms cb_sequence_passing [OF assms(3), of J "[]" MNL_CB_OK st]
  by (simp add: nfqueue_recv_def calls_back_def MNL_CB_OK_def)

lemma cb_sequence_append:
  "cb_sequence (queue_cb J) (ms @ rest) tail st = rbind (cb_sequence (queue_cb J) ms MNL_CB_OK st) (\<lambda>(ret, s).
     if ret = MNL_CB_ERROR then Inr (ret, s) else cb_sequence (queue_cb J) rest tail s)"
proof (induction ms arbitrary: st)
  case Nil
  show ?case by (simp add: MNL_CB_OK_def MNL_CB_ERROR_def)
next
  case (Cons m ms)
  show ?case
  proof (cases "queue_cb J m st")
    case (Inr p)
    then obtain s where "p = (MNL_CB_OK, s) \<or> p = (MNL_CB_ERROR, s)" by (metis queue_cb_ret surj_pair)
    with Inr Cons.IH show ?thesis by (auto simp: MNL_CB_OK_def MNL_CB_ERROR_def MNL_CB_STOP_def)
  qed simp
qed

text \<open>A message the callback can do nothing with, and what comes of it.\<close>

definition bad_msg :: "nfq_msg \<Rightarrow> bool" where
  "bad_msg m \<longleftrightarrow> (\<not> nm_parsed m \<or> nm_packet_hdr m = None \<or> nm_payload m = None)
     \<and> (\<forall>ph. nm_packet_hdr m = Some ph \<longrightarrow> 4 \<le> length ph)"

definition bad_end :: "nfq_msg \<Rightarrow> error" where
  "bad_end m = (if nm_parsed m \<and> nm_packet_hdr m \<noteq> None then NullDeref else Exit)"

lemma queue_cb_bad:
  assumes "bad_msg (snd m)"
  shows "queue_cb J m st = (if bad_end (snd m) = NullDeref then Inl NullDeref else Inr (MNL_CB_ERROR, st))"
proof -
  have "\<exists>i. hdr_packet_id ph = Inr i" if "nm_packet_hdr (snd m) = Some ph" for ph
    using assms that by (auto simp: bad_msg_def hdr_packet_id_def rd16be_def rd8_def)
  with assms show ?thesis by (auto simp: queue_cb_def bad_msg_def bad_end_def split: option.splits)
qed

lemma nfqueue_loop_deterministic: "nfqueue_loop run J st bufs r \<Longrightarrow> nfqueue_loop run J st bufs r' \<Longrightarrow> r' = r"
proof (induction arbitrary: r' rule: nfqueue_loop.induct)
  case start
  then show ?case by (auto elim: nfqueue_loop_NilE)
next
  case (recv bufs s buf r)
  from recv.prems obtain s' where "nfqueue_loop run J st bufs (Inr s')" "nfqueue_recv run J buf s' = r'"
    by (auto elim: nfqueue_loop_snocE)
  with recv.IH recv.hyps show ?case by fastforce
qed

lemma nfqueue_recv_bad:
  assumes "calls_back run msgs" and "fst (msgs b) = ms @ m # rest" and "bad_msg (snd m)"
  shows "nfqueue_recv run J (Some b) s = Inl (case cb_sequence (queue_cb J) ms MNL_CB_OK s of
      Inl e \<Rightarrow> e | Inr (ret, s') \<Rightarrow> if ret = MNL_CB_ERROR then Exit else bad_end (snd m))"
proof -
  have "run (queue_cb J) b s = cb_sequence (queue_cb J) (ms @ m # rest) (snd (msgs b)) s"
    using assms(1,2) by (simp add: calls_back_def)
  then show ?thesis
    by (auto simp: nfqueue_recv_def cb_sequence_append queue_cb_bad [OF assms(3)] MNL_CB_ERROR_def MNL_CB_STOP_def
        bad_end_def split: sum.splits if_splits)
qed

text \<open>
  C40: A message the callback cannot use ends the daemon, whatever messages stand before it in its buffer
  and whatever was received before.  The messages before it are handled first, with all their effects; if
  one of them faults, that fault ends the daemon, and if one of them makes the callback fail, the daemon
  exits.  Otherwise the message itself ends it: one that does not parse or has no packet header makes it
  exit, and one without a payload makes it dereference a null pointer (a packet header, where there is one,
  having at least the four bytes of the identifier).  Nothing else can happen, and the
  messages after it are never handled.
\<close>

theorem bad_message_ends_daemon:
  assumes "calls_back run msgs" and "fst (msgs b) = ms @ m # rest" and "bad_msg (snd m)"
    and "nfqueue_loop run J st bufs (Inr s)"
  shows "nfqueue_loop run J st (bufs @ [Some b]) r \<longleftrightarrow> r = Inl (case cb_sequence (queue_cb J) ms MNL_CB_OK s of
      Inl e \<Rightarrow> e
    | Inr (ret, s') \<Rightarrow> if ret = MNL_CB_ERROR \<or> \<not> nm_parsed (snd m) \<or> nm_packet_hdr (snd m) = None then Exit else NullDeref)"
proof -
  have "nfqueue_loop run J st (bufs @ [Some b]) (nfqueue_recv run J (Some b) s)"
    by (rule nfqueue_loop.recv [OF assms(4) refl])
  then have "nfqueue_loop run J st (bufs @ [Some b]) r \<longleftrightarrow> r = nfqueue_recv run J (Some b) s"
    using nfqueue_loop_deterministic by metis
  then show ?thesis unfolding nfqueue_recv_bad [OF assms(1-3)] by (auto simp: bad_end_def split: sum.splits)
qed

text \<open>
  The start of the queue succeeds exactly when the socket can be opened and bound, the buffer
  allocated and two messages sent: the binding of the queue, and its parameters.  The maximal queue
  length, which is put into the first message after that was sent, is in neither.
\<close>

theorem queue_length_not_sent:
  "nfqueue_start S = (if se_open S \<and> se_bind S \<and> se_malloc S \<and> se_sendto S 0 \<and> se_sendto S 1
     then Inr [\<lparr>cm_queue = 0, cm_attrs = [NFQA_CFG_CMD_BIND 2]\<rparr>,
       \<lparr>cm_queue = 0, cm_attrs = [NFQA_CFG_PARAMS_COPY_PACKET 65535, NFQA_CFG_FLAGS [0, 0, 0, 4], NFQA_CFG_MASK [0, 0, 0, 4]]\<rparr>]
     else Inl Exit)"
  by (simp add: nfqueue_start_def cfg_put_def cfg_sendto_def htonl_bytes_def QUEUE_NUM_def AF_INET_def)

subsection \<open>Witnesses\<close>

type_synonym sample_buf = "(packet_env \<times> nfq_msg) list \<times> int"

definition sample_run :: "sample_buf cb_run" where
  "sample_run cb b st = cb_sequence cb (fst b) (snd b) st"

lemma sample_run_ok: "calls_back sample_run (\<lambda>b. b)"
  by (simp add: calls_back_def sample_run_def)

definition sample_msg :: "packet_env \<times> nfq_msg" where
  "sample_msg = (sample_packet_env 1000 True, \<lparr>nm_parsed = True, nm_packet_hdr = Some [0, 0, 0, 7, 8, 0, 1],
     nm_payload = Some ([0x45, 0, 0, 20, 0, 0, 0, 0, 64, 1, 0, 0, 10, 0, 0, 2, 8, 8, 8, 8], 20)\<rparr>)"

lemma sample_msg_passing: "passing_msg sample_msg 7" "msg_ids (snd sample_msg) = [7]" "\<not> tls_msg (snd sample_msg)"
  by (simp_all add: passing_msg_def passed_over_def sample_msg_def sample_env_simps hdr_packet_id_def rd16be_def rd8_def be16_def
      ip_protocol_def IPPROTO_TCP_def IPPROTO_UDP_def msg_ids_def tls_msg_def tls_payload_def)

definition sample_buffer :: sample_buf where "sample_buffer = ([sample_msg], 1)"

lemma sample_received: "received (\<lambda>b. b) [Some sample_buffer] = [snd sample_msg]"
  by (simp add: received_def sample_buffer_def)

lemma sample_loop:
  "\<exists>s. nfqueue_loop sample_run (json_instance None) (daemon_init sample_rules) [Some sample_buffer] (Inr s)
    \<and> verdict_ids (dm_net s) = [7]"
proof -
  let ?st = "daemon_init sample_rules"
  let ?s = "dm_set_net (dm_net ?st @ [VERDICT 7 NF_ACCEPT]) ?st"
  have "nfqueue_recv sample_run (json_instance None) (Some sample_buffer) ?st = Inr ?s"
    by (simp add: nfqueue_recv_def sample_run_def sample_buffer_def queue_cb_passing [OF sample_msg_passing(1)] MNL_CB_OK_def MNL_CB_STOP_def)
  with nfqueue_loop.recv [OF nfqueue_loop.start] have "nfqueue_loop sample_run (json_instance None) ?st ([] @ [Some sample_buffer]) (Inr ?s)" by blast
  moreover have "verdict_ids (dm_net ?s) = [7]" by (simp add: daemon_init_def dm_net_def dm_set_net_def flow_init_def)
  ultimately show ?thesis by auto
qed

theorem packets_conserved_witness:
  "\<exists>s. nfqueue_loop sample_run (json_instance None) (daemon_init sample_rules) [Some sample_buffer] (Inr s)
    \<and> daemon_ok s \<and> dm_accounted s = {#7#}"
proof -
  from sample_loop obtain s where s: "nfqueue_loop sample_run (json_instance None) (daemon_init sample_rules) [Some sample_buffer] (Inr s)" by blast
  from packets_conserved [OF sample_run_ok sample_rules_ok(1) s] sample_msg_passing(2,3) have "daemon_ok s" "dm_accounted s = {#7#}"
    unfolding sample_received by (auto intro: subset_mset.antisym)
  with s show ?thesis by blast
qed

theorem one_verdict_per_packet_witness:
  "\<exists>s. nfqueue_loop sample_run (json_instance None) (daemon_init sample_rules) [Some sample_buffer] (Inr s)
    \<and> verdict_ids (dm_net s) = [7] \<and> held (cached_flows (dm_flows s)) (dm_flows s) = []"
proof -
  from sample_loop obtain s where s: "nfqueue_loop sample_run (json_instance None) (daemon_init sample_rules) [Some sample_buffer] (Inr s)"
    "verdict_ids (dm_net s) = [7]" by blast
  have "mset (held (cached_flows (dm_flows s)) (dm_flows s)) \<subseteq># {#}"
    using nfqueue_loop_conserved [OF s(1) sample_run_ok daemon_ok_init(1) [OF sample_rules_ok(1)] refl] daemon_ok_init(2) s(2) sample_msg_passing(2)
    unfolding sample_received by (simp add: conserved_def dm_accounted_def accounted_def dm_net_def)
  with one_verdict_per_packet [OF sample_run_ok sample_rules_ok(1) s(1)] s sample_msg_passing(2) show ?thesis
    unfolding sample_received by auto
qed

theorem other_traffic_passes_witness:
  "\<exists>s. nfqueue_recv sample_run (json_instance None) (Some sample_buffer) (daemon_init sample_rules) = Inr s
    \<and> dm_net s = [VERDICT 7 NF_ACCEPT]"
  using other_traffic_passes [OF sample_run_ok, of sample_buffer "[sample_msg]" "[7]" "json_instance None" "daemon_init sample_rules"]
    sample_msg_passing(1)
  by (simp add: sample_buffer_def MNL_CB_OK_def daemon_init_def dm_net_def flow_init_def dm_set_net_def)

lemma sample_bad_msg: "bad_msg (snd (fst sample_msg, (snd sample_msg)\<lparr>nm_payload := None\<rparr>))"
  by (simp add: bad_msg_def sample_msg_def)

theorem bad_message_ends_daemon_witness:
  "nfqueue_loop sample_run (json_instance None) (daemon_init sample_rules)
     [Some ([sample_msg, (fst sample_msg, (snd sample_msg)\<lparr>nm_payload := None\<rparr>)], 1)] (Inl NullDeref)"
  using bad_message_ends_daemon [OF sample_run_ok _ sample_bad_msg nfqueue_loop.start,
      of "([sample_msg, (fst sample_msg, (snd sample_msg)\<lparr>nm_payload := None\<rparr>)], 1)" "[sample_msg]" "[]"
         "json_instance None" "daemon_init sample_rules" "Inl NullDeref"]
    queue_cb_passing [OF sample_msg_passing(1), of "json_instance None"]
  by (simp add: sample_msg_def MNL_CB_OK_def MNL_CB_ERROR_def MNL_CB_STOP_def)

end
