(* ===== verification/Uwebfilter_Main.thy ===== *)
theory Uwebfilter_Main
  imports Nfqueue Logger
begin

text \<open>
  \<open>main.c\<close>: the start of the daemon.  The constructors of the components run first (the database, the
  arena of the cache, the log buffer), then \<open>main\<close> loads and prints the configuration, opens the log and
  starts the queue.  The receive loop of \<open>nfqueue_main\<close> does not return, so that \<open>logger_close\<close> is never
  reached; \<open>started\<close> is the state in which the loop begins.

  \<open>request_for\<close> collects the packets of the three protocols that ask for a name; the lemmas carry the
  access rules of the configuration document to every state the loop reaches.
\<close>

subsection \<open>The start\<close>

record main_env =
  me_argc :: int
  me_db_open :: bool
  me_db_exec :: bool
  me_db_prepare :: bool
  me_load :: load_env
  me_start :: start_env

record process =
  pr_daemon :: daemon
  pr_logger :: logger
  pr_stdout :: "byte list"
  pr_sent :: "cfg_msg list"

definition main :: "('j, 't) json_c \<Rightarrow> main_env \<Rightarrow> 'j option \<Rightarrow> process result" where
  "main J M root =
     rbind (db_init (me_db_open M) (me_db_exec M) (me_db_prepare M) logbuffer_init) (\<lambda>lg.
     if me_argc M \<noteq> 2 then die
     else rbind (config_load J (me_load M) root config_init) (\<lambda>cfg.
          rbind (config_print cfg) (\<lambda>out.
          let logger = logger_set_loglevel LOGLEVEL_DEBUG (logger_init (\<lambda>_. True) None logger_static)
          in rbind (nfqueue_start (me_start M)) (\<lambda>sent.
             Inr \<lparr>pr_daemon = (daemon_init cfg)\<lparr>dm_log := lg\<rparr>, pr_logger = logger, pr_stdout = out, pr_sent = sent\<rparr>))))"

text \<open>A state of the daemon some time after its start.\<close>

definition serving :: "'b cb_run \<Rightarrow> ('j, 't) json_c \<Rightarrow> main_env \<Rightarrow> 'j \<Rightarrow> 'b option list \<Rightarrow> process \<Rightarrow> daemon \<Rightarrow> bool" where
  "serving run J M r bufs p s \<longleftrightarrow> main J M (Some r) = Inr p \<and> nfqueue_loop run J (pr_daemon p) bufs (Inr s)"

lemma main_Inr:
  assumes "main J M (Some r) = Inr p"
  shows "\<exists>cfg. config_load J (me_load M) (Some r) config_init = Inr cfg \<and> pr_daemon p = daemon_init cfg
    \<and> pr_logger p = logger_set_loglevel LOGLEVEL_DEBUG (logger_init (\<lambda>_. True) None logger_static) \<and> me_argc M = 2
    \<and> config_print cfg = Inr (pr_stdout p) \<and> nfqueue_start (me_start M) = Inr (pr_sent p)"
  using assms by (auto simp: main_def result_simps db_init_def die_def daemon_init_def Let_def split: if_splits)

text \<open>The rules of the document are in force in every state.\<close>

lemma serving_rules:
  assumes J: "json_strings_ok J" and L: "load_succeeds (me_load M)" and run: "calls_back run msgs" and s: "serving run J M r bufs p s"
  shows "daemon_ok s" "config_load J (me_load M) (Some r) config_init = Inr (dm_config s)"
proof -
  from s have "main J M (Some r) = Inr p" by (simp add: serving_def)
  from main_Inr [OF this] obtain cfg where
    c: "config_load J (me_load M) (Some r) config_init = Inr cfg" "pr_daemon p = daemon_init cfg" by blast
  have l: "nfqueue_loop run J (daemon_init cfg) bufs (Inr s)" using s c(2) by (simp add: serving_def)
  from nfqueue_loop_conserved [OF l run daemon_ok_init(1) refl] config_load_rules(1) [OF J L c(1)]
  have k: "daemon_ok s" "dm_config s = cfg" by (simp_all add: conserved_def daemon_init_def)
  from k(1) show "daemon_ok s" .
  from c(1) k(2) show "config_load J (me_load M) (Some r) config_init = Inr (dm_config s)" by simp
qed

subsection \<open>Packets that ask for a name\<close>

inductive request_for :: "packet_env \<Rightarrow> packet_info \<Rightarrow> daemon \<Rightarrow> byte list \<Rightarrow> bool" for E pk st where
  dns: "\<lbrakk>ip_protocol (pk_payload pk) = Inr IPPROTO_UDP; l4_dport (pk_payload pk) (ihl * 4) = Inr 53;
     dns_query_packet (pk_payload pk) ihl ls t2; t2 \<le> 17 \<or> t2 = 65 \<or> t2 = 28; length (wire_name ls) \<le> 227;
     20 + length (wire_name ls) + ihl * 4 \<le> unat (pk_length pk)\<rbrakk> \<Longrightarrow> request_for E pk st (dotted ls)"
| http: "\<lbrakk>ip_protocol (pk_payload pk) = Inr IPPROTO_TCP; l4_dport (pk_payload pk) (ihl * 4) = Inr 80;
     http_packet pk ihl target hl; 0 \<notin> set hl; length hl < 262\<rbrakk> \<Longrightarrow> request_for E pk st (drop 6 hl)"
| tls: "\<lbrakk>ip_protocol (pk_payload pk) = Inr IPPROTO_TCP; ip_ihl (pk_payload pk) = Inr ihl;
     l4_sport (pk_payload pk) (ihl * 4) = Inr (fk_port key); l4_dport (pk_payload pk) (ihl * 4) = Inr 443;
     hello_for hello name; tls_packet pk key (hello @ tail) n; length hello \<le> unat n + 5;
     tcpflow_lookup (pe_pad E) key (dm_flows st) = Inr None\<rbrakk> \<Longrightarrow> request_for E pk st name"

lemma zero_record: "ul_domain uwebfilterlog_zero = replicate 256 0" "ul_path uwebfilterlog_zero = replicate 1024 0"
  by (simp_all add: uwebfilterlog_zero_def DOMAIN_LENGTH_def PATH_LENGTH_def)

lemma cstr_padded: "0 \<notin> set name \<Longrightarrow> length name < 256 \<Longrightarrow> cstr (name @ replicate (256 - length name) 0) = name"
  by simp

text \<open>The verdict on such a packet is the decision on the name.\<close>

lemma request_judged:
  assumes q: "request_for E pk st name" and run: "packet_handle J E pk st = Inr st'"
  shows "\<exists>v u u' s1. check_access J E u (pk_payload pk) st = Inr (v, u', s1) \<and> cstr (ul_domain u) = name
    \<and> verdicts (dm_net st') = verdicts (dm_net st) @ [(pk_id pk, v)]"
  using q
proof cases
  case (dns ihl ls t2)
  note e = dns_query_extract [OF dns(4-7)]
  from run dns(2,3) e(2) obtain u where u: "packet_handle_udp53 J E u pk st = Inr st'" "ul_domain u = replicate 256 0"
    by (auto simp: packet_handle_def result_simps IPPROTO_TCP_def IPPROTO_UDP_def zero_record Let_def)
  have "list_all label_ok ls" using dns(4) by (simp add: dns_query_packet_def)
  from cstr_padded [OF dotted_no_zero [OF this] e(3)] packet_handle_udp53_verdict [OF e(2) e(1) [folded u(2)] u(1)]
  show ?thesis unfolding dns(1) by fastforce
next
  case (http ihl target hl)
  from http_packet_extract [OF http(4)] have "ip_ihl (pk_payload pk) = Inr ihl" by blast
  with run http(2,3) obtain u where u: "packet_handle_tcp80 J E u pk st = Inr st'" "ul_domain u = replicate 256 0" "ul_path u = replicate 1024 0"
    by (auto simp: packet_handle_def result_simps IPPROTO_TCP_def IPPROTO_UDP_def zero_record Let_def)
  from packet_handle_tcp80_verdict [OF http(4) u(2,3,1)] obtain v u' s1 s2 where
    c: "check_access J E (u\<lparr>ul_domain := fitted 256 (drop 6 hl), ul_path := fitted 1024 target\<rparr>) (pk_payload pk) st = Inr (v, u', s1)"
    and s2: "(if v = NF_DROP then tcp_reset E ''TCP(80) RST: '' (ul_domain u') (pk_payload pk) s1 else Inr s1) = Inr s2"
    "dm_verdict E (pk_id pk) v s2 = Inr st'" by blast
  from c have "dm_net s1 = dm_net st" by (rule check_access_steps) (simp add: dm_net_def)
  with s2 have "verdicts (dm_net st') = verdicts (dm_net st) @ [(pk_id pk, v)]"
    by (auto simp: dm_verdict_Inr dest!: tcp_reset_verdicts split: if_splits)
  moreover have "0 \<notin> set (drop 6 hl)" using http(5) by (meson in_set_dropD)
  then have "cstr (fitted 256 (drop 6 hl)) = drop 6 hl" using http(6) fitted_props [of 256 "drop 6 hl"] by simp
  ultimately show ?thesis unfolding http(1) using c
    by - (rule exI [of _ v], rule exI [of _ "u\<lparr>ul_domain := fitted 256 (drop 6 hl), ul_path := fitted 1024 target\<rparr>"], auto)
next
  case (tls ihl key hello tail n)
  with run obtain u where u: "packet_handle_tcp443 J E u pk st = Inr st'" "ul_domain u = replicate 256 0" "ul_srcport u = fk_port key"
    by (auto simp: packet_handle_def result_simps IPPROTO_TCP_def IPPROTO_UDP_def zero_record Let_def)
  have "0 \<notin> set name" "length name < 256" using tls(5) by (auto simp: hello_for_def)
  from cstr_padded [OF this] tls_hello_verdict [OF tls(5-7) u(3) tls(8) u(2,1)]
  show ?thesis by fastforce
qed

subsection \<open>The log\<close>

lemma debug_least: "LOGLEVEL_DEBUG \<le> l"
  by (cases l) (simp_all add: less_eq_logger_loglevel_t_def)

text \<open>
  Once the daemon has started, every message it logs is written: whatever the sequence of calls of
  the logger, of any level, each writes its line to the standard error stream, in order.
\<close>

theorem started_daemon_logs_all:
  assumes "main J M (Some r) = Inr p"
  shows "lg_stream (pr_logger p) = STDERR \<and> (\<exists>lg. logger_run timefmt calls (pr_logger p) = Inr lg
    \<and> lg_written lg = concat (map (log_line timefmt) calls))"
proof -
  let ?lg = "logger_set_loglevel LOGLEVEL_DEBUG (logger_init (\<lambda>_. True) None logger_static)"
  have l: "lg_active ?lg" "lg_stream ?lg = STDERR" "lg_loglevel ?lg = LOGLEVEL_DEBUG" "lg_written ?lg = []"
    by (simp_all add: logger_set_loglevel_def logger_init_def logger_static_def)
  have "pr_logger p = ?lg" using main_Inr [OF assms] by blast
  then show ?thesis using logger_run_written [of ?lg timefmt calls] l by (simp add: debug_least)
qed

subsection \<open>Witnesses\<close>

lemma print_each_total: "(\<And>x. x \<in> set xs \<Longrightarrow> \<exists>s. f x = Inr s) \<Longrightarrow> \<exists>s. print_each f xs = Inr s"
  by (induction xs) force+

lemma print_domains_total:
  assumes "\<And>d. d \<in> set (HASH_ITER tbl) \<Longrightarrow> terminated (d_domain d)"
  shows "\<exists>s. print_domains pre tbl = Inr s"
proof -
  have "\<exists>s. print_each (\<lambda>d. rbind (c_str (d_domain d)) (\<lambda>s. Inr ([32, 39] @ s @ [39]))) (HASH_ITER tbl) = Inr s"
    by (rule print_each_total) (use assms in \<open>fastforce simp: c_str_Inr\<close>)
  then show ?thesis by (auto simp: print_domains_def)
qed

text \<open>A document that blocks one domain, and a start with it.\<close>

definition sample_document :: json_val where
  "sample_document = VObj [(''domains_blacklist'', VArr [VStr (bytes ''a.com'')])]"

definition sample_main_env :: main_env where
  "sample_main_env = \<lparr>me_argc = 2, me_db_open = True, me_db_exec = True, me_db_prepare = True, me_load = all_loads,
     me_start = \<lparr>se_open = True, se_bind = True, se_malloc = True, se_sendto = (\<lambda>_. True)\<rparr>\<rparr>"

lemma sample_serveraddr:
  "\<exists>b. config_load_serveraddr (json_instance r) None config_init = Inr (config_init\<lparr>serveraddr := b\<rparr>) \<and> terminated b"
proof -
  have z: "0 \<notin> set configdefault_serveraddr" "length configdefault_serveraddr = 28" by (simp_all add: configdefault_serveraddr_def bytes_def)
  have "config_load_serveraddr (json_instance r) None config_init =
      Inr (config_init\<lparr>serveraddr := configdefault_serveraddr @ replicate 228 0\<rparr>)"
    using z by (simp add: config_load_serveraddr_def strlen_cmem memcpy_zero_buffer config_init_def SERVERADDR_LENGTH_def)
  moreover have "terminated (configdefault_serveraddr @ replicate 228 0)" using terminated_append_zeros [OF z(1)] by simp
  ultimately show ?thesis by blast
qed

lemma sample_document_loads:
  "\<exists>c. config_load (json_instance r) all_loads (Some sample_document) config_init = Inr c \<and> terminated (serveraddr c)
    \<and> (\<exists>out. config_print c = Inr out)"
proof -
  let ?J = "json_instance r" and ?s = "bytes ''a.com''"
  let ?d = "\<lparr>d_addr = 0, d_domain = ?s @ replicate 251 0\<rparr>"
  have n: "uthash_ok (None :: domain_t hash_head)" "hash_room (None :: domain_t hash_head)"
    by (simp_all add: uthash_ok_def hash_room_def)
  have t: "terminated (d_domain ?d)" "cstr (d_domain ?d) = ?s" "length ?s = 5"
    using sample_name_no_zero terminated_append_zeros [OF sample_name_no_zero] by simp_all (simp add: bytes_def)
  from ut.add_total [OF n, of ?s ?d] obtain h where h: "HASH_ADD True ?s ?d None = Inr h" by blast
  with ut.add_Inr [OF n(1) _ h] have "hash_items h = [(?s, ?d)]" by (simp add: hash_items_def)
  then have it: "HASH_ITER h = [?d]" by (auto simp: hash_items_def HASH_ITER_def split: option.splits)
  have e: "blacklist_elem ?J (\<lambda>_. True) True (VArr [VStr ?s]) 0 None = Inr h"
    using h t domain_create_correct [OF sample_name_no_zero, of 0] sample_name_no_zero
    by (simp add: blacklist_elem_def json_instance_def HASH_ADD_STR_def c_strlen_def config_trunc_def DOMAIN_LENGTH_def)
  obtain b where b: "config_load_serveraddr ?J None config_init = Inr (config_init\<lparr>serveraddr := b\<rparr>)" "terminated b"
    using sample_serveraddr by blast
  have get: "json_object_object_get ?J = val_get" "array_length_or_0 ?J (VArr [VStr ?s]) = 1"
    by (simp_all add: json_instance_def array_length_or_0_def int_of_size_def)
  let ?c = "config_init\<lparr>serveraddr := b, domains_blacklist := h\<rparr>"
  have "config_load ?J all_loads (Some sample_document) config_init = Inr ?c"
    using b e by (simp add: config_load_def all_loads_def sample_document_def get config_load_categories_def
      config_load_applications_def config_load_domains_blacklist_def config_load_domains_whitelist_def
      config_load_cloudlogging_def config_init_def)
  moreover have "\<exists>out. config_print ?c = Inr out"
    using print_domains_total [of h "''>> domains_blacklist:''"] it t(1) b(2)
    by (auto simp: config_print_def print_str_def print_ints_def print_domains_def HASH_ITER_def config_init_def c_str_Inr terminated_zeros
        SERVERADDR_LENGTH_def USERNAME_LENGTH_def PASSWORD_LENGTH_def)
  ultimately show ?thesis using b(2) by auto
qed

lemma sample_main:
  "\<exists>p. main (json_instance r) sample_main_env (Some sample_document) = Inr p \<and> terminated (serveraddr (dm_config (pr_daemon p)))
    \<and> pr_daemon p = daemon_init (dm_config (pr_daemon p))"
proof -
  from sample_document_loads [of r] obtain c out where c: "config_load (json_instance r) all_loads (Some sample_document) config_init = Inr c"
    "terminated (serveraddr c)" "config_print c = Inr out" by blast
  then show ?thesis
    by (simp add: main_def sample_main_env_def db_init_def nfqueue_start_def cfg_sendto_def Let_def daemon_init_def)
qed

theorem started_daemon_logs_all_witness:
  "\<exists>p lg. main (json_instance None) sample_main_env (Some sample_document) = Inr p
    \<and> logger_run [] [(LOGLEVEL_DEBUG, bytes ''x'')] (pr_logger p) = Inr lg \<and> lg_written lg = bytes '' [DEBUG]    | x'' @ [10]"
proof -
  from sample_main obtain p where p: "main (json_instance None) sample_main_env (Some sample_document) = Inr p" by blast
  from started_daemon_logs_all [OF p, of "[]" "[(LOGLEVEL_DEBUG, bytes ''x'')]"] p show ?thesis
    by (auto simp: log_line_def bytes_def)
qed

end
