(* ===== verification/Uthash_Order.thy ===== *)
theory Uthash_Order
  imports Uthash
begin

text \<open>
  The macros of \<open>uthash.h\<close> that care for the order of the items or combine the basic operations:
  the merge sort \<open>HASH_SRT\<close>, insertion in order and replacement.

  The sort works bottom-up on runs of a length that doubles until one merge covers the list.  Its loops
  are partial functions: a run length of zero, which the 32-bit variable takes after 32 doublings, makes the
  inner loop run forever.  The lemmas show that lists of up to \<open>2 ^ 32\<close> items are sorted before that, and
  that the result is the stable sort of the library.
\<close>

subsection \<open>Sorting\<close>

text \<open>
  The merge loop: \<open>ps\<close> are the \<open>_hs_psize\<close> handles from \<open>_hs_p\<close> on, \<open>qs\<close> all handles from \<open>_hs_q\<close> on.  The
  result is the merged list and what \<open>_hs_q\<close> points to afterwards.
\<close>

fun srt_merge :: "('h \<Rightarrow> 'h \<Rightarrow> int) \<Rightarrow> 'h list \<Rightarrow> 'h list \<Rightarrow> nat \<Rightarrow> 'h list \<times> 'h list" where
  "srt_merge cmpfcn [] [] qsize = ([], [])"
| "srt_merge cmpfcn [] (q # qs) qsize =
     (if qsize = 0 then ([], q # qs)
      else let r = srt_merge cmpfcn [] qs (qsize - 1) in (q # fst r, snd r))"
| "srt_merge cmpfcn (p # ps) [] qsize = (let r = srt_merge cmpfcn ps [] qsize in (p # fst r, snd r))"
| "srt_merge cmpfcn (p # ps) (q # qs) qsize =
     (if qsize = 0 then let r = srt_merge cmpfcn ps (q # qs) qsize in (p # fst r, snd r)
      else if cmpfcn p q \<le> 0 then let r = srt_merge cmpfcn ps (q # qs) qsize in (p # fst r, snd r)
      else let r = srt_merge cmpfcn (p # ps) qs (qsize - 1) in (q # fst r, snd r))"

text \<open>One pass over the list, with the number of merges.\<close>

partial_function (option) srt_pass :: "('h \<Rightarrow> 'h \<Rightarrow> int) \<Rightarrow> u32 \<Rightarrow> 'h list \<Rightarrow> ('h list \<times> u32) option" where
  "srt_pass cmpfcn insize p =
    (if p = [] then Some ([], 0)
     else let r = srt_merge cmpfcn (take (unat insize) p) (drop (unat insize) p) (unat insize)
          in Option.bind (srt_pass cmpfcn insize (snd r)) (\<lambda>s. Some (fst r @ fst s, snd s + 1)))"

partial_function (option) srt_rounds :: "('h \<Rightarrow> 'h \<Rightarrow> int) \<Rightarrow> u32 \<Rightarrow> 'h list \<Rightarrow> 'h list option" where
  "srt_rounds cmpfcn insize l =
     Option.bind (srt_pass cmpfcn insize l) (\<lambda>s.
       if snd s \<le> 1 then Some (fst s) else srt_rounds cmpfcn (insize * 2) (fst s))"

definition HASH_SRT :: "('e \<Rightarrow> 'e \<Rightarrow> int) \<Rightarrow> 'e hash_head \<Rightarrow> 'e hash_head option" where
  "HASH_SRT cmpfcn head =
    (case head of
       None \<Rightarrow> Some None
     | Some tbl \<Rightarrow> map_option (\<lambda>l. Some (tbl\<lparr>app_list := l\<rparr>))
         (srt_rounds (\<lambda>p q. cmpfcn (hh_elt p) (hh_elt q)) 1 (app_list tbl)))"

subsection \<open>Insertion in order\<close>

fun inorder_place :: "('e \<Rightarrow> 'e \<Rightarrow> int) \<Rightarrow> 'e UT_hash_handle \<Rightarrow> 'e UT_hash_handle list \<Rightarrow> 'e UT_hash_handle list" where
  "inorder_place cmpfcn add [] = [add]"
| "inorder_place cmpfcn add (it # its) =
     (if cmpfcn (hh_elt it) (hh_elt add) > 0 then add # it # its else it # inorder_place cmpfcn add its)"

definition HASH_ADD_KEYPTR_BYHASHVALUE_INORDER ::
    "bool \<Rightarrow> ('e \<Rightarrow> 'e \<Rightarrow> int) \<Rightarrow> byte list \<Rightarrow> u32 \<Rightarrow> 'e \<Rightarrow> 'e hash_head \<Rightarrow> 'e hash_head result" where
  "HASH_ADD_KEYPTR_BYHASHVALUE_INORDER malloc_ok cmpfcn key hashval add head =
    (let hh = \<lparr>hh_elt = add, hh_key = key, hh_hashv = hashval\<rparr>
     in rbind (case head of
                 None \<Rightarrow> HASH_MAKE_TABLE malloc_ok hh
               | Some tbl \<Rightarrow> Inr (tbl\<lparr>app_list := inorder_place cmpfcn hh (app_list tbl)\<rparr>))
          (\<lambda>tbl. rbind (HASH_ADD_TO_TABLE malloc_ok hh tbl) (\<lambda>tbl'. Inr (Some tbl'))))"

definition HASH_ADD_INORDER :: "bool \<Rightarrow> ('e \<Rightarrow> 'e \<Rightarrow> int) \<Rightarrow> byte list \<Rightarrow> 'e \<Rightarrow> 'e hash_head \<Rightarrow> 'e hash_head result" where
  "HASH_ADD_INORDER malloc_ok cmpfcn key add head =
     HASH_ADD_KEYPTR_BYHASHVALUE_INORDER malloc_ok cmpfcn key (HASH_JEN key) add head"

subsection \<open>Replacement\<close>

definition HASH_REPLACE_BYHASHVALUE ::
    "bool \<Rightarrow> byte list \<Rightarrow> u32 \<Rightarrow> 'e \<Rightarrow> 'e hash_head \<Rightarrow> ('e option \<times> 'e hash_head) result" where
  "HASH_REPLACE_BYHASHVALUE malloc_ok key hashval add head =
     rbind (HASH_FIND_BYHASHVALUE head key hashval) (\<lambda>replaced.
     rbind (case replaced of None \<Rightarrow> Inr head | Some e \<Rightarrow> HASH_DEL e head) (\<lambda>head.
     rbind (HASH_ADD_KEYPTR_BYHASHVALUE malloc_ok key hashval add head) (\<lambda>head. Inr (replaced, head))))"

definition HASH_REPLACE :: "bool \<Rightarrow> byte list \<Rightarrow> 'e \<Rightarrow> 'e hash_head \<Rightarrow> ('e option \<times> 'e hash_head) result" where
  "HASH_REPLACE malloc_ok key add head = HASH_REPLACE_BYHASHVALUE malloc_ok key (HASH_JEN key) add head"

definition HASH_REPLACE_STR :: "bool \<Rightarrow> byte list \<Rightarrow> 'e \<Rightarrow> 'e hash_head \<Rightarrow> ('e option \<times> 'e hash_head) result" where
  "HASH_REPLACE_STR malloc_ok strfield add head =
     rbind (c_strlen strfield) (\<lambda>n. HASH_REPLACE malloc_ok (take n strfield) add head)"

definition HASH_REPLACE_BYHASHVALUE_INORDER ::
    "bool \<Rightarrow> ('e \<Rightarrow> 'e \<Rightarrow> int) \<Rightarrow> byte list \<Rightarrow> u32 \<Rightarrow> 'e \<Rightarrow> 'e hash_head \<Rightarrow> ('e option \<times> 'e hash_head) result" where
  "HASH_REPLACE_BYHASHVALUE_INORDER malloc_ok cmpfcn key hashval add head =
     rbind (HASH_FIND_BYHASHVALUE head key hashval) (\<lambda>replaced.
     rbind (case replaced of None \<Rightarrow> Inr head | Some e \<Rightarrow> HASH_DEL e head) (\<lambda>head.
     rbind (HASH_ADD_KEYPTR_BYHASHVALUE_INORDER malloc_ok cmpfcn key hashval add head) (\<lambda>head. Inr (replaced, head))))"

definition HASH_REPLACE_INORDER ::
    "bool \<Rightarrow> ('e \<Rightarrow> 'e \<Rightarrow> int) \<Rightarrow> byte list \<Rightarrow> 'e \<Rightarrow> 'e hash_head \<Rightarrow> ('e option \<times> 'e hash_head) result" where
  "HASH_REPLACE_INORDER malloc_ok cmpfcn key add head =
     HASH_REPLACE_BYHASHVALUE_INORDER malloc_ok cmpfcn key (HASH_JEN key) add head"

subsection \<open>The whole table\<close>

definition HASH_CLEAR :: "'e hash_head \<Rightarrow> 'e hash_head" where
  "HASH_CLEAR head = (case head of None \<Rightarrow> head | Some tbl \<Rightarrow> None)"

text \<open>
  The memory of the table, a \<open>size_t\<close>.  On the 64-bit hosts of the daemon a handle has 56 bytes, a bucket 16 and
  the table itself 64; \<open>HASH_BLOOM_BYTELEN\<close> is 0.
\<close>

definition HASH_OVERHEAD :: "'e hash_head \<Rightarrow> 64 word" where
  "HASH_OVERHEAD head =
    (case head of
       None \<Rightarrow> 0
     | Some tbl \<Rightarrow> ucast (num_items tbl) * 56 + ucast (num_buckets tbl) * 16 + 64 + 0)"

subsection \<open>The sort is the stable sort\<close>

text \<open>A comparison function that compares keys.\<close>

definition compares :: "('a \<Rightarrow> 'a \<Rightarrow> int) \<Rightarrow> ('a \<Rightarrow> 'k :: linorder) \<Rightarrow> bool" where
  "compares cmpfcn k \<longleftrightarrow> (\<forall>a b. cmpfcn a b \<le> 0 \<longleftrightarrow> k a \<le> k b)"

lemma srt_merge_parts: "srt_merge c ps qs n = (fst (srt_merge c ps (take n qs) n), drop n qs)"
proof (induction c ps qs n rule: srt_merge.induct [case_names none right left both])
  case (both c p ps q qs n)
  then show ?case by (cases n) (simp_all add: Let_def)
next
  case (right c q qs n)
  then show ?case by (cases n) (simp_all add: Let_def)
next
  case (left c p ps n)
  then show ?case by (simp add: Let_def) (metis snd_conv)
qed simp

lemma srt_merge_mset: "length qs \<le> n \<Longrightarrow> mset (fst (srt_merge c ps qs n)) = mset ps + mset qs"
  by (induction c ps qs n rule: srt_merge.induct) (auto simp: Let_def)

lemma srt_merge_set: "length qs \<le> n \<Longrightarrow> set (fst (srt_merge c ps qs n)) = set ps \<union> set qs"
  using srt_merge_mset [of qs n c ps] by (metis set_mset_mset set_mset_union)

lemma srt_merge_sorted:
  assumes "compares c k" and "length qs \<le> n" and "sorted (map k ps)" and "sorted (map k qs)"
  shows "sorted (map k (fst (srt_merge c ps qs n)))"
  using assms
proof (induction c ps qs n rule: srt_merge.induct [case_names none right left both])
  case (both c p ps q qs n)
  then show ?case by (auto simp: Let_def srt_merge_set compares_def)
qed (auto simp: Let_def srt_merge_set)

lemma srt_merge_stable:
  assumes "compares c k" and "length qs \<le> n" and "sorted (map k ps)"
  shows "filter (\<lambda>x. k x = a) (fst (srt_merge c ps qs n)) = filter (\<lambda>x. k x = a) (ps @ qs)"
  using assms
proof (induction c ps qs n rule: srt_merge.induct [case_names none right left both])
  case (both c p ps q qs n)
  have "filter (\<lambda>x. k x = a) (p # ps) = []" if "\<not> c p q \<le> 0" "k q = a"
    using that both.prems(1,3) by (auto simp: compares_def filter_empty_conv)
  with both show ?case by (auto simp: Let_def)
qed (auto simp: Let_def)

lemma srt_merge_sort_key:
  assumes "compares c k" and "sorted (map k (take n p))" and "sorted (map k (take n (drop n p)))"
  shows "srt_merge c (take n p) (drop n p) n = (sort_key k (take (2 * n) p), drop (2 * n) p)"
proof -
  let ?r = "fst (srt_merge c (take n p) (take n (drop n p)) n)"
  have t: "take (2 * n) p = take n p @ take n (drop n p)" by (simp add: mult_2 take_add)
  have l: "length (take n (drop n p)) \<le> n" by simp
  have "sort_key k (take (2 * n) p) = ?r"
  proof (rule properties_for_sort_key)
    show "mset ?r = mset (take (2 * n) p)" unfolding t by (simp add: srt_merge_mset)
    show "filter (\<lambda>x. k y = k x) ?r = filter (\<lambda>x. k y = k x) (take (2 * n) p)" for y
      using srt_merge_stable [OF assms(1) l assms(2), of "k y"] unfolding t by (simp add: eq_commute)
    show "sorted (map k ?r)" by (rule srt_merge_sorted [OF assms(1) l assms(2,3)])
  qed
  then show ?thesis by (subst srt_merge_parts) (simp add: mult_2)
qed

text \<open>The list after the runs of length \<open>n\<close> were sorted.\<close>

function chunk_sort :: "('a \<Rightarrow> 'k :: linorder) \<Rightarrow> nat \<Rightarrow> 'a list \<Rightarrow> 'a list" where
  "chunk_sort k n xs = (if n = 0 \<or> xs = [] then xs else sort_key k (take n xs) @ chunk_sort k n (drop n xs))"
  by pat_completeness auto
termination
  by (relation "measure (\<lambda>(k, n, xs). length xs)") auto

declare chunk_sort.simps [simp del]

lemma length_chunk_sort [simp]: "length (chunk_sort k n xs) = length xs"
  by (induction k n xs rule: chunk_sort.induct) (subst chunk_sort.simps, auto)

lemma chunk_sort_whole: "length xs \<le> n \<Longrightarrow> chunk_sort k n xs = sort_key k xs"
  by (cases xs) (simp_all add: chunk_sort.simps)

lemma chunk_sort_one: "chunk_sort k 1 xs = xs"
proof (induction xs)
  case (Cons x xs)
  then show ?case by (subst chunk_sort.simps) simp
qed (simp add: chunk_sort.simps)

lemma take_chunk_sort: "take n (chunk_sort k n xs) = sort_key k (take n xs)" "drop n (chunk_sort k n xs) = chunk_sort k n (drop n xs)"
proof -
  have "n = 0 \<or> xs = [] \<or> chunk_sort k n xs = sort_key k (take n xs) @ chunk_sort k n (drop n xs)" by (subst chunk_sort.simps) simp
  moreover have "chunk_sort k n [] = []" by (simp add: chunk_sort.simps)
  ultimately show "take n (chunk_sort k n xs) = sort_key k (take n xs)" "drop n (chunk_sort k n xs) = chunk_sort k n (drop n xs)"
    by (auto simp: chunk_sort.simps [of k 0] min_def)
qed

lemma sort_key_append: "sort_key k (sort_key k a @ sort_key k b) = sort_key k (a @ b)"
proof (rule properties_for_sort_key [symmetric, THEN sym])
  show "mset (sort_key k (a @ b)) = mset (sort_key k a @ sort_key k b)" by simp
  show "filter (\<lambda>x. k y = k x) (sort_key k (a @ b)) = filter (\<lambda>x. k y = k x) (sort_key k a @ sort_key k b)" for y
    using sort_key_stable [of k "k y"] by (simp add: eq_commute)
qed simp

lemma ceil_div_step:
  assumes "0 < m" and "0 < (l :: nat)"
  shows "(l + m - 1) div m = Suc ((l - m + m - 1) div m)"
proof -
  have "(l + m - 1) div m = Suc ((l - 1) div m)" using assms div_add_self2 [of m "l - 1"] by simp
  moreover have "(l - 1) div m = (l - m + m - 1) div m" using assms by (cases "m \<le> l") simp_all
  ultimately show ?thesis by simp
qed

text \<open>A pass merges the runs in pairs.\<close>

lemma srt_pass_chunks:
  assumes c: "compares c k" and n: "insize \<noteq> 0"
  shows "srt_pass c insize (chunk_sort k (unat insize) xs) =
    Some (chunk_sort k (2 * unat insize) xs, of_nat ((length xs + 2 * unat insize - 1) div (2 * unat insize)))"
proof (induction "length xs" arbitrary: xs rule: less_induct)
  case less
  let ?n = "unat insize"
  have n0: "0 < ?n" using n by (simp add: unat_gt_0)
  show ?case
  proof (cases "xs = []")
    case True
    then show ?thesis using n0 by (subst srt_pass.simps) (simp add: chunk_sort.simps)
  next
    case False
    let ?p = "chunk_sort k ?n xs"
    have p: "?p \<noteq> []" using False length_chunk_sort [of k ?n xs] by (metis length_0_conv)
    have "srt_merge c (take ?n ?p) (drop ?n ?p) ?n = (sort_key k (take (2 * ?n) ?p), drop (2 * ?n) ?p)"
      using c by (rule srt_merge_sort_key) (simp_all add: take_chunk_sort)
    moreover have "take (2 * ?n) ?p = sort_key k (take ?n xs) @ sort_key k (take ?n (drop ?n xs))"
      by (simp add: mult_2 take_add take_chunk_sort)
    then have "sort_key k (take (2 * ?n) ?p) = sort_key k (take (2 * ?n) xs)"
      by (simp add: sort_key_append mult_2 take_add)
    moreover have "drop (2 * ?n) ?p = chunk_sort k ?n (drop (2 * ?n) xs)"
      using take_chunk_sort(2) [of ?n k xs] take_chunk_sort(2) [of ?n k "drop ?n xs"] by (metis drop_drop mult_2)
    ultimately have m: "srt_merge c (take ?n ?p) (drop ?n ?p) ?n = (sort_key k (take (2 * ?n) xs), chunk_sort k ?n (drop (2 * ?n) xs))"
      by simp
    have l: "length (drop (2 * ?n) xs) < length xs" using False n0 by (cases xs) simp_all
    have d: "(length xs + 2 * ?n - 1) div (2 * ?n) = Suc ((length (drop (2 * ?n) xs) + 2 * ?n - 1) div (2 * ?n))"
      using ceil_div_step [of "2 * ?n" "length xs"] n0 False by simp
    have "chunk_sort k (2 * ?n) xs = sort_key k (take (2 * ?n) xs) @ chunk_sort k (2 * ?n) (drop (2 * ?n) xs)"
      using n0 False by (subst chunk_sort.simps) simp
    with less.hyps [OF l] p m d show ?thesis by (subst srt_pass.simps) (simp add: Let_def)
  qed
qed

lemma few_merges:
  assumes "l \<le> 4294967296" and "0 < (n :: nat)"
  shows "(of_nat ((l + 2 * n - 1) div (2 * n)) :: u32) \<le> 1 \<longleftrightarrow> l \<le> 2 * n"
proof -
  let ?m = "(l + 2 * n - 1) div (2 * n)"
  have "?m \<le> (l + 2 * n - 1) div 2" using assms(2) by (intro div_le_mono2) simp_all
  moreover have "?m < 4294967296"
  proof (cases "n < 2147483648")
    case True
    with assms(1) have "(l + 2 * n - 1) div 2 < 4294967296" by simp
    with \<open>?m \<le> _\<close> show ?thesis by simp
  next
    case False
    then have "l + 2 * n - 1 < 2 * (2 * n)" using assms by simp
    then have "?m < 2" by (simp add: less_mult_imp_div_less)
    then show ?thesis by simp
  qed
  then have "unat (of_nat ?m :: u32) = ?m" by (simp add: unsigned_of_nat take_bit_eq_mod)
  moreover have "?m \<le> 1 \<longleftrightarrow> l \<le> 2 * n"
  proof -
    have "?m \<le> 1 \<longleftrightarrow> ?m < 2" by linarith
    also have "\<dots> \<longleftrightarrow> l + 2 * n - 1 < 2 * (2 * n)" using assms(2) by (simp add: div_less_iff_less_mult)
    also have "\<dots> \<longleftrightarrow> l \<le> 2 * n" using assms(2) by auto
    finally show ?thesis .
  qed
  ultimately show ?thesis by (simp add: word_le_nat_alt)
qed

lemma srt_rounds_sorts:
  assumes c: "compares c k" and l: "length xs \<le> 4294967296" and "j < 32"
  shows "srt_rounds c (2 ^ j) (chunk_sort k (2 ^ j) xs) = Some (sort_key k xs)"
  using assms(3)
proof (induction "31 - j" arbitrary: j)
  case 0
  then have j: "j = 31" by simp
  have n: "unat (2 ^ j :: u32) = 2 ^ j" "(2 ^ j :: u32) \<noteq> 0" using unat_pow2_u32 [of j] j by auto
  have "length xs \<le> 2 * 2 ^ j" using l j by simp
  with srt_pass_chunks [OF c n(2), unfolded n(1), of xs] few_merges [OF l, of "2 ^ j"] show ?case
    by (subst srt_rounds.simps) (simp add: chunk_sort_whole)
next
  case (Suc d)
  have n: "unat (2 ^ j :: u32) = 2 ^ j" using unat_pow2_u32 [OF Suc.prems] .
  then have n0: "(2 ^ j :: u32) \<noteq> 0" by (metis power_not_zero unat_0 zero_neq_numeral)
  have e: "(2 ^ j * 2 :: u32) = 2 ^ Suc j" "(2 * 2 ^ j :: nat) = 2 ^ Suc j" by simp_all
  have ih: "srt_rounds c (2 ^ Suc j) (chunk_sort k (2 ^ Suc j) xs) = Some (sort_key k xs)"
    using Suc.hyps(2) by (intro Suc.hyps(1)) simp_all
  show ?case
    using srt_pass_chunks [OF c n0, unfolded n, of xs] few_merges [OF l, of "2 ^ j"] ih
    by (subst srt_rounds.simps) (auto simp: chunk_sort_whole e simp del: power_Suc)
qed


lemma compares_hh: "compares cmpfcn k \<Longrightarrow> compares (\<lambda>p q. cmpfcn (hh_elt p) (hh_elt q)) (\<lambda>h. k (hh_elt h))"
  by (simp add: compares_def)

lemma map_insort_key: "map f (insort_key (\<lambda>x. k (f x)) x xs) = insort_key k (f x) (map f xs)"
  by (induction xs) simp_all

lemma map_sort_key: "map f (sort_key (\<lambda>x. k (f x)) xs) = sort_key k (map f xs)"
  by (induction xs) (simp_all add: map_insort_key)

text \<open>The invariant does not depend on the order of the items.\<close>

lemma uthash_ok_permute:
  assumes "uthash_ok (Some t)" and ms: "mset l = mset (app_list t)"
  shows "uthash_ok (Some (t\<lparr>app_list := l\<rparr>))"
proof -
  have "set l = set (app_list t)" "length l = length (app_list t)"
    using ms by (metis set_mset_mset) (metis ms size_mset)
  with assms distinct_map_mset [OF ms, of hh_elt] show ?thesis
    by (auto simp: uthash_ok_def list_all_iff)
qed

lemma HASH_SRT_sorts:
  assumes "compares cmpfcn k" and "length (app_list t) \<le> 4294967296"
  shows "HASH_SRT cmpfcn (Some t) = Some (Some (t\<lparr>app_list := sort_key (\<lambda>h. k (hh_elt h)) (app_list t)\<rparr>))"
  using srt_rounds_sorts [OF compares_hh [OF assms(1)] assms(2), of 0] chunk_sort_one [of "\<lambda>h. k (hh_elt h)" "app_list t"]
  by (simp add: HASH_SRT_def)

text \<open>
  The merge sort returns for every table of up to \<open>2 ^ 32\<close> items (its 32-bit run length never wraps to zero,
  with which it would not end), and gives what the stable sort of the list gives: the items in the order of the
  comparison function, items that compare equal in their previous order.  The table stays well-formed, no item
  is lost or duplicated, and every lookup gives what it gave before.
\<close>

theorem hash_sort_stable:
  fixes k :: "'e \<Rightarrow> 'k :: linorder"
  assumes "uthash_ok head" and "compares cmpfcn k" and "length (HASH_ITER head) \<le> 4294967296"
  shows "\<exists>head'. HASH_SRT cmpfcn head = Some head' \<and> HASH_ITER head' = sort_key k (HASH_ITER head)
    \<and> uthash_ok head' \<and> HASH_FSCK head' \<and> mset (hash_items head') = mset (hash_items head)
    \<and> (\<forall>key. HASH_FIND key head' = HASH_FIND key head)"
proof (cases head)
  case None
  then show ?thesis by (simp add: HASH_SRT_def HASH_ITER_def uthash_ok_def HASH_FSCK_def)
next
  case (Some t)
  let ?l = "sort_key (\<lambda>h. k (hh_elt h)) (app_list t)"
  have r: "HASH_SRT cmpfcn head = Some (Some (t\<lparr>app_list := ?l\<rparr>))"
    using HASH_SRT_sorts [OF assms(2)] assms(3) by (simp add: Some HASH_ITER_def)
  have ok: "uthash_ok (Some (t\<lparr>app_list := ?l\<rparr>))"
    using assms(1) Some by (intro uthash_ok_permute) simp_all
  have find: "HASH_FIND key (Some (t\<lparr>app_list := ?l\<rparr>)) = HASH_FIND key head" for key
    by (simp add: Some HASH_FIND_def HASH_FIND_BYHASHVALUE_def Let_def)
  have "HASH_ITER (Some (t\<lparr>app_list := ?l\<rparr>)) = sort_key k (HASH_ITER head)"
    by (simp add: Some HASH_ITER_def map_sort_key)
  moreover have "mset (hash_items (Some (t\<lparr>app_list := ?l\<rparr>))) = mset (hash_items head)"
    by (simp add: Some hash_items_def)
  ultimately show ?thesis
    using r ok table_fsck [OF ok] find by - (rule exI [of _ "Some (t\<lparr>app_list := ?l\<rparr>)"], blast)
qed


text \<open>A small table for the witnesses.\<close>

lemma first_add_room:
  assumes "HASH_ADD True k e None = Inr h"
  shows "hash_room h"
  using assms
  by (auto simp: HASH_ADD_def HASH_ADD_KEYPTR_BYHASHVALUE_def HASH_MAKE_TABLE_def HASH_ADD_TO_TABLE_def
      HASH_ADD_TO_BKT_def HASH_INITIAL_NUM_BUCKETS_def HASH_INITIAL_NUM_BUCKETS_LOG2_def result_simps
      HASH_BKT_CAPACITY_THRESH_def Let_def empty_bucket_def word_le_nat_alt hash_room_def split: if_splits)

lemma one_item: "\<exists>h. HASH_ADD True k e None = Inr h \<and> uthash_ok h \<and> hash_room h \<and> hash_items h = [(k, e)]"
proof -
  have ok: "uthash_ok (None :: 'a hash_head)" "hash_room (None :: 'a hash_head)"
    by (simp_all add: uthash_ok_def hash_room_def)
  from ut.add_total [OF ok] obtain h where h: "HASH_ADD True k e None = Inr h" by blast
  with ut.add_Inr [OF ok(1) _ h] first_add_room [OF h] show ?thesis by (simp add: hash_items_def)
qed

theorem hash_sort_stable_witness:
  "\<exists>h1 h h'. HASH_ADD True [97] (7 :: nat) None = Inr h1 \<and> HASH_ADD True [98] 3 h1 = Inr h
     \<and> HASH_ITER h = [7, 3] \<and> HASH_SRT (\<lambda>a b. int a - int b) h = Some h' \<and> HASH_ITER h' = [3, 7]"
proof -
  from one_item [of "[97]" 7] obtain h1 where h1: "HASH_ADD True [97] (7 :: nat) None = Inr h1"
    "uthash_ok h1" "hash_room h1" "hash_items h1 = [([97], 7)]" by blast
  from ut.add_total [OF h1(2,3)] obtain h where h: "HASH_ADD True [98] 3 h1 = Inr h" by blast
  from ut.add_Inr [OF h1(2) _ h] h1(4) have ok: "uthash_ok h" "HASH_ITER h = [7, 3]"
    by (simp_all add: HASH_ITER_items)
  have "compares (\<lambda>a b. int a - int b) (\<lambda>n. n)" by (simp add: compares_def)
  from hash_sort_stable [OF ok(1) this] ok(2) obtain h' where
    "HASH_SRT (\<lambda>a b. int a - int b) h = Some h'" "HASH_ITER h' = [3, 7]" by auto
  with h1(1) h ok(2) show ?thesis by blast
qed

subsection \<open>Insertion in order keeps the order\<close>

lemma inorder_place_mset: "mset (inorder_place c a l) = add_mset a (mset l)"
  by (induction l) auto

lemma inorder_place_sort:
  assumes "compares c k" and "sorted (map (\<lambda>h. k (hh_elt h)) l)"
  shows "inorder_place c a l = sort_key (\<lambda>h. k (hh_elt h)) (l @ [a])"
proof (rule properties_for_sort_key [symmetric])
  let ?k = "\<lambda>h. k (hh_elt h)"
  have le: "(0 < c (hh_elt x) (hh_elt y)) = (k (hh_elt y) < k (hh_elt x))" for x y
    using assms(1) by (auto simp: compares_def not_le [symmetric])
  show "mset (inorder_place c a l) = mset (l @ [a])" by (simp add: inorder_place_mset)
  have "set (inorder_place c a m) = insert a (set m)" for m
    using inorder_place_mset [of c a m] by (metis set_mset_mset set_mset_add_mset_insert)
  with assms(2) show "sorted (map ?k (inorder_place c a l))" by (induction l) (auto simp: le)
  show "filter (\<lambda>x. ?k y = ?k x) (inorder_place c a l) = filter (\<lambda>x. ?k y = ?k x) (l @ [a])" for y
    using assms(2)
  proof (induction l)
    case (Cons h l)
    then have "filter (\<lambda>x. ?k a = ?k x) l = []" if "?k a < ?k h"
      using that by (auto simp: filter_empty_conv)
    with Cons show ?case by (auto simp: le)
  qed simp
qed

text \<open>Storing the item in its bucket does not look at the order of the items.\<close>

lemma HASH_EXPAND_BUCKETS_app_list:
  "HASH_EXPAND_BUCKETS m (u\<lparr>app_list := l\<rparr>) = map_sum id (\<lambda>t. t\<lparr>app_list := l\<rparr>) (HASH_EXPAND_BUCKETS m u)"
  by (cases "rfold (expand_place (num_buckets u * 2) (drop_bit (unat (log2_num_buckets u + 1)) (num_items u)
        + (if num_items u AND (num_buckets u * 2 - 1) \<noteq> 0 then 1 else 0))) (concat (map bkt_chain (buckets u)))
        (replicate (2 * unat (num_buckets u)) empty_bucket, 0)")
    (auto simp: HASH_EXPAND_BUCKETS_def Let_def)

lemma HASH_ADD_TO_TABLE_app_list:
  "HASH_ADD_TO_TABLE m hh (t\<lparr>app_list := l\<rparr>) = map_sum id (\<lambda>t. t\<lparr>app_list := l\<rparr>) (HASH_ADD_TO_TABLE m hh t)"
proof -
  have "HASH_EXPAND_BUCKETS m (t\<lparr>app_list := l, num_items := n, buckets := b\<rparr>) =
      map_sum id (\<lambda>t. t\<lparr>app_list := l\<rparr>) (HASH_EXPAND_BUCKETS m (t\<lparr>num_items := n, buckets := b\<rparr>))" for n b
  proof -
    have "t\<lparr>app_list := l, num_items := n, buckets := b\<rparr> = t\<lparr>num_items := n, buckets := b, app_list := l\<rparr>" by simp
    then show ?thesis by (simp only: HASH_EXPAND_BUCKETS_app_list)
  qed
  then show ?thesis by (simp add: HASH_ADD_TO_TABLE_def HASH_ADD_TO_BKT_def Let_def)
qed

lemma HASH_ADD_INORDER_eq:
  "HASH_ADD_INORDER m cmpfcn key e (Some t) =
     map_sum id (map_option (\<lambda>t'. t'\<lparr>app_list := inorder_place cmpfcn \<lparr>hh_elt = e, hh_key = key, hh_hashv = HASH_JEN key\<rparr> (app_list t)\<rparr>))
       (HASH_ADD m key e (Some t))"
  by (simp add: HASH_ADD_INORDER_def HASH_ADD_KEYPTR_BYHASHVALUE_INORDER_def HASH_ADD_def
      HASH_ADD_KEYPTR_BYHASHVALUE_def HASH_ADD_TO_TABLE_app_list Let_def)
    (cases "HASH_ADD_TO_TABLE m \<lparr>hh_elt = e, hh_key = key, hh_hashv = HASH_JEN key\<rparr> t"; simp)


lemma hash_add_inorder_sorted_aux:
  fixes k :: "'e \<Rightarrow> 'k :: linorder"
  assumes ok: "uthash_ok head" and room: "hash_room head" and e: "e \<notin> snd ` set (hash_items head)"
    and c: "compares cmpfcn k" and s: "sorted (map k (HASH_ITER head))"
  shows "\<exists>head'. HASH_ADD_INORDER True cmpfcn key e head = Inr head' \<and> uthash_ok head' \<and> HASH_FSCK head'
    \<and> HASH_ITER head' = sort_key k (HASH_ITER head @ [e])
    \<and> mset (hash_items head') = mset (hash_items head) + {#(key, e)#}"
proof -
  from ut.add_total [OF ok room] obtain h where h: "HASH_ADD True key e head = Inr h" by blast
  from ut.add_Inr [OF ok e h] have h': "uthash_ok h" "hash_items h = hash_items head @ [(key, e)]" by auto
  show ?thesis
  proof (cases head)
    case None
    have "HASH_ADD_INORDER True cmpfcn key e head = Inr h"
      using h by (simp add: None HASH_ADD_INORDER_def HASH_ADD_KEYPTR_BYHASHVALUE_INORDER_def HASH_ADD_def
          HASH_ADD_KEYPTR_BYHASHVALUE_def)
    with h' table_fsck [OF h'(1)] show ?thesis by (simp add: HASH_ITER_items None hash_items_def)
  next
    case (Some t)
    let ?hh = "\<lparr>hh_elt = e, hh_key = key, hh_hashv = HASH_JEN key\<rparr>"
    let ?l = "inorder_place cmpfcn ?hh (app_list t)"
    from h'(2) obtain u where u: "h = Some u" by (cases h) (auto simp: hash_items_def)
    have al: "app_list u = app_list t @ [?hh]"
    proof -
      from h u obtain v where "HASH_ADD_TO_TABLE True ?hh (t\<lparr>app_list := app_list t @ [?hh]\<rparr>) = Inr v" "u = v"
        by (auto simp: Some HASH_ADD_def HASH_ADD_KEYPTR_BYHASHVALUE_def Let_def result_simps)
      then show ?thesis unfolding HASH_ADD_TO_TABLE_app_list
        by (cases "HASH_ADD_TO_TABLE True ?hh t") auto
    qed
    have m: "mset ?l = mset (app_list u)" by (simp add: al inorder_place_mset)
    have r: "HASH_ADD_INORDER True cmpfcn key e head = Inr (Some (u\<lparr>app_list := ?l\<rparr>))"
      using h by (simp add: Some HASH_ADD_INORDER_eq u)
    have ok': "uthash_ok (Some (u\<lparr>app_list := ?l\<rparr>))"
      using uthash_ok_permute [OF _ m] h'(1) u by simp
    have "sorted (map (\<lambda>h. k (hh_elt h)) (app_list t))"
      using s by (simp add: Some HASH_ITER_def comp_def)
    then have "?l = sort_key (\<lambda>h. k (hh_elt h)) (app_list t @ [?hh])"
      by (rule inorder_place_sort [OF c])
    then have "HASH_ITER (Some (u\<lparr>app_list := ?l\<rparr>)) = sort_key k (HASH_ITER head @ [e])"
      by (simp add: HASH_ITER_def Some map_sort_key)
    moreover have "mset (hash_items (Some (u\<lparr>app_list := ?l\<rparr>))) = mset (hash_items head) + {#(key, e)#}"
      by (simp add: hash_items_def Some inorder_place_mset)
    ultimately show ?thesis using r ok' table_fsck [OF ok'] by blast
  qed
qed

text \<open>
  Insertion in order into a table whose items are in the order of the comparison function puts the new
  element behind all that do not compare greater, so that the iteration order is the stable sort of the old
  order followed by the new element.  It succeeds whenever a plain insertion does, and the table is well-formed
  and holds the old items and the new one.
\<close>

theorem hash_add_inorder_sorted:
  fixes k :: "'e \<Rightarrow> 'k :: linorder"
  assumes ok: "uthash_ok head" and room: "hash_room head" and e: "e \<notin> snd ` set (hash_items head)"
    and c: "compares cmpfcn k" and s: "sorted (map k (HASH_ITER head))"
  shows "\<exists>head'. HASH_ADD_INORDER True cmpfcn key e head = Inr head' \<and> uthash_ok head' \<and> HASH_FSCK head'
    \<and> HASH_ITER head' = sort_key k (HASH_ITER head @ [e])
    \<and> mset (hash_items head') = mset (hash_items head) + {#(key, e)#}"
  using assms by (rule hash_add_inorder_sorted_aux)

theorem hash_add_inorder_sorted_witness:
  "\<exists>h h'. HASH_ADD True [97] (7 :: nat) None = Inr h
     \<and> HASH_ADD_INORDER True (\<lambda>a b. int a - int b) [98] 3 h = Inr h' \<and> HASH_ITER h' = [3, 7]"
proof -
  from one_item [of "[97]" 7] obtain h where h: "HASH_ADD True [97] (7 :: nat) None = Inr h"
    "uthash_ok h" "hash_room h" "hash_items h = [([97], 7)]" by blast
  have "compares (\<lambda>a b. int a - int b) (\<lambda>n. n)" by (simp add: compares_def)
  from hash_add_inorder_sorted [OF h(2,3) _ this, of 3 "[98]"] h(1,4) show ?thesis
    by (auto simp: HASH_ITER_items)
qed

subsection \<open>Replacement\<close>

lemma HASH_DEL_room: "HASH_DEL e h = Inr h' \<Longrightarrow> hash_room h \<Longrightarrow> hash_room h'"
  by (auto simp: HASH_DEL_def HASH_DEL_IN_BKT_def Let_def result_simps hash_room_def split: option.splits if_splits)

text \<open>The first half of a replacement removes the item with the key.\<close>

lemma replace_removes:
  assumes ok: "uthash_ok head" and room: "hash_room head" and d: "distinct (map fst (hash_items head))"
  shows "\<exists>h. (case map_of (hash_items head) key of None \<Rightarrow> Inr head | Some x \<Rightarrow> HASH_DEL x head) = Inr h
    \<and> uthash_ok h \<and> hash_room h \<and> hash_items h = filter (\<lambda>p. fst p \<noteq> key) (hash_items head)"
proof (cases "map_of (hash_items head) key")
  case None
  then have "filter (\<lambda>p. fst p \<noteq> key) (hash_items head) = hash_items head"
    by (force simp: map_of_eq_None_iff filter_id_conv)
  with None ok room show ?thesis by simp
next
  case (Some x)
  then have x: "(key, x) \<in> set (hash_items head)" by (rule map_of_SomeD)
  from ut.del_correct [OF ok x] obtain h where h: "HASH_DEL x head = Inr h" "uthash_ok h"
    "hash_items h = filter (\<lambda>p. snd p \<noteq> x) (hash_items head)" by blast
  have "snd p \<noteq> x \<longleftrightarrow> fst p \<noteq> key" if "p \<in> set (hash_items head)" for p
  proof -
    have "inj_on fst (set (hash_items head))" "inj_on snd (set (hash_items head))"
      using d ut.elts_distinct [OF ok] by (simp_all add: distinct_map)
    from inj_onD [OF this(1) _ that x] inj_onD [OF this(2) _ that x] show ?thesis by (metis fst_conv snd_conv)
  qed
  then have "hash_items h = filter (\<lambda>p. fst p \<noteq> key) (hash_items head)" using h(3) by (simp cong: filter_cong)
  with Some h HASH_DEL_room [OF h(1) room] show ?thesis by simp
qed

text \<open>
  Replacement in a table with distinct keys returns the element that had the key, or NULL when there was
  none; afterwards the new element is found under the key, every other key is found as before, and exactly the
  replaced item has left the table.
\<close>

theorem hash_replace_swaps:
  assumes ok: "uthash_ok head" and room: "hash_room head" and e: "e \<notin> snd ` set (hash_items head)"
    and d: "distinct (map fst (hash_items head))"
  shows "\<exists>head'. HASH_REPLACE True key e head = Inr (map_of (hash_items head) key, head')
    \<and> uthash_ok head' \<and> HASH_FSCK head'
    \<and> hash_items head' = filter (\<lambda>p. fst p \<noteq> key) (hash_items head) @ [(key, e)]
    \<and> HASH_FIND key head' = Inr (Some e)
    \<and> (\<forall>key'. key' \<noteq> key \<longrightarrow> HASH_FIND key' head' = HASH_FIND key' head)"
proof -
  let ?r = "map_of (hash_items head) key"
  have find: "HASH_FIND_BYHASHVALUE head key (HASH_JEN key) = Inr ?r"
    using ut.look_map_of [OF ok d, of key] by (simp add: HASH_FIND_def)
  from replace_removes [OF ok room d, of key] obtain h where
    h: "(case ?r of None \<Rightarrow> Inr head | Some x \<Rightarrow> HASH_DEL x head) = Inr h" "uthash_ok h"
    "hash_room h" "hash_items h = filter (\<lambda>p. fst p \<noteq> key) (hash_items head)" by blast
  from ut.add_total [OF h(2,3)] obtain h' where h': "HASH_ADD True key e h = Inr h'" by blast
  have eh: "e \<notin> snd ` set (hash_items h)" using e h(4) by auto
  have dh: "distinct (map fst (hash_items h))" using d h(4) by (simp add: distinct_map_filter)
  have "key \<notin> fst ` set (hash_items h)" using h(4) by auto
  then have look: "HASH_FIND key' h' = (if key' = key then Inr (Some e) else HASH_FIND key' h)" for key'
    by (rule ut.look_after_add [OF h(2) eh dh _ h'])
  have rest: "HASH_FIND key' h = HASH_FIND key' head" if "key' \<noteq> key" for key'
  proof -
    have "map_of (filter (\<lambda>p. fst p \<noteq> key) l) key' = map_of l key'" for l :: "(byte list \<times> 'a) list"
      using that by (induction l) auto
    then show ?thesis
      using ut.look_map_of [OF ok d, of key'] ut.look_map_of [OF h(2) dh, of key'] h(4) by simp
  qed
  have "HASH_REPLACE True key e head = Inr (?r, h')"
    using find h(1) h' by (simp add: HASH_REPLACE_def HASH_REPLACE_BYHASHVALUE_def HASH_ADD_def)
  with ut.add_Inr [OF h(2) eh h'] table_fsck [of h'] look rest h(4) show ?thesis by simp
qed

theorem hash_replace_swaps_witness:
  "\<exists>h h'. HASH_ADD True [97] (7 :: nat) None = Inr h \<and> HASH_REPLACE True [97] 3 h = Inr (Some 7, h')
     \<and> hash_items h' = [([97], 3)] \<and> HASH_FIND [97] h' = Inr (Some 3)"
proof -
  from one_item [of "[97]" 7] obtain h where h: "HASH_ADD True [97] (7 :: nat) None = Inr h"
    "uthash_ok h" "hash_room h" "hash_items h = [([97], 7)]" by blast
  from hash_replace_swaps [OF h(2,3), of 3 "[97]"] h(1,4) show ?thesis by auto
qed


text \<open>Replacement in order keeps the order of the comparison function.\<close>

lemma hash_replace_inorder_sorted:
  fixes k :: "'e \<Rightarrow> 'k :: linorder"
  assumes ok: "uthash_ok head" and room: "hash_room head" and e: "e \<notin> snd ` set (hash_items head)"
    and d: "distinct (map fst (hash_items head))"
    and c: "compares cmpfcn k" and s: "sorted (map k (HASH_ITER head))"
  shows "\<exists>head'. HASH_REPLACE_INORDER True cmpfcn key e head = Inr (map_of (hash_items head) key, head')
    \<and> uthash_ok head' \<and> sorted (map k (HASH_ITER head'))
    \<and> mset (hash_items head') = mset (filter (\<lambda>p. fst p \<noteq> key) (hash_items head)) + {#(key, e)#}"
proof -
  let ?r = "map_of (hash_items head) key"
  have find: "HASH_FIND_BYHASHVALUE head key (HASH_JEN key) = Inr ?r"
    using ut.look_map_of [OF ok d, of key] by (simp add: HASH_FIND_def)
  from replace_removes [OF ok room d, of key] obtain h where
    h: "(case ?r of None \<Rightarrow> Inr head | Some x \<Rightarrow> HASH_DEL x head) = Inr h" "uthash_ok h"
    "hash_room h" "hash_items h = filter (\<lambda>p. fst p \<noteq> key) (hash_items head)" by blast
  have eh: "e \<notin> snd ` set (hash_items h)" using e h(4) by auto
  have "sorted (map k (HASH_ITER h))"
    using sorted_filter [of "\<lambda>p. k (snd p)" "hash_items head"] s h(4) by (simp add: HASH_ITER_items comp_def)
  from hash_add_inorder_sorted_aux [OF h(2,3) eh c this] obtain h' where
    "HASH_ADD_INORDER True cmpfcn key e h = Inr h'" "uthash_ok h'"
    "HASH_ITER h' = sort_key k (HASH_ITER h @ [e])" "mset (hash_items h') = mset (hash_items h) + {#(key, e)#}" by blast
  with find h(1,4) show ?thesis
    by (simp add: HASH_REPLACE_INORDER_def HASH_REPLACE_BYHASHVALUE_INORDER_def HASH_ADD_INORDER_def)
qed

text \<open>The memory of a table is computed without wrapping around.\<close>

lemma hash_overhead_exact:
  "unat (HASH_OVERHEAD (Some t)) = 56 * unat (num_items t) + 16 * unat (num_buckets t) + 64"
proof -
  have "unat (num_items t) < 4294967296" "unat (num_buckets t) < 4294967296"
    using unsigned_less [of "num_items t"] unsigned_less [of "num_buckets t"] by simp_all
  moreover have "HASH_OVERHEAD (Some t) = of_nat (56 * unat (num_items t) + 16 * unat (num_buckets t) + 64)"
    by (simp add: HASH_OVERHEAD_def of_nat_unat)
  ultimately show ?thesis by (simp only: unsigned_of_nat take_bit_eq_mod) simp
qed

end
