(* ===== verification/Double_Links.thy ===== *)
theory Double_Links
  imports C_Prelude
begin

text \<open>
  Doubly linked lists in a memory where every link field is a function from elements to elements.  \<open>dseg\<close> is a linked
  segment, \<open>chains\<close> a family of separate lists; the lemmas say what putting an element in front and taking an element
  out do to them.
\<close>

subsection \<open>Doubly linked segments\<close>

text \<open>
  The elements \<open>xs\<close> linked from \<open>p\<close> on: \<open>b\<close> is before the first and \<open>q\<close> after the last; \<open>e\<close> is the last element, or
  \<open>b\<close> when there is none.
\<close>

fun dseg :: "('e \<Rightarrow> 'e option) \<Rightarrow> ('e \<Rightarrow> 'e option) \<Rightarrow> 'e option \<Rightarrow> 'e option \<Rightarrow> 'e list \<Rightarrow> 'e option \<Rightarrow> 'e option \<Rightarrow> bool" where
  "dseg nx pv b p [] e q = (p = q \<and> e = b)"
| "dseg nx pv b p (x # xs) e q = (p = Some x \<and> pv x = b \<and> dseg nx pv (Some x) (nx x) xs e q)"

lemma dseg_append:
  "dseg nx pv b p (xs @ ys) e q \<longleftrightarrow> (\<exists>e' q'. dseg nx pv b p xs e' q' \<and> dseg nx pv e' q' ys e q)"
  by (induction xs arbitrary: b p) auto

lemma dseg_frame:
  "(\<And>x. x \<in> set xs \<Longrightarrow> nx' x = nx x \<and> pv' x = pv x) \<Longrightarrow> dseg nx' pv' b p xs e q = dseg nx pv b p xs e q"
  by (induction xs arbitrary: b p) auto

lemma dseg_last: "dseg nx pv b p xs e q \<Longrightarrow> e = (if xs = [] then b else Some (last xs))"
  by (induction xs arbitrary: b p) auto

lemma dseg_first: "dseg nx pv b p xs e q \<Longrightarrow> p = (case xs of [] \<Rightarrow> q | x # _ \<Rightarrow> Some x)"
  by (cases xs) auto

lemma dseg_set_next:
  "dseg nx pv b p xs e q \<Longrightarrow> distinct xs \<Longrightarrow> xs \<noteq> [] \<Longrightarrow> dseg (nx(last xs := q')) pv b p xs e q'"
proof (induction xs arbitrary: b p)
  case (Cons x xs)
  then show ?case by (cases "xs = []") auto
qed simp

lemma dseg_set_prev:
  "dseg nx pv b p xs e q \<Longrightarrow> distinct xs \<Longrightarrow> xs \<noteq> [] \<Longrightarrow> dseg nx (pv(hd xs := b')) b' p xs e q"
  by (cases xs) (auto elim!: back_subst [of "\<lambda>x. x", OF _ dseg_frame [symmetric]])

text \<open>The links of an element lead to elements of its list.\<close>

lemma dseg_neighbours:
  assumes "dseg nx pv None p xs e None" and "x \<in> set xs"
  shows "set_option (nx x) \<union> set_option (pv x) \<subseteq> set xs"
proof -
  from assms(2) obtain us vs where xs: "xs = us @ x # vs" by (auto simp: in_set_conv_decomp)
  with assms(1) obtain e' q' where d: "dseg nx pv None p us e' q'" "pv x = e'" "dseg nx pv (Some x) (nx x) vs e None"
    by (auto simp: dseg_append)
  then have "pv x = (if us = [] then None else Some (last us))" "nx x = (case vs of [] \<Rightarrow> None | y # _ \<Rightarrow> Some y)"
    using dseg_last dseg_first by blast+
  then show ?thesis by (auto simp: xs split: if_splits list.splits)
qed

text \<open>Taking an element out, as deletion does for both kinds of lists.\<close>

lemma dseg_unlink:
  assumes d: "dseg nx pv None p (us @ x # vs) e None" and "distinct (us @ x # vs)"
  shows "dseg (case pv x of None \<Rightarrow> nx | Some y \<Rightarrow> nx(y := nx x))
              (case nx x of None \<Rightarrow> pv | Some y \<Rightarrow> pv(y := pv x)) None
              (case pv x of None \<Rightarrow> nx x | Some _ \<Rightarrow> p) (us @ vs)
              (case nx x of None \<Rightarrow> pv x | Some _ \<Rightarrow> e) None"
proof -
  let ?nx = "case pv x of None \<Rightarrow> nx | Some y \<Rightarrow> nx(y := nx x)"
  let ?pv = "case nx x of None \<Rightarrow> pv | Some y \<Rightarrow> pv(y := pv x)"
  from d obtain b where u: "dseg nx pv None p us b (Some x)" and b: "pv x = b"
    and v: "dseg nx pv (Some x) (nx x) vs e None" by (auto simp: dseg_append)
  have pvx: "pv x = (if us = [] then None else Some (last us))" using dseg_last [OF u] b by simp
  have nxx: "nx x = (case vs of [] \<Rightarrow> None | y # _ \<Rightarrow> Some y)" using dseg_first [OF v] .
  have "dseg ?nx ?pv None (case pv x of None \<Rightarrow> nx x | Some _ \<Rightarrow> p) us (pv x) (nx x)"
  proof (cases "us = []")
    case False
    have "dseg (nx(last us := nx x)) pv None p us b (nx x)" using u assms(2) False by (intro dseg_set_next) auto
    moreover have "dseg ?nx ?pv None p us b (nx x) = dseg (nx(last us := nx x)) pv None p us b (nx x)"
      using assms(2) False pvx nxx by (intro dseg_frame) (auto split: list.splits)
    ultimately show ?thesis using False pvx b by simp
  qed (use pvx in simp)
  moreover have "dseg ?nx ?pv (pv x) (nx x) vs (case nx x of None \<Rightarrow> pv x | Some _ \<Rightarrow> e) None"
  proof (cases vs)
    case (Cons y ys)
    have "dseg nx (pv(hd vs := pv x)) (pv x) (nx x) vs e None" using v assms(2) Cons by (intro dseg_set_prev) auto
    moreover have "dseg ?nx ?pv (pv x) (nx x) vs e None = dseg nx (pv(hd vs := pv x)) (pv x) (nx x) vs e None"
    proof (rule dseg_frame)
      fix z
      assume "z \<in> set vs"
      then have "z \<noteq> last us" if "us \<noteq> []" using assms(2) that by (metis distinct_append disjoint_iff last_in_set list.set_intros(2))
      with pvx nxx Cons show "?nx z = nx z \<and> ?pv z = (pv(hd vs := pv x)) z" by auto
    qed
    ultimately show ?thesis using Cons nxx by simp
  qed (use nxx in simp)
  ultimately show ?thesis by (auto simp: dseg_append)
qed

subsection \<open>Families of chains\<close>

text \<open>The heads \<open>hs\<close> of the chains \<open>xss\<close>, which share no element.\<close>

definition apart :: "'e list list \<Rightarrow> bool" where
  "apart xss \<longleftrightarrow> (\<forall>i < length xss. distinct (xss ! i)
     \<and> (\<forall>j < length xss. j \<noteq> i \<longrightarrow> set (xss ! i) \<inter> set (xss ! j) = {}))"

definition chains :: "('e \<Rightarrow> 'e option) \<Rightarrow> ('e \<Rightarrow> 'e option) \<Rightarrow> 'e option list \<Rightarrow> 'e list list \<Rightarrow> bool" where
  "chains nx pv hs xss \<longleftrightarrow> list_all2 (\<lambda>p xs. \<exists>e. dseg nx pv None p xs e None) hs xss"

lemma chains_nth: "chains nx pv hs xss \<Longrightarrow> i < length xss \<Longrightarrow> \<exists>e. dseg nx pv None (hs ! i) (xss ! i) e None"
  by (auto simp: chains_def list_all2_conv_all_nth)

lemma chains_frame:
  assumes "\<And>x. x \<in> set (concat xss) \<Longrightarrow> nx' x = nx x \<and> pv' x = pv x"
  shows "chains nx' pv' hs xss = chains nx pv hs xss"
proof -
  have "dseg nx' pv' None p xs e None = dseg nx pv None p xs e None" if "xs \<in> set xss" for p xs e
    using assms that by (intro dseg_frame) auto
  then show ?thesis unfolding chains_def list_all2_conv_all_nth by auto
qed

lemma chains_length: "chains nx pv hs xss \<Longrightarrow> length hs = length xss"
  by (auto simp: chains_def list_all2_conv_all_nth)

lemma apart_concat: "distinct (concat xss) \<Longrightarrow> apart xss"
proof (induction xss)
  case (Cons xs xss)
  show ?case unfolding apart_def
  proof (intro allI impI conjI)
    fix i j
    assume i: "i < length (xs # xss)"
    show "distinct ((xs # xss) ! i)" using Cons i by (cases i) (auto simp: apart_def)
    assume j: "j < length (xs # xss)" "j \<noteq> i"
    have "set xs \<inter> set (xss ! n) = {}" if "n < length xss" for n
      using Cons.prems that nth_mem by fastforce
    with Cons i j show "set ((xs # xss) ! i) \<inter> set ((xs # xss) ! j) = {}"
      by (cases i; cases j) (auto simp: apart_def)
  qed
qed (simp add: apart_def)

lemma apart_update:
  assumes "apart xss" and "i < length xss" and "distinct ys"
    and "\<And>j. j < length xss \<Longrightarrow> j \<noteq> i \<Longrightarrow> set ys \<inter> set (xss ! j) = {}"
  shows "apart (xss[i := ys])"
  using assms by (auto simp: apart_def nth_list_update)

lemma chains_update:
  assumes c: "chains nx pv hs xss" and s: "dseg nx' pv' None p ys e None"
    and f: "\<And>j x. j < length xss \<Longrightarrow> j \<noteq> i \<Longrightarrow> x \<in> set (xss ! j) \<Longrightarrow> nx' x = nx x \<and> pv' x = pv x"
  shows "chains nx' pv' (hs[i := p]) (xss[i := ys])"
  unfolding chains_def
proof (rule list_all2_all_nthI)
  show "length (hs[i := p]) = length (xss[i := ys])" using chains_length [OF c] by simp
  fix j
  assume j: "j < length (hs[i := p])"
  then have l: "j < length xss" using chains_length [OF c] by simp
  show "\<exists>e. dseg nx' pv' None (hs[i := p] ! j) (xss[i := ys] ! j) e None"
  proof (cases "j = i")
    case True
    then show ?thesis using s j l by auto
  next
    case False
    from chains_nth [OF c l] obtain e' where "dseg nx pv None (hs ! j) (xss ! j) e' None" by blast
    then have "dseg nx' pv' None (hs ! j) (xss ! j) e' None"
      using dseg_frame [of "xss ! j" nx' nx pv' pv] f [OF l False] by blast
    with False show ?thesis by auto
  qed
qed

text \<open>Putting a new element before a chain.\<close>

lemma chains_push:
  assumes c: "chains nx pv hs xss" and a: "apart xss" and i: "i < length xss" and x: "x \<notin> set (concat xss)"
  shows "chains (nx(x := hs ! i)) (case hs ! i of None \<Rightarrow> pv(x := None) | Some y \<Rightarrow> pv(x := None, y := Some x))
    (hs[i := Some x]) (xss[i := x # xss ! i])" (is "chains ?nx ?pv _ _") and "apart (xss[i := x # xss ! i])"
proof -
  have xj: "x \<notin> set (xss ! j)" if "j < length xss" for j using x that nth_mem by force
  from chains_nth [OF c i] obtain e where e: "dseg nx pv None (hs ! i) (xss ! i) e None" by blast
  have h: "hs ! i = (case xss ! i of [] \<Rightarrow> None | y # _ \<Rightarrow> Some y)" using dseg_first [OF e] .
  have "\<exists>e'. dseg ?nx ?pv (Some x) (hs ! i) (xss ! i) e' None"
  proof (cases "xss ! i")
    case (Cons y ys)
    have "dseg nx (pv(hd (xss ! i) := Some x)) (Some x) (hs ! i) (xss ! i) e None"
      using e a i Cons by (intro dseg_set_prev) (auto simp: apart_def)
    moreover have "dseg ?nx ?pv (Some x) (hs ! i) (xss ! i) e None
        = dseg nx (pv(hd (xss ! i) := Some x)) (Some x) (hs ! i) (xss ! i) e None"
      using xj [OF i] h Cons by (intro dseg_frame) auto
    ultimately show ?thesis by blast
  qed (use h in simp)
  then obtain e' where "dseg ?nx ?pv (Some x) (hs ! i) (xss ! i) e' None" by blast
  then have s: "dseg ?nx ?pv None (Some x) (x # xss ! i) e' None"
    using xj [OF i] h by (auto split: list.splits)
  show "chains ?nx ?pv (hs[i := Some x]) (xss[i := x # xss ! i])"
  proof (rule chains_update [OF c s])
    fix j z
    assume j: "j < length xss" "j \<noteq> i" and z: "z \<in> set (xss ! j)"
    have "set (xss ! i) \<inter> set (xss ! j) = {}" using a i j by (auto simp: apart_def)
    then show "?nx z = nx z \<and> ?pv z = pv z" using xj [OF j(1)] z h by (auto split: list.splits)
  qed
  show "apart (xss[i := x # xss ! i])"
    using a i xj by (intro apart_update) (auto simp: apart_def)
qed

lemma filter_neq_middle: "distinct (us @ x # vs) \<Longrightarrow> filter (\<lambda>y. y \<noteq> x) (us @ x # vs) = us @ vs"
  by (induction us) (auto simp: filter_id_conv)

text \<open>Taking an element out of a chain.\<close>

lemma chains_unlink:
  assumes c: "chains nx pv hs xss" and a: "apart xss" and i: "i < length xss" and x: "x \<in> set (xss ! i)"
  shows "chains (case pv x of None \<Rightarrow> nx | Some y \<Rightarrow> nx(y := nx x))
      (case nx x of None \<Rightarrow> pv | Some y \<Rightarrow> pv(y := pv x))
      (hs[i := case pv x of None \<Rightarrow> nx x | Some _ \<Rightarrow> hs ! i]) (xss[i := filter (\<lambda>y. y \<noteq> x) (xss ! i)])"
    (is "chains ?nx ?pv _ _") and "hs ! i = Some x \<longleftrightarrow> pv x = None"
proof -
  from chains_nth [OF c i] obtain e where e: "dseg nx pv None (hs ! i) (xss ! i) e None" by blast
  from split_list [OF x] obtain us vs where uv: "xss ! i = us @ x # vs" by blast
  have "distinct (xss ! i)" using a i by (simp add: apart_def)
  then have d: "distinct (us @ x # vs)" by (simp only: uv)
  then have f: "filter (\<lambda>y. y \<noteq> x) (xss ! i) = us @ vs" unfolding uv by (rule filter_neq_middle)
  from e uv have b: "dseg nx pv None (hs ! i) us (pv x) (Some x)" "dseg nx pv (Some x) (nx x) vs e None"
    by (auto simp: dseg_append)
  have pvx: "pv x = (if us = [] then None else Some (last us))" using dseg_last [OF b(1)] .
  have nxx: "nx x = (case vs of [] \<Rightarrow> None | y # _ \<Rightarrow> Some y)" using dseg_first [OF b(2)] .
  show "hs ! i = Some x \<longleftrightarrow> pv x = None" using dseg_first [OF b(1)] d pvx by (auto split: list.splits)
  show "chains ?nx ?pv (hs[i := case pv x of None \<Rightarrow> nx x | Some _ \<Rightarrow> hs ! i]) (xss[i := filter (\<lambda>y. y \<noteq> x) (xss ! i)])"
    unfolding f
  proof (rule chains_update [OF c dseg_unlink [OF e [unfolded uv] d]])
    fix j z
    assume j: "j < length xss" "j \<noteq> i" and z: "z \<in> set (xss ! j)"
    have "set (xss ! i) \<inter> set (xss ! j) = {}" using a i j by (auto simp: apart_def)
    then have "z \<notin> set us" "z \<notin> set vs" using z unfolding uv by auto
    then show "?nx z = nx z \<and> ?pv z = pv z"
      using pvx nxx last_in_set [of us] by (cases "us = []") (auto split: list.splits)
  qed
qed

end
