(* ===== verification/Uthash_Links.thy ===== *)
theory Uthash_Links
  imports Uthash_Order Double_Links
begin

text \<open>
  The links of \<open>uthash.h\<close>: the table with the pointers the header keeps, where \<open>Uthash\<close> has lists.  The fields of the
  handles are one function each from the element a handle is embedded in (\<open>ELMT_FROM_HH\<close> and \<open>HH_FROM_ELMT\<close> are
  inverse to each other, so an element stands for its handle); \<open>None\<close> is NULL.  A loop that follows links is a partial
  function, whose value \<open>None\<close> means that it does not return.

  The relation \<open>linked\<close> says that such a memory holds a table of \<open>Uthash\<close>; the refinement theorems show that every
  operation on the links returns and gives a memory that holds what the operation on lists gives.
\<close>

subsection \<open>Memory\<close>

record 'e bucket_links =
  bl_head :: "'e option"
  bl_count :: u32
  bl_expand_mult :: u32

record 'e mem =
  m_key :: "'e \<Rightarrow> byte list"
  m_hashv :: "'e \<Rightarrow> u32"
  m_prev :: "'e \<Rightarrow> 'e option"
  m_next :: "'e \<Rightarrow> 'e option"
  m_hh_prev :: "'e \<Rightarrow> 'e option"
  m_hh_next :: "'e \<Rightarrow> 'e option"
  m_head :: "'e option"
  m_tail :: "'e option"
  m_buckets :: "'e bucket_links list"
  m_num_buckets :: u32
  m_log2_num_buckets :: u32
  m_num_items :: u32
  m_ideal_chain_maxlen :: u32
  m_nonideal_items :: u32
  m_ineff_expands :: u32
  m_noexpand :: u32

text \<open>Sequencing of steps that may fail or not return.\<close>

fun obind :: "'a result option \<Rightarrow> ('a \<Rightarrow> 'b result option) \<Rightarrow> 'b result option" where
  "obind None f = None"
| "obind (Some (Inl e)) f = Some (Inl e)"
| "obind (Some (Inr x)) f = f x"

subsection \<open>Buckets\<close>

text \<open>The statements that put a handle before the first one, \<open>first\<close>, of a bucket.\<close>

definition link_in_bkt :: "'e \<Rightarrow> 'e option \<Rightarrow> 'e mem \<Rightarrow> 'e mem" where
  "link_in_bkt add first m =
     m\<lparr>m_hh_next := (m_hh_next m)(add := first),
       m_hh_prev := (case first of
                       None \<Rightarrow> (m_hh_prev m)(add := None)
                     | Some y \<Rightarrow> (m_hh_prev m)(add := None, y := Some add))\<rparr>"

text \<open>One handle of the redistribution loop, then the loop along a chain and the loop over the buckets.\<close>

definition expand_handle ::
    "u32 \<Rightarrow> u32 \<Rightarrow> 'e \<Rightarrow> 'e mem \<times> 'e bucket_links list \<times> u32 \<Rightarrow> ('e mem \<times> 'e bucket_links list \<times> u32) result" where
  "expand_handle num2 ideal thh st =
    (let m = fst st; new_buckets = fst (snd st); nonideal = snd (snd st);
         bkt = unat (HASH_TO_BKT (m_hashv m thh) num2)
     in if bkt < length new_buckets
        then let newbkt = new_buckets ! bkt;
                 cnt = bl_count newbkt + 1;
                 over = ideal < cnt;
                 mult = (if over \<and> bl_expand_mult newbkt * ideal < cnt
                         then bl_expand_mult newbkt + 1 else bl_expand_mult newbkt)
             in Inr (link_in_bkt thh (bl_head newbkt) m,
                     new_buckets[bkt := \<lparr>bl_head = Some thh, bl_count = cnt, bl_expand_mult = mult\<rparr>],
                     if over then nonideal + 1 else nonideal)
        else Inl OobWrite)"

partial_function (option) expand_chain ::
    "u32 \<Rightarrow> u32 \<Rightarrow> 'e option \<Rightarrow> 'e mem \<times> 'e bucket_links list \<times> u32
      \<Rightarrow> ('e mem \<times> 'e bucket_links list \<times> u32) result option" where
  "expand_chain num2 ideal thh st =
    (case thh of
       None \<Rightarrow> Some (Inr st)
     | Some x \<Rightarrow> (let hh_nxt = m_hh_next (fst st) x
                  in case expand_handle num2 ideal x st of
                       Inl e \<Rightarrow> Some (Inl e)
                     | Inr st' \<Rightarrow> expand_chain num2 ideal hh_nxt st'))"

fun expand_all ::
    "u32 \<Rightarrow> u32 \<Rightarrow> 'e bucket_links list \<Rightarrow> 'e mem \<times> 'e bucket_links list \<times> u32
      \<Rightarrow> ('e mem \<times> 'e bucket_links list \<times> u32) result option" where
  "expand_all num2 ideal [] st = Some (Inr st)"
| "expand_all num2 ideal (b # bs) st = obind (expand_chain num2 ideal (bl_head b) st) (expand_all num2 ideal bs)"

definition expand_buckets_links :: "bool \<Rightarrow> 'e mem \<Rightarrow> 'e mem result option" where
  "expand_buckets_links malloc_ok m =
    (if \<not> malloc_ok then Some (Inl Exit)
     else if 32 \<le> m_log2_num_buckets m + 1 then Some (Inl BadShift)
     else if length (m_buckets m) < unat (m_num_buckets m) then Some (Inl OobRead)
     else
       let num2 = m_num_buckets m * 2;
           ideal = drop_bit (unat (m_log2_num_buckets m + 1)) (m_num_items m)
                   + (if m_num_items m AND (num2 - 1) \<noteq> 0 then 1 else 0)
       in obind (expand_all num2 ideal (take (unat (m_num_buckets m)) (m_buckets m))
                   (m, replicate (2 * unat (m_num_buckets m)) \<lparr>bl_head = None, bl_count = 0, bl_expand_mult = 0\<rparr>, 0))
            (\<lambda>st.
              let m' = fst st; nonideal = snd (snd st);
                  ineff = (if drop_bit 1 (m_num_items m') < nonideal then m_ineff_expands m' + 1 else 0)
              in Some (Inr (m'\<lparr>m_ideal_chain_maxlen := ideal, m_nonideal_items := nonideal,
                          m_num_buckets := num2, m_log2_num_buckets := m_log2_num_buckets m' + 1,
                          m_buckets := fst (snd st), m_ineff_expands := ineff,
                          m_noexpand := (if 1 < ineff then 1 else m_noexpand m')\<rparr>))))"

definition add_to_bkt_links :: "bool \<Rightarrow> nat \<Rightarrow> 'e \<Rightarrow> 'e mem \<Rightarrow> 'e mem result option" where
  "add_to_bkt_links malloc_ok bkt add m =
    (if bkt < length (m_buckets m)
     then let head = m_buckets m ! bkt;
              head' = head\<lparr>bl_count := bl_count head + 1, bl_head := Some add\<rparr>;
              m' = (link_in_bkt add (bl_head head) m)\<lparr>m_buckets := (m_buckets m)[bkt := head']\<rparr>
          in if (bl_expand_mult head' + 1) * HASH_BKT_CAPACITY_THRESH \<le> bl_count head' \<and> m_noexpand m' = 0
             then expand_buckets_links malloc_ok m'
             else Some (Inr m')
     else Some (Inl OobWrite))"

definition del_in_bkt_links :: "nat \<Rightarrow> 'e \<Rightarrow> 'e mem \<Rightarrow> 'e mem result" where
  "del_in_bkt_links bkt del m =
    (if bkt < length (m_buckets m)
     then let head = m_buckets m ! bkt;
              head' = head\<lparr>bl_count := bl_count head - 1,
                           bl_head := (if bl_head head = Some del then m_hh_next m del else bl_head head)\<rparr>
          in Inr (m\<lparr>m_buckets := (m_buckets m)[bkt := head'],
                    m_hh_next := (case m_hh_prev m del of
                                    None \<Rightarrow> m_hh_next m
                                  | Some y \<Rightarrow> (m_hh_next m)(y := m_hh_next m del)),
                    m_hh_prev := (case m_hh_next m del of
                                    None \<Rightarrow> m_hh_prev m
                                  | Some y \<Rightarrow> (m_hh_prev m)(y := m_hh_prev m del))\<rparr>)
     else Inl OobWrite)"

partial_function (option) find_in_bkt_links ::
    "'e mem \<Rightarrow> 'e option \<Rightarrow> byte list \<Rightarrow> u32 \<Rightarrow> 'e option option" where
  "find_in_bkt_links m out key hashval =
    (case out of
       None \<Rightarrow> Some None
     | Some x \<Rightarrow>
         if m_hashv m x = hashval \<and> length (m_key m x) = length key \<and> m_key m x = key then Some (Some x)
         else find_in_bkt_links m (m_hh_next m x) key hashval)"

subsection \<open>Operations\<close>

definition find_links :: "byte list \<Rightarrow> 'e mem \<Rightarrow> 'e option result option" where
  "find_links key m =
    (case m_head m of
       None \<Rightarrow> Some (Inr None)
     | Some _ \<Rightarrow>
         (let bkt = unat (HASH_TO_BKT (HASH_JEN key) (m_num_buckets m))
          in if bkt < length (m_buckets m)
             then map_option Inr (find_in_bkt_links m (bl_head (m_buckets m ! bkt)) key (HASH_JEN key))
             else Some (Inl OobRead)))"

definition make_table_links :: "bool \<Rightarrow> 'e \<Rightarrow> 'e mem \<Rightarrow> 'e mem result" where
  "make_table_links malloc_ok add m =
    (if malloc_ok
     then Inr (m\<lparr>m_tail := Some add,
                 m_buckets := replicate (unat HASH_INITIAL_NUM_BUCKETS) \<lparr>bl_head = None, bl_count = 0, bl_expand_mult = 0\<rparr>,
                 m_num_buckets := HASH_INITIAL_NUM_BUCKETS,
                 m_log2_num_buckets := HASH_INITIAL_NUM_BUCKETS_LOG2,
                 m_num_items := 0, m_ideal_chain_maxlen := 0, m_nonideal_items := 0,
                 m_ineff_expands := 0, m_noexpand := 0\<rparr>)
     else Inl Exit)"

definition append_list_links :: "'e \<Rightarrow> 'e mem \<Rightarrow> 'e mem result" where
  "append_list_links add m =
    (case m_tail m of
       None \<Rightarrow> Inl NullDeref
     | Some z \<Rightarrow> Inr (m\<lparr>m_next := (m_next m)(add := None, z := Some add),
                          m_prev := (m_prev m)(add := Some z), m_tail := Some add\<rparr>))"

definition add_to_table_links :: "bool \<Rightarrow> u32 \<Rightarrow> 'e \<Rightarrow> 'e mem \<Rightarrow> 'e mem result option" where
  "add_to_table_links malloc_ok hashval add m =
    (let m' = m\<lparr>m_num_items := m_num_items m + 1\<rparr>
     in add_to_bkt_links malloc_ok (unat (HASH_TO_BKT hashval (m_num_buckets m'))) add m')"

definition set_key_links :: "byte list \<Rightarrow> u32 \<Rightarrow> 'e \<Rightarrow> 'e mem \<Rightarrow> 'e mem" where
  "set_key_links key hashval add m = m\<lparr>m_hashv := (m_hashv m)(add := hashval), m_key := (m_key m)(add := key)\<rparr>"

definition first_links :: "bool \<Rightarrow> 'e \<Rightarrow> 'e mem \<Rightarrow> 'e mem result" where
  "first_links malloc_ok add m =
     rbind (make_table_links malloc_ok add (m\<lparr>m_next := (m_next m)(add := None), m_prev := (m_prev m)(add := None)\<rparr>))
       (\<lambda>m. Inr (m\<lparr>m_head := Some add\<rparr>))"

definition add_links :: "bool \<Rightarrow> byte list \<Rightarrow> 'e \<Rightarrow> 'e mem \<Rightarrow> 'e mem result option" where
  "add_links malloc_ok key add m =
    (let m = set_key_links key (HASH_JEN key) add m
     in obind (Some (case m_head m of None \<Rightarrow> first_links malloc_ok add m | Some _ \<Rightarrow> append_list_links add m))
          (add_to_table_links malloc_ok (HASH_JEN key) add))"

text \<open>The statements that take a handle out of the application-order list.\<close>

definition unlink_app_links :: "'e \<Rightarrow> 'e mem \<Rightarrow> 'e mem" where
  "unlink_app_links del m =
    (let m = (if m_tail m = Some del then m\<lparr>m_tail := m_prev m del\<rparr> else m);
         m = (case m_prev m del of
                Some y \<Rightarrow> m\<lparr>m_next := (m_next m)(y := m_next m del)\<rparr>
              | None \<Rightarrow> m\<lparr>m_head := m_next m del\<rparr>)
     in case m_next m del of
          Some y \<Rightarrow> m\<lparr>m_prev := (m_prev m)(y := m_prev m del)\<rparr>
        | None \<Rightarrow> m)"

definition delete_links :: "'e \<Rightarrow> 'e mem \<Rightarrow> 'e mem result" where
  "delete_links del m =
    (if m_head m = None then Inl NullDeref
     else if m_prev m del = None \<and> m_next m del = None then Inr (m\<lparr>m_head := None\<rparr>)
     else
       let m = unlink_app_links del m
       in rbind (del_in_bkt_links (unat (HASH_TO_BKT (m_hashv m del) (m_num_buckets m))) del m)
            (\<lambda>m. Inr (m\<lparr>m_num_items := m_num_items m - 1\<rparr>)))"

text \<open>
  The elements themselves are allocated and freed by the program around the table, so a loop over the table needs to
  know which of them are freed.  An access to a freed element is the fault \<open>UseAfterFree\<close>, and \<open>free\<close> leaves
  arbitrary values, those of \<open>junk\<close>, in the handle.
\<close>

record 'e heap =
  h_mem :: "'e mem"
  h_freed :: "'e set"

definition free_element :: "'e mem \<Rightarrow> 'e \<Rightarrow> ('e, 'z) heap_scheme \<Rightarrow> ('e, 'z) heap_scheme result" where
  "free_element junk x h =
    (if x \<in> h_freed h then Inl UseAfterFree
     else let m = h_mem h
          in Inr (h\<lparr>h_freed := insert x (h_freed h),
                     h_mem := m\<lparr>m_key := (m_key m)(x := m_key junk x), m_hashv := (m_hashv m)(x := m_hashv junk x),
                                m_prev := (m_prev m)(x := m_prev junk x), m_next := (m_next m)(x := m_next junk x),
                                m_hh_prev := (m_hh_prev m)(x := m_hh_prev junk x),
                                m_hh_next := (m_hh_next m)(x := m_hh_next junk x)\<rparr>\<rparr>))"

text \<open>The elements whose handles \<open>HASH_DELETE_HH\<close> accesses: the head, the deleted one and its neighbours.\<close>

definition delete_touches :: "'e \<Rightarrow> 'e mem \<Rightarrow> 'e set" where
  "delete_touches del m = insert del (\<Union> (set_option ` {m_head m, m_prev m del, m_next m del, m_hh_prev m del, m_hh_next m del}))"

definition delete_in_heap :: "'e \<Rightarrow> ('e, 'z) heap_scheme \<Rightarrow> ('e, 'z) heap_scheme result" where
  "delete_in_heap del h =
    (if delete_touches del (h_mem h) \<inter> h_freed h \<noteq> {} then Inl UseAfterFree
     else rbind (delete_links del (h_mem h)) (\<lambda>m. Inr (h\<lparr>h_mem := m\<rparr>)))"

definition next_in_heap :: "('e, 'z) heap_scheme \<Rightarrow> 'e option \<Rightarrow> 'e option result" where
  "next_in_heap h p =
    (case p of None \<Rightarrow> Inr None
     | Some x \<Rightarrow> if x \<in> h_freed h then Inl UseAfterFree else Inr (m_next (h_mem h) x))"

text \<open>The loop of \<open>HASH_ITER\<close> around a body: \<open>el\<close> is the current element, \<open>tmp\<close> the one after it.\<close>

partial_function (option) iter_links ::
    "('e \<Rightarrow> ('e, 'z) heap_scheme \<Rightarrow> ('e, 'z) heap_scheme result) \<Rightarrow> 'e option \<Rightarrow> 'e option \<Rightarrow> ('e, 'z) heap_scheme
      \<Rightarrow> ('e, 'z) heap_scheme result option" where
  "iter_links body el tmp h =
    (case el of
       None \<Rightarrow> Some (Inr h)
     | Some x \<Rightarrow>
         (case rbind (body x h) (\<lambda>h. rbind (next_in_heap h tmp) (\<lambda>p. Inr (p, h))) of
            Inl e \<Rightarrow> Some (Inl e)
          | Inr s \<Rightarrow> iter_links body tmp (fst s) (snd s)))"

definition HASH_ITER_links ::
    "('e \<Rightarrow> ('e, 'z) heap_scheme \<Rightarrow> ('e, 'z) heap_scheme result) \<Rightarrow> ('e, 'z) heap_scheme \<Rightarrow> ('e, 'z) heap_scheme result option" where
  "HASH_ITER_links body h = obind (Some (next_in_heap h (m_head (h_mem h)))) (\<lambda>tmp. iter_links body (m_head (h_mem h)) tmp h)"

text \<open>
  The body of a clean-up loop, which also records its elements: it looks at the current element and, when \<open>P\<close> holds
  of it, takes it out of the table and frees it.
\<close>

record 'e visit = "'e heap" +
  h_visited :: "'e list"

definition clean_up :: "('e \<Rightarrow> bool) \<Rightarrow> 'e mem \<Rightarrow> 'e \<Rightarrow> 'e visit \<Rightarrow> 'e visit result" where
  "clean_up P junk x h =
    (if x \<in> h_freed h then Inl UseAfterFree
     else let h = h\<lparr>h_visited := h_visited h @ [x]\<rparr>
          in if P x then rbind (delete_in_heap x h) (free_element junk x) else Inr h)"


subsection \<open>Memories that hold a table\<close>

definition elts :: "'e UT_hash_bucket \<Rightarrow> 'e list" where
  "elts b = map hh_elt (bkt_chain b)"

definition linked_bkts ::
    "('e \<Rightarrow> 'e option) \<Rightarrow> ('e \<Rightarrow> 'e option) \<Rightarrow> 'e bucket_links list \<Rightarrow> 'e UT_hash_bucket list \<Rightarrow> bool" where
  "linked_bkts nx pv bls bs \<longleftrightarrow>
     list_all2 (\<lambda>l b. bl_count l = bkt_count b \<and> bl_expand_mult l = expand_mult b) bls bs
     \<and> chains nx pv (map bl_head bls) (map elts bs)"

definition linked_table :: "'e mem \<Rightarrow> 'e UT_hash_table \<Rightarrow> bool" where
  "linked_table m t \<longleftrightarrow>
     dseg (m_next m) (m_prev m) None (m_head m) (map hh_elt (app_list t)) (m_tail m) None
     \<and> list_all (\<lambda>h. m_key m (hh_elt h) = hh_key h \<and> m_hashv m (hh_elt h) = hh_hashv h) (app_list t)
     \<and> linked_bkts (m_hh_next m) (m_hh_prev m) (m_buckets m) (buckets t)
     \<and> m_num_buckets m = num_buckets t \<and> m_log2_num_buckets m = log2_num_buckets t
     \<and> m_num_items m = num_items t \<and> m_ideal_chain_maxlen m = ideal_chain_maxlen t
     \<and> m_nonideal_items m = nonideal_items t \<and> m_ineff_expands m = ineff_expands t
     \<and> m_noexpand m = noexpand t"

definition linked :: "'e mem \<Rightarrow> 'e hash_head \<Rightarrow> bool" where
  "linked m head = (case head of None \<Rightarrow> m_head m = None | Some t \<Rightarrow> linked_table m t)"

lemma linked_bkts_length: "linked_bkts nx pv bls bs \<Longrightarrow> length bls = length bs"
  by (auto simp: linked_bkts_def list_all2_lengthD)

lemma linked_bkts_nth:
  assumes "linked_bkts nx pv bls bs" and "i < length bs"
  shows "bl_count (bls ! i) = bkt_count (bs ! i)" "bl_expand_mult (bls ! i) = expand_mult (bs ! i)"
    "\<exists>e. dseg nx pv None (bl_head (bls ! i)) (elts (bs ! i)) e None"
  using assms linked_bkts_length [OF assms(1)] chains_nth [of nx pv "map bl_head bls" "map elts bs" i]
  by (auto simp: linked_bkts_def list_all2_conv_all_nth)

lemma linked_bkts_push:
  fixes c k :: u32
  assumes l: "linked_bkts (m_hh_next m) (m_hh_prev m) bls bs" and a: "apart (map elts bs)" and i: "i < length bs"
    and x: "hh_elt h \<notin> set (concat (map elts bs))"
  defines "m' \<equiv> link_in_bkt (hh_elt h) (bl_head (bls ! i)) m"
    and "bs' \<equiv> bs[i := \<lparr>bkt_chain = h # bkt_chain (bs ! i), bkt_count = c, expand_mult = k\<rparr>]"
  shows "linked_bkts (m_hh_next m') (m_hh_prev m') (bls[i := \<lparr>bl_head = Some (hh_elt h), bl_count = c, bl_expand_mult = k\<rparr>]) bs'"
    and "apart (map elts bs')" and "set (concat (map elts bs')) = insert (hh_elt h) (set (concat (map elts bs)))"
proof -
  have ch: "chains (m_hh_next m) (m_hh_prev m) (map bl_head bls) (map elts bs)" using l by (simp add: linked_bkts_def)
  have ln: "length bls = length bs" using linked_bkts_length [OF l] .
  have e: "map elts bs' = (map elts bs)[i := hh_elt h # map elts bs ! i]"
    using i by (simp add: bs'_def map_update elts_def)
  have n: "map bl_head bls ! i = bl_head (bls ! i)" using i ln by simp
  note p = chains_push [OF ch a _ x, of i]
  from p(2) i show "apart (map elts bs')" by (simp add: e)
  from p(1) i have "chains (m_hh_next m') (m_hh_prev m') ((map bl_head bls)[i := Some (hh_elt h)]) (map elts bs')"
    by (simp add: e n m'_def link_in_bkt_def)
  moreover have "list_all2 (\<lambda>l b. bl_count l = bkt_count b \<and> bl_expand_mult l = expand_mult b)
      (bls[i := \<lparr>bl_head = Some (hh_elt h), bl_count = c, bl_expand_mult = k\<rparr>]) bs'"
    using l unfolding bs'_def linked_bkts_def by (intro list_all2_update_cong) auto
  ultimately show "linked_bkts (m_hh_next m') (m_hh_prev m')
      (bls[i := \<lparr>bl_head = Some (hh_elt h), bl_count = c, bl_expand_mult = k\<rparr>]) bs'"
    by (simp add: linked_bkts_def map_update)
  have "mset (concat (map elts bs')) = add_mset (hh_elt h) (mset (concat (map elts bs)))"
    unfolding bs'_def using i by (intro mset_concat_update_Cons) (simp_all add: elts_def)
  then show "set (concat (map elts bs')) = insert (hh_elt h) (set (concat (map elts bs)))"
    by (metis set_mset_add_mset_insert set_mset_mset)
qed


subsection \<open>Redistribution\<close>

text \<open>Following a link field from \<open>p\<close> visits \<open>xs\<close>.\<close>

fun npath :: "('e \<Rightarrow> 'e option) \<Rightarrow> 'e option \<Rightarrow> 'e list \<Rightarrow> bool" where
  "npath nx p [] = (p = None)"
| "npath nx p (x # xs) = (p = Some x \<and> npath nx (nx x) xs)"

lemma dseg_npath: "dseg nx pv b p xs e None \<Longrightarrow> npath nx p xs"
  by (induction xs arbitrary: b p) auto

lemma npath_frame: "(\<And>x. x \<in> set xs \<Longrightarrow> nx' x = nx x) \<Longrightarrow> npath nx' p xs = npath nx p xs"
  by (induction xs arbitrary: p) auto

text \<open>What a redistribution step may change: the links within the buckets, of the elements \<open>A\<close> only for \<open>hh_next\<close>.\<close>

definition relinked :: "'e set \<Rightarrow> 'e mem \<Rightarrow> 'e mem \<Rightarrow> bool" where
  "relinked A m m' \<longleftrightarrow> m' = m\<lparr>m_hh_next := m_hh_next m', m_hh_prev := m_hh_prev m'\<rparr>
     \<and> (\<forall>x. x \<notin> A \<longrightarrow> m_hh_next m' x = m_hh_next m x)"

lemma relinked_link_in_bkt: "relinked {x} m (link_in_bkt x p m)"
  by (simp add: relinked_def link_in_bkt_def)

lemma relinked_refl: "relinked {} m m"
  by (simp add: relinked_def)

lemma relinked_trans: "relinked A m m' \<Longrightarrow> relinked B m' m'' \<Longrightarrow> relinked (A \<union> B) m m''"
  unfolding relinked_def by (cases m; cases m'; cases m'') auto

lemma relinked_next: "relinked A m m' \<Longrightarrow> x \<notin> A \<Longrightarrow> m_hh_next m' x = m_hh_next m x"
  by (simp add: relinked_def)

lemma relinked_fields:
  assumes "relinked A m m'"
  shows "m_key m' = m_key m" "m_hashv m' = m_hashv m" "m_next m' = m_next m" "m_prev m' = m_prev m"
    "m_head m' = m_head m" "m_tail m' = m_tail m" "m_buckets m' = m_buckets m" "m_num_buckets m' = m_num_buckets m"
    "m_log2_num_buckets m' = m_log2_num_buckets m" "m_num_items m' = m_num_items m" "m_ineff_expands m' = m_ineff_expands m"
    "m_noexpand m' = m_noexpand m"
  using assms unfolding relinked_def by (cases m; cases m'; simp)+

text \<open>The new buckets of a redistribution in progress, on the links and on lists.\<close>

definition redist :: "'e mem \<times> 'e bucket_links list \<times> u32 \<Rightarrow> 'e UT_hash_bucket list \<times> u32 \<Rightarrow> bool" where
  "redist st st' \<longleftrightarrow>
     linked_bkts (m_hh_next (fst st)) (m_hh_prev (fst st)) (fst (snd st)) (fst st') \<and> apart (map elts (fst st'))
     \<and> snd (snd st) = snd st'"

definition placed :: "'e UT_hash_bucket list \<times> u32 \<Rightarrow> 'e set" where
  "placed st = set (concat (map elts (fst st)))"

lemma expand_handle_refines:
  assumes r: "redist st st'" and h: "hh_elt h \<notin> placed st'" and v: "m_hashv (fst st) (hh_elt h) = hh_hashv h"
  shows "case expand_place num2 ideal h st' of
      Inl e \<Rightarrow> expand_handle num2 ideal (hh_elt h) st = Inl e
    | Inr s' \<Rightarrow> (\<exists>s. expand_handle num2 ideal (hh_elt h) st = Inr s \<and> redist s s'
        \<and> relinked {hh_elt h} (fst st) (fst s) \<and> placed s' = insert (hh_elt h) (placed st'))"
proof -
  obtain m nb n where st: "st = (m, nb, n)" by (cases st)
  obtain bs where st': "st' = (bs, n)" using r by (cases st') (auto simp: redist_def st)
  have l: "linked_bkts (m_hh_next m) (m_hh_prev m) nb bs" and a: "apart (map elts bs)"
    using r by (simp_all add: redist_def st st')
  let ?i = "unat (HASH_TO_BKT (hh_hashv h) num2)"
  show ?thesis
  proof (cases "?i < length bs")
    case False
    then show ?thesis
      using linked_bkts_length [OF l] v by (simp add: st st' expand_place_def expand_handle_def Let_def)
  next
    case True
    note c = linked_bkts_nth(1,2) [OF l True]
    have x: "hh_elt h \<notin> set (concat (map elts bs))" using h by (simp add: placed_def st')
    note p = linked_bkts_push [OF l a True x]
    show ?thesis
      using True linked_bkts_length [OF l] v p relinked_link_in_bkt [of "hh_elt h" m "bl_head (nb ! ?i)"]
      by (simp add: st st' expand_place_def expand_handle_def Let_def c redist_def placed_def)
  qed
qed


text \<open>A loop on the links simulates a loop on lists when both fail alike or both end in related states.\<close>

definition simulates ::
    "('e mem \<times> 'e bucket_links list \<times> u32) result option \<Rightarrow> ('e UT_hash_bucket list \<times> u32) result
      \<Rightarrow> 'e set \<Rightarrow> 'e mem \<Rightarrow> 'e set \<Rightarrow> bool" where
  "simulates r r' A m P \<longleftrightarrow>
    (case r' of
       Inl e \<Rightarrow> r = Some (Inl e)
     | Inr s' \<Rightarrow> (\<exists>s. r = Some (Inr s) \<and> redist s s' \<and> relinked A m (fst s) \<and> placed s' = P \<union> A))"

lemma expand_chain_refines:
  assumes "npath (m_hh_next (fst st)) p (map hh_elt l)" and "redist st st'"
    and "distinct (map hh_elt l)" and "hh_elt ` set l \<inter> placed st' = {}"
    and "\<And>h. h \<in> set l \<Longrightarrow> m_hashv (fst st) (hh_elt h) = hh_hashv h"
  shows "simulates (expand_chain num2 ideal p st) (rfold (expand_place num2 ideal) l st') (hh_elt ` set l) (fst st) (placed st')"
  using assms
proof (induction l arbitrary: p st st')
  case Nil
  then show ?case by (subst expand_chain.simps) (simp add: simulates_def relinked_refl)
next
  case (Cons h l)
  let ?x = "hh_elt h"
  from Cons.prems(1) have p: "p = Some ?x" and np: "npath (m_hh_next (fst st)) (m_hh_next (fst st) ?x) (map hh_elt l)" by auto
  have fresh: "?x \<notin> placed st'" using Cons.prems(4) by auto
  note step = expand_handle_refines [OF Cons.prems(2) fresh, of num2 ideal]
  show ?case
  proof (cases "expand_place num2 ideal h st'")
    case (Inl e)
    with step Cons.prems(5) [of h] show ?thesis
      by (subst expand_chain.simps) (simp add: p simulates_def)
  next
    case (Inr s')
    with step Cons.prems(5) [of h] obtain s where s: "expand_handle num2 ideal ?x st = Inr s" "redist s s'"
      "relinked {?x} (fst st) (fst s)" "placed s' = insert ?x (placed st')" by auto
    have xl: "?x \<notin> hh_elt ` set l" "distinct (map hh_elt l)" using Cons.prems(3) by auto
    have "npath (m_hh_next (fst s)) (m_hh_next (fst st) ?x) (map hh_elt l)
        = npath (m_hh_next (fst st)) (m_hh_next (fst st) ?x) (map hh_elt l)"
      using relinked_next [OF s(3)] xl(1) by (intro npath_frame) (metis list.set_map singletonD)
    with np have np': "npath (m_hh_next (fst s)) (m_hh_next (fst st) ?x) (map hh_elt l)" by simp
    have dis: "hh_elt ` set l \<inter> placed s' = {}" using s(4) Cons.prems(4) xl by auto
    have hv: "m_hashv (fst s) (hh_elt g) = hh_hashv g" if "g \<in> set l" for g
      using Cons.prems(5) [of g] relinked_fields(2) [OF s(3)] that by simp
    have "simulates (expand_chain num2 ideal (m_hh_next (fst st) ?x) s) (rfold (expand_place num2 ideal) l s')
        (hh_elt ` set l) (fst s) (placed s')"
      by (rule Cons.IH [OF np' s(2) xl(2) dis hv])
    moreover have "expand_chain num2 ideal p st = expand_chain num2 ideal (m_hh_next (fst st) ?x) s"
      by (subst expand_chain.simps) (simp add: p s(1))
    moreover have "rfold (expand_place num2 ideal) (h # l) st' = rfold (expand_place num2 ideal) l s'" by (simp add: Inr)
    ultimately show ?thesis
      using s(4) relinked_trans [OF s(3)] by (auto simp: simulates_def split: sum.splits)
  qed
qed

lemma expand_all_refines:
  assumes "list_all2 (\<lambda>b c. npath (m_hh_next (fst st)) (bl_head b) (elts c)) bls bs" and "redist st st'"
    and "distinct (concat (map elts bs))" and "set (concat (map elts bs)) \<inter> placed st' = {}"
    and "\<And>h. h \<in> set (concat (map bkt_chain bs)) \<Longrightarrow> m_hashv (fst st) (hh_elt h) = hh_hashv h"
  shows "simulates (expand_all num2 ideal bls st) (rfold (expand_place num2 ideal) (concat (map bkt_chain bs)) st')
    (set (concat (map elts bs))) (fst st) (placed st')"
  using assms
proof (induction bs arbitrary: bls st st' rule: list.induct)
  case Nil
  from Nil.prems(1) have "bls = []" by simp
  with Nil.prems(2) show ?case by (auto simp: simulates_def relinked_refl)
next
  case (Cons c bs)
  from Cons.prems(1) obtain b bls' where bls: "bls = b # bls'" and b: "npath (m_hh_next (fst st)) (bl_head b) (map hh_elt (bkt_chain c))"
    and rest: "list_all2 (\<lambda>b c. npath (m_hh_next (fst st)) (bl_head b) (elts c)) bls' bs"
    by (auto simp: list_all2_Cons2 elts_def)
  have ec: "set (elts c) = hh_elt ` set (bkt_chain c)" by (simp add: elts_def)
  have dc: "distinct (map hh_elt (bkt_chain c))" "distinct (concat (map elts bs))"
    "hh_elt ` set (bkt_chain c) \<inter> set (concat (map elts bs)) = {}"
    using Cons.prems(3) ec by (simp_all add: elts_def [of c])
  have dis: "hh_elt ` set (bkt_chain c) \<inter> placed st' = {}" using Cons.prems(4) ec by auto
  have first: "simulates (expand_chain num2 ideal (bl_head b) st) (rfold (expand_place num2 ideal) (bkt_chain c) st')
      (hh_elt ` set (bkt_chain c)) (fst st) (placed st')"
    using Cons.prems(5) by (intro expand_chain_refines [OF b Cons.prems(2) dc(1) dis]) simp
  show ?case
  proof (cases "rfold (expand_place num2 ideal) (bkt_chain c) st'")
    case (Inl e)
    with first show ?thesis by (simp add: simulates_def bls rfold_append)
  next
    case (Inr s')
    with first obtain s where s: "expand_chain num2 ideal (bl_head b) st = Some (Inr s)" "redist s s'"
      "relinked (set (elts c)) (fst st) (fst s)" "placed s' = placed st' \<union> set (elts c)"
      by (auto simp: simulates_def ec)
    have "list_all2 (\<lambda>b c. npath (m_hh_next (fst s)) (bl_head b) (elts c)) bls' bs"
      unfolding list_all2_conv_all_nth
    proof (intro conjI allI impI)
      show "length bls' = length bs" using rest by (rule list_all2_lengthD)
      fix j
      assume j: "j < length bls'"
      then have "npath (m_hh_next (fst st)) (bl_head (bls' ! j)) (elts (bs ! j))" "j < length bs"
        using rest by (auto simp: list_all2_conv_all_nth)
      moreover have "x \<notin> set (elts c)" if "x \<in> set (elts (bs ! j))" for x
      proof -
        have "elts (bs ! j) \<in> elts ` set bs" using \<open>j < length bs\<close> by simp
        then have "x \<in> set (concat (map elts bs))" using that by auto
        with dc(3) ec show ?thesis by blast
      qed
      ultimately show "npath (m_hh_next (fst s)) (bl_head (bls' ! j)) (elts (bs ! j))"
        using npath_frame [of "elts (bs ! j)" "m_hh_next (fst s)" "m_hh_next (fst st)"] relinked_next [OF s(3)] by blast
    qed
    moreover have "set (concat (map elts bs)) \<inter> placed s' = {}"
      using s(4) Cons.prems(4) dc(3) ec by auto
    moreover have "m_hashv (fst s) (hh_elt h) = hh_hashv h" if "h \<in> set (concat (map bkt_chain bs))" for h
      using Cons.prems(5) [of h] relinked_fields(2) [OF s(3)] that by simp
    ultimately have "simulates (expand_all num2 ideal bls' s) (rfold (expand_place num2 ideal) (concat (map bkt_chain bs)) s')
        (set (concat (map elts bs))) (fst s) (placed s')"
      by (rule Cons.IH [OF _ s(2) dc(2)])
    moreover have "expand_all num2 ideal bls st = expand_all num2 ideal bls' s" by (simp add: bls s(1))
    moreover have "rfold (expand_place num2 ideal) (concat (map bkt_chain (c # bs))) st'
        = rfold (expand_place num2 ideal) (concat (map bkt_chain bs)) s'" by (simp add: rfold_append Inr)
    ultimately show ?thesis
      using s(4) relinked_trans [OF s(3)] by (auto simp: simulates_def Un_assoc split: sum.splits)
  qed
qed


lemma map_elts: "concat (map elts bs) = map hh_elt (concat (map bkt_chain bs))"
  by (induction bs) (simp_all add: elts_def)

lemma linked_bkts_empty:
  "linked_bkts nx pv (replicate n \<lparr>bl_head = None, bl_count = 0, bl_expand_mult = 0\<rparr>) (replicate n empty_bucket)"
  by (auto simp: linked_bkts_def chains_def list_all2_conv_all_nth empty_bucket_def elts_def)

lemma redist_empty:
  "redist (m, replicate n \<lparr>bl_head = None, bl_count = 0, bl_expand_mult = 0\<rparr>, 0) (replicate n empty_bucket, 0)"
proof -
  have "apart (map elts (replicate n empty_bucket))" by (auto simp: apart_def empty_bucket_def elts_def)
  then show ?thesis by (simp add: redist_def linked_bkts_empty)
qed

lemma expand_buckets_refines:
  fixes m :: "'e mem" and t :: "'e UT_hash_table"
  assumes l: "linked_table m t" and n: "length (buckets t) = unat (num_buckets t)"
    and d: "distinct (map hh_elt (concat (map bkt_chain (buckets t))))"
    and s: "set (concat (map bkt_chain (buckets t))) \<subseteq> set (app_list t)"
  shows "\<exists>r. expand_buckets_links malloc_ok m = Some r \<and> rel_sum (=) linked_table r (HASH_EXPAND_BUCKETS malloc_ok t)"
proof (cases "malloc_ok \<and> \<not> 32 \<le> log2_num_buckets t + 1")
  case False
  with l show ?thesis by (auto simp: linked_table_def expand_buckets_links_def HASH_EXPAND_BUCKETS_def)
next
  case True
  have lb: "linked_bkts (m_hh_next m) (m_hh_prev m) (m_buckets m) (buckets t)"
    and f: "m_num_buckets m = num_buckets t" "m_log2_num_buckets m = log2_num_buckets t" "m_num_items m = num_items t"
    using l by (simp_all add: linked_table_def)
  have len: "length (m_buckets m) = length (buckets t)" using linked_bkts_length [OF lb] .
  define num2 where "num2 = num_buckets t * 2"
  define ideal where "ideal = drop_bit (unat (log2_num_buckets t + 1)) (num_items t)
      + (if num_items t AND (num2 - 1) \<noteq> 0 then 1 else 0)"
  let ?nb = "replicate (2 * unat (num_buckets t)) \<lparr>bl_head = None, bl_count = 0, bl_expand_mult = 0\<rparr> :: 'e bucket_links list"
  let ?ab = "replicate (2 * unat (num_buckets t)) empty_bucket :: 'e UT_hash_bucket list"
  have np: "list_all2 (\<lambda>b c. npath (m_hh_next (fst (m, ?nb, 0 :: u32))) (bl_head b) (elts c)) (m_buckets m) (buckets t)"
    using linked_bkts_nth(3) [OF lb] len by (auto simp: list_all2_conv_all_nth dest: dseg_npath)
  have pl: "placed (?ab, 0) = {}" by (simp add: placed_def empty_bucket_def elts_def)
  have hv: "m_hashv (fst (m, ?nb, 0 :: u32)) (hh_elt h) = hh_hashv h" if "h \<in> set (concat (map bkt_chain (buckets t)))" for h
    using that s l by (auto simp: linked_table_def list_all_iff)
  have sim: "simulates (expand_all num2 ideal (m_buckets m) (m, ?nb, 0))
      (rfold (expand_place num2 ideal) (concat (map bkt_chain (buckets t))) (?ab, 0))
      (set (concat (map elts (buckets t)))) (fst (m, ?nb, 0 :: u32)) (placed (?ab, 0))"
    by (rule expand_all_refines [OF np redist_empty _ _ hv]) (use d pl in \<open>simp_all add: map_elts\<close>)
  show ?thesis
  proof (cases "rfold (expand_place num2 ideal) (concat (map bkt_chain (buckets t))) (?ab, 0)")
    case (Inl e)
    with sim True len n f show ?thesis
      by (simp add: simulates_def expand_buckets_links_def HASH_EXPAND_BUCKETS_def Let_def num2_def ideal_def)
  next
    case (Inr s')
    obtain bs k where s': "s' = (bs, k)" by (cases s')
    from sim Inr obtain m' nb where r: "expand_all num2 ideal (m_buckets m) (m, ?nb, 0) = Some (Inr (m', nb, k))"
      "redist (m', nb, k) (bs, k)" "relinked (set (concat (map elts (buckets t)))) m m'"
      by (auto simp: simulates_def redist_def s')
    note rf = relinked_fields [OF r(3)]
    show ?thesis
      using True len n f r(1,2) Inr l rf
      by (simp add: expand_buckets_links_def HASH_EXPAND_BUCKETS_def Let_def num2_def ideal_def s' linked_table_def redist_def)
  qed
qed


subsection \<open>Insertion\<close>

lemma add_to_bkt_refines:
  assumes l: "linked_table m t" and n: "length (buckets t) = unat (num_buckets t)" and h: "h \<in> set (app_list t)"
    and d: "distinct (hh_elt h # map hh_elt (concat (map bkt_chain (buckets t))))"
    and s: "set (concat (map bkt_chain (buckets t))) \<subseteq> set (app_list t)"
  shows "\<exists>r. add_to_bkt_links malloc_ok i (hh_elt h) m = Some r
    \<and> rel_sum (=) linked_table r (HASH_ADD_TO_BKT malloc_ok i h t)"
proof -
  have lb: "linked_bkts (m_hh_next m) (m_hh_prev m) (m_buckets m) (buckets t)" using l by (simp add: linked_table_def)
  have len: "length (m_buckets m) = length (buckets t)" using linked_bkts_length [OF lb] .
  show ?thesis
  proof (cases "i < length (buckets t)")
    case False
    with len show ?thesis by (simp add: add_to_bkt_links_def HASH_ADD_TO_BKT_def)
  next
    case True
    have a: "apart (map elts (buckets t))" using d by (intro apart_concat) (simp add: map_elts)
    have x: "hh_elt h \<notin> set (concat (map elts (buckets t)))" using d by (simp only: map_elts) simp
    define b where "b = (buckets t ! i)\<lparr>bkt_count := bkt_count (buckets t ! i) + 1, bkt_chain := h # bkt_chain (buckets t ! i)\<rparr>"
    define t' where "t' = t\<lparr>buckets := (buckets t)[i := b]\<rparr>"
    define m' where "m' = (link_in_bkt (hh_elt h) (bl_head (m_buckets m ! i)) m)\<lparr>m_buckets := (m_buckets m)[i :=
      (m_buckets m ! i)\<lparr>bl_count := bl_count (m_buckets m ! i) + 1, bl_head := Some (hh_elt h)\<rparr>]\<rparr>"
    note c = linked_bkts_nth(1,2) [OF lb True]
    have "b = \<lparr>bkt_chain = h # bkt_chain (buckets t ! i), bkt_count = bkt_count (buckets t ! i) + 1,
        expand_mult = expand_mult (buckets t ! i)\<rparr>" by (simp add: b_def)
    moreover have "(m_buckets m ! i)\<lparr>bl_count := bl_count (m_buckets m ! i) + 1, bl_head := Some (hh_elt h)\<rparr> =
        \<lparr>bl_head = Some (hh_elt h), bl_count = bkt_count (buckets t ! i) + 1, bl_expand_mult = expand_mult (buckets t ! i)\<rparr>"
      using c by simp
    ultimately have lb': "linked_bkts (m_hh_next m') (m_hh_prev m') (m_buckets m') (buckets t')"
      using linked_bkts_push(1) [OF lb a True x] by (simp add: m'_def t'_def)
    then have l': "linked_table m' t'"
      using l by (simp add: linked_table_def m'_def t'_def link_in_bkt_def)
    have ms: "mset (concat (map bkt_chain (buckets t'))) = add_mset h (mset (concat (map bkt_chain (buckets t))))"
      unfolding t'_def using True by (simp add: mset_concat_update_Cons b_def)
    have "mset (map hh_elt (concat (map bkt_chain (buckets t')))) = mset (hh_elt h # map hh_elt (concat (map bkt_chain (buckets t))))"
      by (simp add: ms)
    then have d': "distinct (map hh_elt (concat (map bkt_chain (buckets t'))))"
      using d by (metis mset_eq_imp_distinct_iff)
    have s': "set (concat (map bkt_chain (buckets t'))) \<subseteq> set (app_list t')"
      using s h arg_cong [OF ms, of set_mset] by (simp add: t'_def)
    have n': "length (buckets t') = unat (num_buckets t')" using n by (simp add: t'_def)
    from expand_buckets_refines [OF l' n' d' s', of malloc_ok] l' True len c show ?thesis
      by (auto simp: add_to_bkt_links_def HASH_ADD_TO_BKT_def Let_def m'_def t'_def b_def link_in_bkt_def linked_table_def)
  qed
qed


lemma add_to_table_refines:
  assumes "linked_table m t" and "length (buckets t) = unat (num_buckets t)" and "h \<in> set (app_list t)"
    and "distinct (hh_elt h # map hh_elt (concat (map bkt_chain (buckets t))))"
    and "set (concat (map bkt_chain (buckets t))) \<subseteq> set (app_list t)"
  shows "\<exists>r. add_to_table_links malloc_ok (hh_hashv h) (hh_elt h) m = Some r
    \<and> rel_sum (=) linked_table r (HASH_ADD_TO_TABLE malloc_ok h t)"
proof -
  have "linked_table (m\<lparr>m_num_items := m_num_items m + 1\<rparr>) (t\<lparr>num_items := num_items t + 1\<rparr>)" "m_num_buckets m = num_buckets t"
    using assms(1) by (simp_all add: linked_table_def)
  from add_to_bkt_refines [OF this(1), of h malloc_ok "unat (HASH_TO_BKT (hh_hashv h) (num_buckets t))"] this(2) assms(2-5)
  show ?thesis by (simp add: add_to_table_links_def HASH_ADD_TO_TABLE_def Let_def)
qed

lemma dseg_snoc:
  assumes "dseg nx pv None p xs (Some z) None" and "distinct xs" and "xs \<noteq> []" and "x \<notin> set xs"
  shows "dseg (nx(x := None, z := Some x)) (pv(x := Some z)) None p (xs @ [x]) (Some x) None"
proof -
  have z: "z = last xs" using dseg_last [OF assms(1)] assms(3) by simp
  have "dseg (nx(last xs := Some x)) pv None p xs (Some z) (Some x)" by (rule dseg_set_next [OF assms(1-3)])
  moreover have "dseg (nx(x := None, z := Some x)) (pv(x := Some z)) None p xs (Some z) (Some x)
      = dseg (nx(last xs := Some x)) pv None p xs (Some z) (Some x)"
    using assms(4) z by (intro dseg_frame) auto
  ultimately have "dseg (nx(x := None, z := Some x)) (pv(x := Some z)) None p xs (Some z) (Some x)" by simp
  then show ?thesis using assms(3,4) z last_in_set [of xs] by (auto simp: dseg_append)
qed

text \<open>The element is put at the end of the list, or starts a list.\<close>

lemma uthash_ok_chains:
  assumes "uthash_ok (Some t)"
  shows "length (buckets t) = unat (num_buckets t)" "set (concat (map bkt_chain (buckets t))) = set (app_list t)"
    "distinct (map hh_elt (concat (map bkt_chain (buckets t))))"
proof -
  have ms: "mset (concat (map bkt_chain (buckets t))) = mset (app_list t)" and d: "distinct (map hh_elt (app_list t))"
    and tok: "table_ok t" using assms by (auto simp: uthash_ok_def)
  show "set (concat (map bkt_chain (buckets t))) = set (app_list t)" by (rule mset_eq_setD [OF ms])
  show "distinct (map hh_elt (concat (map bkt_chain (buckets t))))"
    using distinct_map_mset [OF ms, of hh_elt] d by simp
  show "length (buckets t) = unat (num_buckets t)"
    using tok unat_pow2_u32 [of "unat (log2_num_buckets t)"] by (simp add: table_ok_def)
qed

lemma linked_table_append:
  assumes l: "linked_table m t" and ok: "uthash_ok (Some t)" and h: "hh_elt h \<notin> hh_elt ` set (app_list t)"
  shows "\<exists>m'. append_list_links (hh_elt h) (set_key_links (hh_key h) (hh_hashv h) (hh_elt h) m) = Inr m'
    \<and> linked_table m' (t\<lparr>app_list := app_list t @ [h]\<rparr>)"
proof -
  let ?xs = "map hh_elt (app_list t)"
  have xs: "?xs \<noteq> []" "distinct ?xs" "hh_elt h \<notin> set ?xs" using ok h by (auto simp: uthash_ok_def)
  have s: "dseg (m_next m) (m_prev m) None (m_head m) ?xs (m_tail m) None" using l by (simp add: linked_table_def)
  then obtain z where z: "m_tail m = Some z" using dseg_last [OF s] xs(1) by auto
  have ne: "hh_elt g \<noteq> hh_elt h" if "g \<in> set (app_list t)" for g using h that by (metis image_eqI)
  have "list_all (\<lambda>g. ((m_key m)(hh_elt h := hh_key h)) (hh_elt g) = hh_key g
      \<and> ((m_hashv m)(hh_elt h := hh_hashv h)) (hh_elt g) = hh_hashv g) (app_list t @ [h])"
    using l ne by (simp add: linked_table_def list_all_iff)
  with dseg_snoc [OF s [unfolded z] xs(2,1,3)] l show ?thesis
    by (simp add: append_list_links_def set_key_links_def z linked_table_def)
qed

lemma linked_first:
  assumes "malloc_ok"
  shows "\<exists>m' t. first_links malloc_ok (hh_elt h) (set_key_links (hh_key h) (hh_hashv h) (hh_elt h) m) = Inr m'
    \<and> HASH_MAKE_TABLE malloc_ok h = Inr t \<and> linked_table m' t \<and> app_list t = [h]
    \<and> length (buckets t) = unat (num_buckets t) \<and> concat (map bkt_chain (buckets t)) = []"
  using assms linked_bkts_empty
  by (simp add: first_links_def make_table_links_def set_key_links_def HASH_MAKE_TABLE_def linked_table_def empty_bucket_def)

lemma add_refines:
  assumes l: "linked m head" and ok: "uthash_ok head" and e: "e \<notin> snd ` set (hash_items head)"
  shows "\<exists>r. add_links malloc_ok key e m = Some r \<and> rel_sum (=) linked r (HASH_ADD malloc_ok key e head)"
proof -
  let ?h = "\<lparr>hh_elt = e, hh_key = key, hh_hashv = HASH_JEN key\<rparr>"
  have sum: "rel_sum (=) linked r (rbind r' (\<lambda>t. Inr (Some t)))" if "rel_sum (=) linked_table r r'" for r r'
    using that by cases (simp_all add: linked_def)
  show ?thesis
  proof (cases head)
    case None
    then have mh: "m_head m = None" using l by (simp add: linked_def)
    show ?thesis
    proof (cases malloc_ok)
      case False
      with None mh show ?thesis
        by (simp add: add_links_def HASH_ADD_def HASH_ADD_KEYPTR_BYHASHVALUE_def HASH_MAKE_TABLE_def Let_def
            first_links_def make_table_links_def set_key_links_def)
    next
      case True
      from linked_first [OF True, of ?h m] obtain m' t where m': "first_links malloc_ok e (set_key_links key (HASH_JEN key) e m) = Inr m'"
        "HASH_MAKE_TABLE malloc_ok ?h = Inr t" "linked_table m' t" "app_list t = [?h]"
        "length (buckets t) = unat (num_buckets t)" "concat (map bkt_chain (buckets t)) = []" by auto
      from add_to_table_refines [OF m'(3,5), of ?h malloc_ok] m'(4,6) obtain r where
        r: "add_to_table_links malloc_ok (HASH_JEN key) e m' = Some r" "rel_sum (=) linked_table r (HASH_ADD_TO_TABLE malloc_ok ?h t)"
        by auto
      then show ?thesis using sum [OF r(2)] m'(1,2) None mh
        by (simp add: add_links_def HASH_ADD_def HASH_ADD_KEYPTR_BYHASHVALUE_def Let_def set_key_links_def)
    qed
  next
    case (Some t)
    have lt: "linked_table m t" using l by (simp add: linked_def Some)
    have okt: "uthash_ok (Some t)" using ok by (simp add: Some)
    have e': "e \<notin> hh_elt ` set (app_list t)" using e by (simp add: Some hash_items_def image_image)
    have mh: "m_head m \<noteq> None"
      using lt okt by (cases "app_list t") (auto simp: linked_table_def uthash_ok_def)
    from linked_table_append [OF lt okt, of ?h] e' obtain m' where
      m': "append_list_links e (set_key_links key (HASH_JEN key) e m) = Inr m'" "linked_table m' (t\<lparr>app_list := app_list t @ [?h]\<rparr>)"
      by auto
    note c = uthash_ok_chains [OF okt]
    have "distinct (e # map hh_elt (concat (map bkt_chain (buckets t))))"
      using c(2,3) e' by (metis distinct.simps(2) list.set_map)
    with add_to_table_refines [OF m'(2), of ?h malloc_ok] c(1,2) obtain r where
      r: "add_to_table_links malloc_ok (HASH_JEN key) e m' = Some r"
        "rel_sum (=) linked_table r (HASH_ADD_TO_TABLE malloc_ok ?h (t\<lparr>app_list := app_list t @ [?h]\<rparr>))" by auto
    then show ?thesis using sum [OF r(2)] m'(1) Some mh
      by (auto simp: add_links_def HASH_ADD_def HASH_ADD_KEYPTR_BYHASHVALUE_def Let_def set_key_links_def)
  qed
qed


subsection \<open>Lookup\<close>

lemma find_in_bkt_refines:
  assumes "npath (m_hh_next m) p (map hh_elt c)"
    and "\<And>h. h \<in> set c \<Longrightarrow> m_key m (hh_elt h) = hh_key h \<and> m_hashv m (hh_elt h) = hh_hashv h"
  shows "find_in_bkt_links m p key hashval = Some (HASH_FIND_IN_BKT c key hashval)"
  using assms
proof (induction c arbitrary: p)
  case Nil
  then show ?case by (subst find_in_bkt_links.simps) simp
next
  case (Cons h c)
  then show ?case by (subst find_in_bkt_links.simps) auto
qed

lemma find_refines:
  assumes l: "linked m head" and ok: "uthash_ok head"
  shows "find_links key m = Some (HASH_FIND key head)"
proof (cases head)
  case None
  with l show ?thesis by (simp add: find_links_def linked_def HASH_FIND_def HASH_FIND_BYHASHVALUE_def)
next
  case (Some t)
  have lt: "linked_table m t" and okt: "uthash_ok (Some t)" using l ok by (simp_all add: linked_def Some)
  have lb: "linked_bkts (m_hh_next m) (m_hh_prev m) (m_buckets m) (buckets t)"
    and f: "m_num_buckets m = num_buckets t" using lt by (simp_all add: linked_table_def)
  let ?i = "unat (HASH_TO_BKT (HASH_JEN key) (num_buckets t))"
  have i: "?i < length (buckets t)" using okt by (intro table_ok_bkt) (simp add: uthash_ok_def)
  have mh: "m_head m \<noteq> None"
    using lt okt by (cases "app_list t") (auto simp: linked_table_def uthash_ok_def)
  from linked_bkts_nth(3) [OF lb i] have np: "npath (m_hh_next m) (bl_head (m_buckets m ! ?i)) (map hh_elt (bkt_chain (buckets t ! ?i)))"
    by (auto simp: elts_def dest: dseg_npath)
  have "h \<in> set (app_list t)" if "h \<in> set (bkt_chain (buckets t ! ?i))" for h
    using that i uthash_ok_chains(2) [OF okt] by (auto simp: set_eq_iff)
  then have "m_key m (hh_elt h) = hh_key h \<and> m_hashv m (hh_elt h) = hh_hashv h" if "h \<in> set (bkt_chain (buckets t ! ?i))" for h
    using that lt by (simp add: linked_table_def list_all_iff)
  from find_in_bkt_refines [OF np this] i mh linked_bkts_length [OF lb] f show ?thesis
    by (auto simp: Some find_links_def HASH_FIND_def HASH_FIND_BYHASHVALUE_def Let_def)
qed

subsection \<open>Deletion\<close>

lemma unlink_app_fields:
  "m_next (unlink_app_links x m) = (case m_prev m x of None \<Rightarrow> m_next m | Some y \<Rightarrow> (m_next m)(y := m_next m x))"
  "m_prev (unlink_app_links x m) = (case m_next m x of None \<Rightarrow> m_prev m | Some y \<Rightarrow> (m_prev m)(y := m_prev m x))"
  "m_head (unlink_app_links x m) = (case m_prev m x of None \<Rightarrow> m_next m x | Some _ \<Rightarrow> m_head m)"
  "m_tail (unlink_app_links x m) = (if m_tail m = Some x then m_prev m x else m_tail m)"
  "m_key (unlink_app_links x m) = m_key m" "m_hashv (unlink_app_links x m) = m_hashv m"
  "m_hh_next (unlink_app_links x m) = m_hh_next m" "m_hh_prev (unlink_app_links x m) = m_hh_prev m"
  "m_buckets (unlink_app_links x m) = m_buckets m" "m_num_buckets (unlink_app_links x m) = m_num_buckets m"
  "m_log2_num_buckets (unlink_app_links x m) = m_log2_num_buckets m" "m_num_items (unlink_app_links x m) = m_num_items m"
  "m_ideal_chain_maxlen (unlink_app_links x m) = m_ideal_chain_maxlen m"
  "m_nonideal_items (unlink_app_links x m) = m_nonideal_items m"
  "m_ineff_expands (unlink_app_links x m) = m_ineff_expands m" "m_noexpand (unlink_app_links x m) = m_noexpand m"
  by (auto simp: unlink_app_links_def Let_def split: option.splits)

lemma unlink_app_linked:
  assumes s: "dseg (m_next m) (m_prev m) None (m_head m) xs (m_tail m) None" and d: "distinct xs" and x: "x \<in> set xs"
  shows "dseg (m_next (unlink_app_links x m)) (m_prev (unlink_app_links x m)) None (m_head (unlink_app_links x m))
      (filter (\<lambda>y. y \<noteq> x) xs) (m_tail (unlink_app_links x m)) None"
    and "m_prev m x = None \<and> m_next m x = None \<longleftrightarrow> length xs = 1"
proof -
  from split_list [OF x] obtain us vs where uv: "xs = us @ x # vs" by blast
  then have f: "filter (\<lambda>y. y \<noteq> x) xs = us @ vs" using d filter_neq_middle by simp
  from s uv have b: "dseg (m_next m) (m_prev m) None (m_head m) us (m_prev m x) (Some x)"
    "dseg (m_next m) (m_prev m) (Some x) (m_next m x) vs (m_tail m) None" by (auto simp: dseg_append)
  have p: "m_prev m x = (if us = [] then None else Some (last us))" using dseg_last [OF b(1)] .
  have n: "m_next m x = (case vs of [] \<Rightarrow> None | y # _ \<Rightarrow> Some y)" using dseg_first [OF b(2)] .
  show "m_prev m x = None \<and> m_next m x = None \<longleftrightarrow> length xs = 1" using p n uv by (auto split: list.splits)
  have "m_tail m = (if vs = [] then Some x else Some (last vs))" using dseg_last [OF b(2)] .
  then have "m_tail (unlink_app_links x m) = (case m_next m x of None \<Rightarrow> m_prev m x | Some _ \<Rightarrow> m_tail m)"
    using n d uv last_in_set [of vs] by (auto simp: unlink_app_fields split: list.splits)
  with dseg_unlink [OF s [unfolded uv] d [unfolded uv]]
  show "dseg (m_next (unlink_app_links x m)) (m_prev (unlink_app_links x m)) None (m_head (unlink_app_links x m))
      (filter (\<lambda>y. y \<noteq> x) xs) (m_tail (unlink_app_links x m)) None"
    by (simp add: f) (simp add: unlink_app_fields)
qed


lemma elts_filter: "elts (b\<lparr>bkt_count := c, bkt_chain := filter (\<lambda>h. hh_elt h \<noteq> x) (bkt_chain b)\<rparr>) = filter (\<lambda>y. y \<noteq> x) (elts b)"
  by (simp add: elts_def filter_map comp_def)

lemma del_in_bkt_refines:
  assumes l: "linked_bkts (m_hh_next m) (m_hh_prev m) (m_buckets m) bs" and a: "apart (map elts bs)"
    and i: "i < length bs" and x: "x \<in> set (elts (bs ! i))"
  shows "\<exists>nx pv bls. del_in_bkt_links i x m = Inr (m\<lparr>m_hh_next := nx, m_hh_prev := pv, m_buckets := bls\<rparr>)
    \<and> linked_bkts nx pv bls (bs[i := (bs ! i)\<lparr>bkt_count := bkt_count (bs ! i) - 1,
         bkt_chain := filter (\<lambda>h. hh_elt h \<noteq> x) (bkt_chain (bs ! i))\<rparr>])"
proof -
  have ln: "length (m_buckets m) = length bs" using linked_bkts_length [OF l] .
  have ch: "chains (m_hh_next m) (m_hh_prev m) (map bl_head (m_buckets m)) (map elts bs)"
    using l by (simp add: linked_bkts_def)
  let ?b = "m_buckets m ! i"
  let ?bl = "?b\<lparr>bl_count := bl_count ?b - 1, bl_head := (if bl_head ?b = Some x then m_hh_next m x else bl_head ?b)\<rparr>"
  let ?b' = "(bs ! i)\<lparr>bkt_count := bkt_count (bs ! i) - 1, bkt_chain := filter (\<lambda>h. hh_elt h \<noteq> x) (bkt_chain (bs ! i))\<rparr>"
  have i': "i < length (map elts bs)" and x': "x \<in> set (map elts bs ! i)" using i x by simp_all
  have h: "bl_head ?b = Some x \<longleftrightarrow> m_hh_prev m x = None" using chains_unlink(2) [OF ch a i' x'] ln i by simp
  have "bl_head ?bl = (case m_hh_prev m x of None \<Rightarrow> m_hh_next m x | Some _ \<Rightarrow> map bl_head (m_buckets m) ! i)"
    using h i ln by (auto split: option.splits)
  with chains_unlink(1) [OF ch a i' x'] i
  have "chains (case m_hh_prev m x of None \<Rightarrow> m_hh_next m | Some y \<Rightarrow> (m_hh_next m)(y := m_hh_next m x))
      (case m_hh_next m x of None \<Rightarrow> m_hh_prev m | Some y \<Rightarrow> (m_hh_prev m)(y := m_hh_prev m x))
      (map bl_head ((m_buckets m)[i := ?bl])) (map elts (bs[i := ?b']))"
    by (simp only: map_update elts_filter nth_map)
  moreover have "list_all2 (\<lambda>l b. bl_count l = bkt_count b \<and> bl_expand_mult l = expand_mult b) ((m_buckets m)[i := ?bl]) (bs[i := ?b'])"
    using l linked_bkts_nth(1,2) [OF l i] unfolding linked_bkts_def by (intro list_all2_update_cong) auto
  moreover have "del_in_bkt_links i x m = Inr (m\<lparr>
      m_hh_next := (case m_hh_prev m x of None \<Rightarrow> m_hh_next m | Some y \<Rightarrow> (m_hh_next m)(y := m_hh_next m x)),
      m_hh_prev := (case m_hh_next m x of None \<Rightarrow> m_hh_prev m | Some y \<Rightarrow> (m_hh_prev m)(y := m_hh_prev m x)),
      m_buckets := (m_buckets m)[i := ?bl]\<rparr>)"
    using i ln by (simp add: del_in_bkt_links_def Let_def)
  ultimately show ?thesis unfolding linked_bkts_def by blast
qed

lemma find_elt:
  assumes "distinct (map hh_elt l)" and "del \<in> set l"
  shows "find (\<lambda>h. hh_elt h = hh_elt del) l = Some del"
  using assms by (induction l) auto

lemma delete_refines:
  assumes l: "linked m head" and ok: "uthash_ok head" and e: "e \<in> set (HASH_ITER head)"
  shows "rel_sum (=) linked (delete_links e m) (HASH_DEL e head)"
proof -
  from e obtain t where head: "head = Some t" by (cases head) (auto simp: HASH_ITER_def)
  have lt: "linked_table m t" and okt: "uthash_ok (Some t)" using l ok by (simp_all add: linked_def head)
  from e obtain del where del: "del \<in> set (app_list t)" "hh_elt del = e" by (auto simp: HASH_ITER_def head)
  have d: "distinct (map hh_elt (app_list t))" using okt by (simp add: uthash_ok_def)
  have f: "find (\<lambda>h. hh_elt h = e) (app_list t) = Some del" using find_elt [OF d del(1)] del(2) by simp
  have s: "dseg (m_next m) (m_prev m) None (m_head m) (map hh_elt (app_list t)) (m_tail m) None"
    using lt by (simp add: linked_table_def)
  have x: "e \<in> set (map hh_elt (app_list t))" using del by auto
  note ua = unlink_app_linked [OF s d x]
  have mh: "m_head m \<noteq> None" using dseg_first [OF s] del(1) by (auto split: list.splits)
  show ?thesis
  proof (cases "length (app_list t) = 1")
    case True
    with ua(2) mh f show ?thesis by (simp add: delete_links_def HASH_DEL_def head linked_def)
  next
    case False
    let ?m = "unlink_app_links e m"
    let ?app = "filter (\<lambda>h. hh_elt h \<noteq> e) (app_list t)"
    let ?i = "unat (HASH_TO_BKT (hh_hashv del) (num_buckets t))"
    have tok: "table_ok t" using okt by (simp add: uthash_ok_def)
    have lb: "linked_bkts (m_hh_next ?m) (m_hh_prev ?m) (m_buckets ?m) (buckets t)"
      using lt by (simp add: linked_table_def unlink_app_fields)
    have i: "?i < length (buckets t)" using tok by (rule table_ok_bkt)
    have hv: "m_hashv m e = hh_hashv del" using lt del by (auto simp: linked_table_def list_all_iff)
    have "e \<in> set (elts (buckets t ! ?i))"
      using chain_mem [OF tok, of del] uthash_ok_chains(2) [OF okt] del by (auto simp: elts_def)
    moreover have "apart (map elts (buckets t))" using uthash_ok_chains(3) [OF okt] by (intro apart_concat) (simp add: map_elts)
    ultimately obtain nx pv bls where r: "del_in_bkt_links ?i e ?m = Inr (?m\<lparr>m_hh_next := nx, m_hh_prev := pv, m_buckets := bls\<rparr>)"
      "linked_bkts nx pv bls ((buckets t)[?i := (buckets t ! ?i)\<lparr>bkt_count := bkt_count (buckets t ! ?i) - 1,
         bkt_chain := filter (\<lambda>h. hh_elt h \<noteq> e) (bkt_chain (buckets t ! ?i))\<rparr>])"
      using del_in_bkt_refines [OF lb _ i] by blast
    have app: "map hh_elt ?app = filter (\<lambda>y. y \<noteq> e) (map hh_elt (app_list t))" by (simp add: filter_map comp_def)
    have fields: "list_all (\<lambda>h. m_key m (hh_elt h) = hh_key h \<and> m_hashv m (hh_elt h) = hh_hashv h) ?app"
      using lt by (auto simp: linked_table_def list_all_iff)
    have "delete_links e m = Inr (?m\<lparr>m_hh_next := nx, m_hh_prev := pv, m_buckets := bls, m_num_items := m_num_items m - 1\<rparr>)"
      using ua(2) False mh r(1) hv lt by (auto simp: delete_links_def Let_def unlink_app_fields linked_table_def)
    moreover have "HASH_DEL e head = Inr (Some (t\<lparr>app_list := ?app, buckets := (buckets t)[?i := (buckets t ! ?i)\<lparr>
         bkt_count := bkt_count (buckets t ! ?i) - 1, bkt_chain := filter (\<lambda>h. hh_elt h \<noteq> e) (bkt_chain (buckets t ! ?i))\<rparr>],
         num_items := num_items t - 1\<rparr>))"
      using f False i del(2) by (simp add: head HASH_DEL_def HASH_DEL_IN_BKT_def Let_def)
    ultimately show ?thesis
      using ua(1) r(2) fields lt by (simp add: linked_def linked_table_def app unlink_app_fields(5-))
  qed
qed


subsection \<open>Iteration\<close>

lemma linked_next:
  assumes l: "linked m head" and i: "HASH_ITER head = ks @ y # zs"
  shows "m_next m y = (case zs of [] \<Rightarrow> None | z # _ \<Rightarrow> Some z)"
proof -
  from i obtain t where t: "head = Some t" by (cases head) (auto simp: HASH_ITER_def)
  have "dseg (m_next m) (m_prev m) None (m_head m) (ks @ y # zs) (m_tail m) None"
    using l i by (simp add: t linked_def linked_table_def HASH_ITER_def)
  then show ?thesis by (auto simp: dseg_append dest: dseg_first)
qed

lemma linked_head: "linked m head \<Longrightarrow> m_head m = (case HASH_ITER head of [] \<Rightarrow> None | x # _ \<Rightarrow> Some x)"
  by (cases head) (auto simp: linked_def linked_table_def HASH_ITER_def dest: dseg_first)

text \<open>The elements a deletion accesses are in the table.\<close>

lemma touches_in_table:
  assumes l: "linked m head" and ok: "uthash_ok head" and x: "x \<in> set (HASH_ITER head)"
  shows "delete_touches x m \<subseteq> set (HASH_ITER head)"
proof -
  from x obtain t where t: "head = Some t" by (cases head) (auto simp: HASH_ITER_def)
  have lt: "linked_table m t" using l by (simp add: t linked_def)
  let ?xs = "map hh_elt (app_list t)"
  have it: "HASH_ITER head = ?xs" by (simp add: t HASH_ITER_def)
  have d: "dseg (m_next m) (m_prev m) None (m_head m) ?xs (m_tail m) None" using lt by (simp add: linked_table_def)
  have "set (concat (map bkt_chain (buckets t))) = set (app_list t)"
    using ok by (intro mset_eq_setD) (simp add: t uthash_ok_def)
  then have "set (concat (map elts (buckets t))) = set ?xs" by (simp add: map_elts)
  then have u: "(\<Union>b \<in> set (buckets t). set (elts b)) = set ?xs" by simp
  with x it obtain b where "b \<in> set (buckets t)" "x \<in> set (elts b)" by (metis UN_E)
  moreover from this u have "set (elts b) \<subseteq> set ?xs" by blast
  ultimately obtain b where "b \<in> set (buckets t)" "x \<in> set (elts b)" "set (elts b) \<subseteq> set ?xs" by blast
  then obtain i where i: "i < length (buckets t)" "x \<in> set (elts (buckets t ! i))" "set (elts (buckets t ! i)) \<subseteq> set ?xs"
    by (auto simp: in_set_conv_nth)
  have "linked_bkts (m_hh_next m) (m_hh_prev m) (m_buckets m) (buckets t)" using lt by (simp add: linked_table_def)
  from linked_bkts_nth(3) [OF this i(1)] obtain e where
    b: "dseg (m_hh_next m) (m_hh_prev m) None (bl_head (m_buckets m ! i)) (elts (buckets t ! i)) e None" by blast
  have "set_option (m_head m) \<subseteq> set ?xs" using dseg_first [OF d] by (auto split: list.splits)
  moreover have "set_option (m_next m x) \<union> set_option (m_prev m x) \<subseteq> set ?xs" using dseg_neighbours [OF d] x it by simp
  moreover have "set_option (m_hh_next m x) \<union> set_option (m_hh_prev m x) \<subseteq> set ?xs" using dseg_neighbours [OF b i(2)] i(3) by blast
  ultimately show ?thesis using x it by (simp add: delete_touches_def)
qed

text \<open>Freeing an element that is not in the table does not disturb the table.\<close>

lemma free_element_Inr:
  assumes "linked (h_mem h) head" and "uthash_ok head" and "x \<notin> set (HASH_ITER head)" and "x \<notin> h_freed h"
  shows "\<exists>m. free_element junk x h = Inr (h\<lparr>h_freed := insert x (h_freed h), h_mem := m\<rparr>) \<and> linked m head"
proof (cases head)
  case None
  with assms show ?thesis by (auto simp: free_element_def linked_def Let_def)
next
  case (Some t)
  let ?m = "h_mem h"
  let ?m' = "?m\<lparr>m_key := (m_key ?m)(x := m_key junk x), m_hashv := (m_hashv ?m)(x := m_hashv junk x),
     m_prev := (m_prev ?m)(x := m_prev junk x), m_next := (m_next ?m)(x := m_next junk x),
     m_hh_prev := (m_hh_prev ?m)(x := m_hh_prev junk x), m_hh_next := (m_hh_next ?m)(x := m_hh_next junk x)\<rparr>"
  have lt: "linked_table ?m t" using assms(1) by (simp add: Some linked_def)
  have x: "hh_elt g \<noteq> x" if "g \<in> set (app_list t)" for g using assms(3) that by (auto simp: Some HASH_ITER_def)
  have "set (concat (map bkt_chain (buckets t))) = set (app_list t)"
    using assms(2) by (intro mset_eq_setD) (simp add: Some uthash_ok_def)
  then have y: "x \<notin> set (concat (map elts (buckets t)))" using x by (auto simp: map_elts)
  have "dseg (m_next ?m') (m_prev ?m') None (m_head ?m) (map hh_elt (app_list t)) (m_tail ?m) None"
    using lt x by (subst dseg_frame [where nx = "m_next ?m" and pv = "m_prev ?m"]) (auto simp: linked_table_def)
  moreover have "list_all (\<lambda>g. m_key ?m' (hh_elt g) = hh_key g \<and> m_hashv ?m' (hh_elt g) = hh_hashv g) (app_list t)"
    using lt x by (simp add: linked_table_def list_all_iff)
  moreover have "chains (m_hh_next ?m') (m_hh_prev ?m') hs (map elts (buckets t))
      = chains (m_hh_next ?m) (m_hh_prev ?m) hs (map elts (buckets t))" for hs
    using y by (intro chains_frame) auto
  then have "linked_bkts (m_hh_next ?m') (m_hh_prev ?m') (m_buckets ?m) (buckets t)"
    using lt by (simp add: linked_table_def linked_bkts_def)
  ultimately have "linked ?m' head" using lt by (simp add: Some linked_def linked_table_def)
  with assms(4) show ?thesis by (intro exI [of _ ?m']) (simp add: free_element_def Let_def)
qed

text \<open>One iteration of a clean-up loop.\<close>

lemma clean_up_step:
  assumes l: "linked (h_mem h) tb" and ok: "uthash_ok tb" and it: "HASH_ITER tb = ks @ x # rest"
    and f: "set (ks @ x # rest) \<inter> h_freed h = {}"
  shows "\<exists>h1 tb1. clean_up P junk x h = Inr h1 \<and> rfold HASH_DEL (filter P [x]) tb = Inr tb1 \<and> linked (h_mem h1) tb1
    \<and> uthash_ok tb1 \<and> HASH_ITER tb1 = (ks @ filter (\<lambda>x. \<not> P x) [x]) @ rest
    \<and> h_visited h1 = h_visited h @ [x] \<and> h_freed h1 = h_freed h \<union> set (filter P [x])"
proof (cases "P x")
  case False
  with assms show ?thesis by (simp add: clean_up_def)
next
  case True
  let ?h = "h\<lparr>h_visited := h_visited h @ [x]\<rparr>"
  have x: "x \<in> set (HASH_ITER tb)" using it by simp
  then obtain k where "(k, x) \<in> set (hash_items tb)" by (auto simp: HASH_ITER_items)
  from ut.del_correct [OF ok this] obtain tb1 where tb1: "HASH_DEL x tb = Inr tb1" "uthash_ok tb1"
    "hash_items tb1 = filter (\<lambda>p. snd p \<noteq> x) (hash_items tb)" by blast
  have d: "distinct (ks @ x # rest)" using ut.elts_distinct [OF ok] it by (simp add: HASH_ITER_items)
  then have r: "HASH_ITER tb1 = ks @ rest"
    using tb1(3) it filter_neq_middle [of ks x rest]
      filter_map [of "\<lambda>y. y \<noteq> x" snd "hash_items tb"] by (simp add: HASH_ITER_items comp_def)
  obtain m1 where m1: "delete_links x (h_mem h) = Inr m1" "linked m1 tb1"
    using delete_refines [OF l ok x] tb1(1) by (auto elim: rel_sum.cases)
  have "delete_touches x (h_mem h) \<inter> h_freed h = {}" using touches_in_table [OF l ok x] f it by auto
  with m1(1) have del: "delete_in_heap x ?h = Inr (?h\<lparr>h_mem := m1\<rparr>)" by (simp add: delete_in_heap_def)
  have "x \<notin> set (HASH_ITER tb1)" "x \<notin> h_freed (?h\<lparr>h_mem := m1\<rparr>)" using r d f by auto
  from free_element_Inr [OF _ tb1(2) this, of junk] m1(2) obtain m2 where
    m2: "free_element junk x (?h\<lparr>h_mem := m1\<rparr>) = Inr (?h\<lparr>h_freed := insert x (h_freed h), h_mem := m2\<rparr>)" "linked m2 tb1"
    by auto
  show ?thesis using True f del m2 tb1 r by (simp add: clean_up_def)
qed

text \<open>Deleting and freeing the current element does not disturb the loop, because the next one is read before.\<close>

lemma iter_deletes:
  assumes "linked (h_mem h) tb" and "uthash_ok tb" and "HASH_ITER tb = ks @ rest" and "set (ks @ rest) \<inter> h_freed h = {}"
    and "el = (case rest of [] \<Rightarrow> None | x # _ \<Rightarrow> Some x)"
    and "tmp = (case rest of x # y # _ \<Rightarrow> Some y | _ \<Rightarrow> None)"
  shows "\<exists>h' tb'. iter_links (clean_up P junk) el tmp h = Some (Inr h')
    \<and> h_visited h' = h_visited h @ rest \<and> h_freed h' = h_freed h \<union> set (filter P rest)
    \<and> rfold HASH_DEL (filter P rest) tb = Inr tb' \<and> linked (h_mem h') tb' \<and> uthash_ok tb'
    \<and> HASH_ITER tb' = ks @ filter (\<lambda>x. \<not> P x) rest"
  using assms
proof (induction rest arbitrary: h tb ks el tmp)
  case Nil
  then show ?case by (subst iter_links.simps) auto
next
  case (Cons x rest)
  have el: "el = Some x" and tmp: "tmp = (case rest of [] \<Rightarrow> None | y # _ \<Rightarrow> Some y)"
    using Cons.prems(5,6) by (auto split: list.splits)
  from clean_up_step [OF Cons.prems(1-4), of P junk] obtain h1 tb1 where s: "clean_up P junk x h = Inr h1"
    "rfold HASH_DEL (filter P [x]) tb = Inr tb1" "linked (h_mem h1) tb1" "uthash_ok tb1"
    "HASH_ITER tb1 = (ks @ filter (\<lambda>x. \<not> P x) [x]) @ rest" "h_visited h1 = h_visited h @ [x]"
    "h_freed h1 = h_freed h \<union> set (filter P [x])" by blast
  have d: "distinct (ks @ x # rest)" using ut.elts_distinct [OF Cons.prems(2)] Cons.prems(3) by (simp add: HASH_ITER_items)
  then have f: "set ((ks @ filter (\<lambda>x. \<not> P x) [x]) @ rest) \<inter> h_freed h1 = {}" using Cons.prems(4) s(7) by auto
  let ?tmp = "case rest of x # y # _ \<Rightarrow> Some y | _ \<Rightarrow> None"
  have n: "next_in_heap h1 tmp = Inr ?tmp"
  proof (cases rest)
    case Nil
    then show ?thesis using tmp by (simp add: next_in_heap_def)
  next
    case (Cons y zs)
    then show ?thesis using linked_next [OF s(3), of _ y zs] s(5) tmp f by (auto simp: next_in_heap_def split: list.splits)
  qed
  from Cons.IH [OF s(3-5) f tmp refl] obtain h' tb' where r: "iter_links (clean_up P junk) tmp ?tmp h1 = Some (Inr h')"
    "h_visited h' = h_visited h1 @ rest" "h_freed h' = h_freed h1 \<union> set (filter P rest)"
    "rfold HASH_DEL (filter P rest) tb1 = Inr tb'" "linked (h_mem h') tb'" "uthash_ok tb'"
    "HASH_ITER tb' = (ks @ filter (\<lambda>x. \<not> P x) [x]) @ filter (\<lambda>x. \<not> P x) rest" by blast
  have "iter_links (clean_up P junk) el tmp h = iter_links (clean_up P junk) tmp ?tmp h1"
    using s(1) n by (subst iter_links.simps) (simp add: el)
  moreover have "rfold HASH_DEL (filter P (x # rest)) tb = Inr tb'"
    using s(2) r(4) by (cases "P x") (auto simp: result_simps)
  ultimately show ?case using r s(6,7) by auto
qed


subsection \<open>The pointers as a keyed table\<close>

text \<open>
  The elements from \<open>p\<close> on, and the keys and elements of the table a memory holds.  With them the operations on the
  links satisfy the same interface as the operations on lists.
\<close>

partial_function (option) elements_links :: "'e mem \<Rightarrow> 'e option \<Rightarrow> 'e list option" where
  "elements_links m p =
    (case p of None \<Rightarrow> Some [] | Some x \<Rightarrow> Option.bind (elements_links m (m_next m x)) (\<lambda>xs. Some (x # xs)))"

definition items_links :: "'e mem \<Rightarrow> (byte list \<times> 'e) list" where
  "items_links m = map (\<lambda>x. (m_key m x, x)) (the (elements_links m (m_head m)))"

definition no_table :: "'e mem" where
  "no_table = \<lparr>m_key = (\<lambda>_. []), m_hashv = (\<lambda>_. 0), m_prev = (\<lambda>_. None), m_next = (\<lambda>_. None),
     m_hh_prev = (\<lambda>_. None), m_hh_next = (\<lambda>_. None), m_head = None, m_tail = None, m_buckets = [],
     m_num_buckets = 0, m_log2_num_buckets = 0, m_num_items = 0, m_ideal_chain_maxlen = 0,
     m_nonideal_items = 0, m_ineff_expands = 0, m_noexpand = 0\<rparr>"

definition links_ok :: "'e mem \<Rightarrow> bool" where
  "links_ok m \<longleftrightarrow> (\<exists>head. linked m head \<and> uthash_ok head)"

definition links_room :: "'e mem \<Rightarrow> bool" where
  "links_room m \<longleftrightarrow> m_head m = None \<or> m_log2_num_buckets m < 31"

lemma elements_links_npath: "npath (m_next m) p xs \<Longrightarrow> elements_links m p = Some xs"
proof (induction xs arbitrary: p)
  case Nil
  then show ?case by (subst elements_links.simps) simp
next
  case (Cons x xs)
  then show ?case by (subst elements_links.simps) simp
qed

lemma linked_items: "linked m head \<Longrightarrow> items_links m = hash_items head"
proof (cases head)
  case None
  assume "linked m head"
  with None show ?thesis by (simp add: linked_def items_links_def hash_items_def elements_links_npath [of _ _ "[]"])
next
  case (Some t)
  assume "linked m head"
  then have "npath (m_next m) (m_head m) (map hh_elt (app_list t))"
    "list_all (\<lambda>h. m_key m (hh_elt h) = hh_key h) (app_list t)"
    by (auto simp: Some linked_def linked_table_def list_all_iff dest: dseg_npath)
  then show ?thesis by (simp add: Some items_links_def hash_items_def elements_links_npath list_all_iff)
qed

lemma linked_room: "linked m head \<Longrightarrow> uthash_ok head \<Longrightarrow> links_room m = hash_room head"
  by (cases head; cases "app_list (the head)")
    (auto simp: links_room_def hash_room_def linked_def linked_table_def uthash_ok_def)

interpretation lk: keyed_store no_table "\<lambda>a k e m. the (add_links a k e m)" "\<lambda>k m. the (find_links k m)"
  delete_links items_links links_ok links_room
proof unfold_locales
  have l: "linked no_table None" by (simp add: linked_def no_table_def)
  show "links_ok no_table" using l by (auto simp: links_ok_def uthash_ok_def)
  show "items_links no_table = []" using linked_items [OF l] by (simp add: hash_items_def)
next
  fix m :: "'e mem" and k
  assume "links_ok m"
  then obtain h where h: "linked m h" "uthash_ok h" by (auto simp: links_ok_def)
  show "distinct (map snd (items_links m))" using ut.elts_distinct [OF h(2)] by (simp add: linked_items [OF h(1)])
  show "\<exists>r. the (find_links k m) = Inr r \<and>
      (case r of None \<Rightarrow> k \<notin> fst ` set (items_links m) | Some e \<Rightarrow> (k, e) \<in> set (items_links m))"
    unfolding linked_items [OF h(1)] find_refines [OF h] option.sel by (rule ut.look_correct [OF h(2)])
next
  fix m m' :: "'e mem" and k e a
  assume "links_ok m" and e: "e \<notin> snd ` set (items_links m)" and r: "the (add_links a k e m) = Inr m'"
  then obtain h where h: "linked m h" "uthash_ok h" by (auto simp: links_ok_def)
  note e' = e [unfolded linked_items [OF h(1)]]
  from add_refines [OF h e', of a k] r obtain h' where h': "HASH_ADD a k e h = Inr h'" "linked m' h'"
    by (auto elim: rel_sum.cases)
  from ut.add_Inr [OF h(2) e' h'(1)] show "links_ok m' \<and> items_links m' = items_links m @ [(k, e)]"
    using h'(2) by (auto simp: links_ok_def linked_items [OF h(1)] linked_items [OF h'(2)])
next
  fix m :: "'e mem" and k e
  assume "links_ok m" and room: "links_room m" and e: "e \<notin> snd ` set (items_links m)"
  then obtain h where h: "linked m h" "uthash_ok h" by (auto simp: links_ok_def)
  from ut.add_total [OF h(2)] room linked_room [OF h] obtain h' where "HASH_ADD True k e h = Inr h'" by blast
  with add_refines [OF h e [unfolded linked_items [OF h(1)]], of True k] show "\<exists>m'. the (add_links True k e m) = Inr m'"
    by (auto elim: rel_sum.cases)
next
  fix m :: "'e mem" and k e
  assume "links_ok m" and e: "(k, e) \<in> set (items_links m)"
  then obtain h where h: "linked m h" "uthash_ok h" by (auto simp: links_ok_def)
  note e' = e [unfolded linked_items [OF h(1)]]
  from ut.del_correct [OF h(2) e'] obtain h' where h': "HASH_DEL e h = Inr h'" "uthash_ok h'"
    "hash_items h' = filter (\<lambda>p. snd p \<noteq> e) (hash_items h)" by blast
  have "e \<in> set (HASH_ITER h)" using e' by (force simp: HASH_ITER_items)
  from delete_refines [OF h this] h'(1) obtain m' where m': "delete_links e m = Inr m'" "linked m' h'"
    by (auto elim: rel_sum.cases)
  with h'(2,3) show "\<exists>m'. delete_links e m = Inr m' \<and> links_ok m' \<and> items_links m' = filter (\<lambda>p. snd p \<noteq> e) (items_links m)"
    by (auto simp: links_ok_def linked_items [OF h(1)] linked_items [OF m'(2)])
qed

text \<open>
  After an insertion on the links the new key is found and every other key is found as before.
\<close>

lemma links_find_after_add:
  assumes "links_ok m" and "e \<notin> snd ` set (items_links m)" and "distinct (map fst (items_links m))"
    and "k \<notin> fst ` set (items_links m)" and "the (add_links malloc_ok k e m) = Inr m'"
  shows "the (find_links k' m') = (if k' = k then Inr (Some e) else the (find_links k' m))"
  using assms by (rule lk.look_after_add)

subsection \<open>Properties\<close>

text \<open>
  C11: The pointers implement the lists: on a memory that holds a well-formed table, the lookup along the bucket
  links returns what the lookup in the lists returns; an insertion (which links the handle into the item list and
  its bucket, and may relink every handle to double the buckets) returns, fails exactly when the insertion into
  the lists fails, and otherwise leaves a memory that holds its result; and so does a deletion, which unlinks
  the handle from both lists and repairs \<open>head\<close>, \<open>tail\<close> and the bucket's head.
\<close>

theorem links_refine_table:
  assumes "linked m head" and "uthash_ok head"
  shows "find_links key m = Some (HASH_FIND key head)
    \<and> (e \<notin> snd ` set (hash_items head) \<longrightarrow>
         (\<exists>r. add_links malloc_ok key e m = Some r \<and> rel_sum (=) linked r (HASH_ADD malloc_ok key e head)))
    \<and> (e \<in> snd ` set (hash_items head) \<longrightarrow> rel_sum (=) linked (delete_links e m) (HASH_DEL e head))"
  using find_refines [OF assms] add_refines [OF assms] delete_refines [OF assms]
  by (simp add: HASH_ITER_items)

lemma one_linked: "\<exists>m h. add_links True [97] (7 :: nat) no_table = Some (Inr m) \<and> HASH_ADD True [97] (7 :: nat) None = Inr h
    \<and> linked m h \<and> uthash_ok h \<and> hash_room h \<and> hash_items h = [([97], 7)]"
proof -
  from one_item [of "[97]" "7 :: nat"] obtain h where h: "HASH_ADD True [97] (7 :: nat) None = Inr h" "uthash_ok h"
    "hash_room h" "hash_items h = [([97], 7)]" by blast
  have "linked (no_table :: nat mem) None" by (simp add: linked_def no_table_def)
  from add_refines [OF this, of 7 True "[97]"] h show ?thesis
    by (auto simp: uthash_ok_def hash_items_def elim: rel_sum.cases)
qed

theorem links_refine_table_witness:
  "\<exists>m h m'. add_links True [97] (7 :: nat) no_table = Some (Inr m) \<and> HASH_ADD True [97] (7 :: nat) None = Inr h \<and> linked m h
     \<and> find_links [97] m = Some (HASH_FIND [97] h) \<and> add_links True [98] 8 m = Some (Inr m')
     \<and> rel_sum (=) linked (delete_links 7 m) (HASH_DEL 7 h)"
proof -
  from one_linked obtain m h where m: "add_links True [97] (7 :: nat) no_table = Some (Inr m)" "HASH_ADD True [97] (7 :: nat) None = Inr h"
    "linked m h" "uthash_ok h" "hash_room h" "hash_items h = [([97], 7)]" by blast
  from ut.add_total [OF m(4,5)] obtain h' where h': "HASH_ADD True [98] 8 h = Inr h'" by blast
  from links_refine_table [OF m(3,4), of "[98]" 8 True] m(6) h' obtain m' where "add_links True [98] 8 m = Some (Inr m')"
    by (auto elim: rel_sum.cases)
  with m links_refine_table [OF m(3,4), of "[97]" 7 True] show ?thesis by auto
qed

text \<open>
  C24: A loop over the table whose body takes out and frees the current element whenever \<open>P\<close> holds, as the daemon's
  clean-up loops do, accesses no freed element: on a heap whose table elements are all allocated it returns without
  the fault \<open>UseAfterFree\<close>, whatever \<open>free\<close> leaves in the memory, because the next element is read before the body
  runs.  It visits every element once, in the order of the table; it frees exactly the elements for which \<open>P\<close>
  holds, and afterwards the table holds the others, in their order.
\<close>

theorem iteration_survives_deletion:
  assumes "linked (h_mem h) head" and "uthash_ok head" and "set (HASH_ITER head) \<inter> h_freed h = {}"
  shows "\<exists>h' head'. HASH_ITER_links (clean_up P junk) h = Some (Inr h')
    \<and> h_visited h' = h_visited h @ HASH_ITER head \<and> h_freed h' = h_freed h \<union> {x \<in> set (HASH_ITER head). P x}
    \<and> rfold HASH_DEL (filter P (HASH_ITER head)) head = Inr head' \<and> linked (h_mem h') head' \<and> uthash_ok head'
    \<and> HASH_ITER head' = filter (\<lambda>x. \<not> P x) (HASH_ITER head)"
proof -
  let ?tmp = "case HASH_ITER head of x # y # _ \<Rightarrow> Some y | _ \<Rightarrow> None"
  have "next_in_heap h (m_head (h_mem h)) = Inr ?tmp"
    using linked_head [OF assms(1)] linked_next [OF assms(1), of "[]"] assms(3) by (auto simp: next_in_heap_def split: list.splits)
  with iter_deletes [OF assms(1,2) _ _ linked_head [OF assms(1)] refl, of "[]" P junk] assms(3) show ?thesis
    by (simp add: HASH_ITER_links_def)
qed

theorem iteration_survives_deletion_witness:
  "\<exists>m h'. add_links True [97] (7 :: nat) no_table = Some (Inr m)
     \<and> HASH_ITER_links (clean_up (\<lambda>x. x = 7) no_table) \<lparr>h_mem = m, h_freed = {5}, h_visited = []\<rparr> = Some (Inr h')
     \<and> h_visited h' = [7] \<and> h_freed h' = {5, 7} \<and> m_head (h_mem h') = None"
proof -
  from one_linked obtain m h where m: "add_links True [97] (7 :: nat) no_table = Some (Inr m)" "linked m h" "uthash_ok h"
    "hash_items h = [([97], 7)]" by blast
  let ?h = "\<lparr>h_mem = m, h_freed = {5}, h_visited = []\<rparr> :: nat visit"
  have h: "HASH_ITER h = [7]" using m(4) by (simp add: HASH_ITER_items)
  have "linked (h_mem ?h) h" "set (HASH_ITER h) \<inter> h_freed ?h = {}" using m(2) by (simp_all add: h)
  from iteration_survives_deletion [OF this(1) m(3) this(2), of "\<lambda>x. x = 7" no_table] obtain h' hd' where
    h': "HASH_ITER_links (clean_up (\<lambda>x. x = 7) no_table) ?h = Some (Inr h')" "h_visited h' = [7]" "h_freed h' = {5, 7}"
    "linked (h_mem h') hd'" "HASH_ITER hd' = []" by (auto simp: h)
  from m(1) h' linked_head [OF h'(4)] show ?thesis by auto
qed

end
