(* ===== verification/Uthash_Links_Order.thy ===== *)
theory Uthash_Links_Order
  imports Uthash_Links
begin

text \<open>
  More of \<open>uthash.h\<close> on the links: insertion in order, the integrity check \<open>HASH_FSCK\<close> of debug builds, and
  \<open>HASH_SELECT\<close>, which puts the selected items of one table into another through a second handle.
\<close>

subsection \<open>Insertion in order\<close>

text \<open>The loop \<open>HASH_AKBI_INNER_LOOP\<close>: the first element that compares greater, or NULL.\<close>

partial_function (option) akbi_loop :: "'e mem \<Rightarrow> ('e \<Rightarrow> 'e \<Rightarrow> int) \<Rightarrow> 'e \<Rightarrow> 'e \<Rightarrow> 'e option option" where
  "akbi_loop m cmpfcn add hs_iter =
    (if cmpfcn hs_iter add > 0 then Some (Some hs_iter)
     else case m_next m hs_iter of None \<Rightarrow> Some None | Some y \<Rightarrow> akbi_loop m cmpfcn add y)"

definition insert_before_links :: "'e \<Rightarrow> 'e \<Rightarrow> 'e mem \<Rightarrow> 'e mem" where
  "insert_before_links add hs_iter m =
    (let m = m\<lparr>m_next := (m_next m)(add := Some hs_iter), m_prev := (m_prev m)(add := m_prev m hs_iter)\<rparr>;
         m = (case m_prev m add of
                Some y \<Rightarrow> m\<lparr>m_next := (m_next m)(y := Some add)\<rparr>
              | None \<Rightarrow> m\<lparr>m_head := Some add\<rparr>)
     in m\<lparr>m_prev := (m_prev m)(hs_iter := Some add)\<rparr>)"

definition add_inorder_links ::
    "bool \<Rightarrow> ('e \<Rightarrow> 'e \<Rightarrow> int) \<Rightarrow> byte list \<Rightarrow> 'e \<Rightarrow> 'e mem \<Rightarrow> 'e mem result option" where
  "add_inorder_links malloc_ok cmpfcn key add m =
    (let m = set_key_links key (HASH_JEN key) add m
     in obind
          (case m_head m of
             None \<Rightarrow> Some (first_links malloc_ok add m)
           | Some hs_iter \<Rightarrow>
               map_option (\<lambda>pos. case pos of Some y \<Rightarrow> Inr (insert_before_links add y m) | None \<Rightarrow> append_list_links add m)
                 (akbi_loop m cmpfcn add hs_iter))
          (add_to_table_links malloc_ok (HASH_JEN key) add))"

subsection \<open>Integrity check\<close>

text \<open>A walk that compares every backward link with the element it comes from; \<open>None\<close> in the result is a fault.\<close>

partial_function (option) fsck_walk ::
    "('e \<Rightarrow> 'e option) \<Rightarrow> ('e \<Rightarrow> 'e option) \<Rightarrow> 'e option \<Rightarrow> 'e option \<Rightarrow> u32 \<Rightarrow> u32 option option" where
  "fsck_walk nx pv thh prev cnt =
    (case thh of
       None \<Rightarrow> Some (Some cnt)
     | Some x \<Rightarrow> if prev \<noteq> pv x then Some None else fsck_walk nx pv (nx x) (Some x) (cnt + 1))"

fun fsck_buckets :: "'e mem \<Rightarrow> 'e bucket_links list \<Rightarrow> u32 \<Rightarrow> u32 option option" where
  "fsck_buckets m [] cnt = Some (Some cnt)"
| "fsck_buckets m (b # bs) cnt =
     Option.bind (fsck_walk (m_hh_next m) (m_hh_prev m) (bl_head b) None 0) (\<lambda>r.
       case r of
         None \<Rightarrow> Some None
       | Some k \<Rightarrow> if bl_count b \<noteq> k then Some None else fsck_buckets m bs (cnt + k))"

definition fsck_links :: "'e mem \<Rightarrow> bool result option" where
  "fsck_links m =
    (case m_head m of
       None \<Rightarrow> Some (Inr True)
     | Some _ \<Rightarrow>
         if length (m_buckets m) < unat (m_num_buckets m) then Some (Inl OobRead)
         else Option.bind (fsck_buckets m (take (unat (m_num_buckets m)) (m_buckets m)) 0) (\<lambda>r.
           if r \<noteq> Some (m_num_items m) then Some (Inr False)
           else Option.bind (fsck_walk (m_next m) (m_prev m) (m_head m) None 0)
                  (\<lambda>r. Some (Inr (r = Some (m_num_items m))))))"

lemma fsck_walk_complete:
  "dseg nx pv b p xs e None \<Longrightarrow> fsck_walk nx pv p b c = Some (Some (c + of_nat (length xs)))"
proof (induction xs arbitrary: b p c)
  case Nil
  then show ?case by (subst fsck_walk.simps) simp
next
  case (Cons x xs)
  then show ?case by (subst fsck_walk.simps) (simp add: add.assoc)
qed

lemma fsck_walk_sound:
  assumes "fsck_walk nx pv p b c = Some (Some n)"
  shows "\<exists>xs e. dseg nx pv b p xs e None \<and> n = c + of_nat (length xs)"
proof -
  let ?P = "\<lambda>nx pv p b c r. \<forall>n. r = Some n \<longrightarrow> (\<exists>xs e. dseg nx pv b p xs e None \<and> n = c + of_nat (length xs))"
  have "?P nx pv p b c (Some n)"
  proof (rule fsck_walk.raw_induct [of ?P, OF _ assms])
    fix walk :: "('a \<Rightarrow> 'a option) \<Rightarrow> ('a \<Rightarrow> 'a option) \<Rightarrow> 'a option \<Rightarrow> 'a option \<Rightarrow> u32 \<Rightarrow> u32 option option"
    fix nx pv :: "'a \<Rightarrow> 'a option" and p b and c :: u32 and r
    assume ih: "\<And>nx pv p b c r. walk nx pv p b c = Some r \<Longrightarrow> ?P nx pv p b c r"
      and r: "(case p of None \<Rightarrow> Some (Some c) | Some x \<Rightarrow> if b \<noteq> pv x then Some None else walk nx pv (nx x) (Some x) (c + 1)) = Some r"
    show "?P nx pv p b c r"
    proof (intro allI impI)
      fix n
      assume n: "r = Some n"
      show "\<exists>xs e. dseg nx pv b p xs e None \<and> n = c + of_nat (length xs)"
      proof (cases p)
        case None
        then show ?thesis using r n by (intro exI [of _ "[]"]) simp
      next
        case (Some x)
        then have b: "pv x = b" and "walk nx pv (nx x) (Some x) (c + 1) = Some (Some n)"
          using r n by (auto split: if_splits)
        from ih [OF this(2)] obtain xs e where "dseg nx pv (Some x) (nx x) xs e None" "n = c + 1 + of_nat (length xs)"
          by blast
        with Some b show ?thesis by - (rule exI [of _ "x # xs"], rule exI [of _ e], simp)
      qed
    qed
  qed
  then show ?thesis by blast
qed

lemma fsck_buckets_complete:
  assumes "list_all2 (\<lambda>l b. bl_count l = of_nat (length (bkt_chain b))
    \<and> (\<exists>e. dseg (m_hh_next m) (m_hh_prev m) None (bl_head l) (elts b) e None)) bls bs"
  shows "fsck_buckets m bls c = Some (Some (c + of_nat (length (concat (map bkt_chain bs)))))"
  using assms
proof (induction arbitrary: c rule: list_all2_induct)
  case (Cons l bls b bs)
  then obtain e where "dseg (m_hh_next m) (m_hh_prev m) None (bl_head l) (elts b) e None" by blast
  from fsck_walk_complete [OF this, of 0] Cons show ?case by (simp add: elts_def add.assoc)
qed simp

lemma fsck_buckets_sound:
  assumes "fsck_buckets m bls c = Some (Some n)" and "l \<in> set bls"
  shows "\<exists>xs e. dseg (m_hh_next m) (m_hh_prev m) None (bl_head l) xs e None \<and> bl_count l = of_nat (length xs)"
  using assms
proof (induction bls arbitrary: c)
  case (Cons b bls)
  from Cons.prems(1) obtain k where k: "fsck_walk (m_hh_next m) (m_hh_prev m) (bl_head b) None 0 = Some (Some k)" "bl_count b = k"
    "fsck_buckets m bls (c + k) = Some (Some n)"
    by (auto simp: bind_eq_Some_conv split: option.splits if_splits)
  from fsck_walk_sound [OF k(1)] k(2) Cons.IH [OF k(3)] Cons.prems(2) show ?case by auto
qed simp

text \<open>
  C25: The integrity check on the links is exact.  On a memory that holds a well-formed table it returns and finds no
  fault; and when it finds none, every bucket is a doubly linked list whose backward links mirror the forward
  ones, that ends, and whose length is the bucket's count, and so is the list of all items.
\<close>

theorem fsck_exact:
  "(linked m head \<and> uthash_ok head \<longrightarrow> fsck_links m = Some (Inr True))
   \<and> (fsck_links m = Some (Inr True) \<and> m_head m \<noteq> None \<longrightarrow>
        (\<exists>xs e. dseg (m_next m) (m_prev m) None (m_head m) xs e None \<and> m_num_items m = of_nat (length xs))
        \<and> (\<forall>l \<in> set (take (unat (m_num_buckets m)) (m_buckets m)). \<exists>xs e.
             dseg (m_hh_next m) (m_hh_prev m) None (bl_head l) xs e None \<and> bl_count l = of_nat (length xs)))"
proof (intro conjI impI)
  assume a: "linked m head \<and> uthash_ok head"
  show "fsck_links m = Some (Inr True)"
  proof (cases head)
    case None
    with a show ?thesis by (simp add: linked_def fsck_links_def)
  next
    case (Some t)
    have lt: "linked_table m t" and ok: "uthash_ok (Some t)" using a by (simp_all add: linked_def Some)
    have lb: "linked_bkts (m_hh_next m) (m_hh_prev m) (m_buckets m) (buckets t)" using lt by (simp add: linked_table_def)
    have tok: "table_ok t" and n: "num_items t = of_nat (length (app_list t))"
      and ms: "mset (concat (map bkt_chain (buckets t))) = mset (app_list t)" using ok by (simp_all add: uthash_ok_def)
    have "list_all2 (\<lambda>l b. bl_count l = of_nat (length (bkt_chain b))
        \<and> (\<exists>e. dseg (m_hh_next m) (m_hh_prev m) None (bl_head l) (elts b) e None)) (m_buckets m) (buckets t)"
      using linked_bkts_length [OF lb] linked_bkts_nth(1,3) [OF lb] table_ok_bucket [OF tok]
      by (auto simp: list_all2_conv_all_nth bucket_ok_def)
    from fsck_buckets_complete [OF this, of 0] mset_eq_length [OF ms]
    have "fsck_buckets m (m_buckets m) 0 = Some (Some (m_num_items m))"
      using lt n by (simp add: linked_table_def)
    moreover have "fsck_walk (m_next m) (m_prev m) (m_head m) None 0 = Some (Some (m_num_items m))"
      using lt n fsck_walk_complete [of "m_next m" "m_prev m" None "m_head m" "map hh_elt (app_list t)" "m_tail m" 0]
      by (simp add: linked_table_def)
    moreover have "length (m_buckets m) = unat (m_num_buckets m)"
      using linked_bkts_length [OF lb] uthash_ok_chains(1) [OF ok] lt by (simp add: linked_table_def)
    ultimately show ?thesis by (cases "m_head m") (simp_all add: fsck_links_def)
  qed
next
  assume a: "fsck_links m = Some (Inr True) \<and> m_head m \<noteq> None"
  then have b: "fsck_buckets m (take (unat (m_num_buckets m)) (m_buckets m)) 0 = Some (Some (m_num_items m))"
    and w: "fsck_walk (m_next m) (m_prev m) (m_head m) None 0 = Some (Some (m_num_items m))"
    by (auto simp: fsck_links_def bind_eq_Some_conv split: option.splits if_splits)
  from fsck_walk_sound [OF w] show "\<exists>xs e. dseg (m_next m) (m_prev m) None (m_head m) xs e None \<and> m_num_items m = of_nat (length xs)"
    by auto
  from fsck_buckets_sound [OF b] show "\<forall>l \<in> set (take (unat (m_num_buckets m)) (m_buckets m)). \<exists>xs e.
      dseg (m_hh_next m) (m_hh_prev m) None (bl_head l) xs e None \<and> bl_count l = of_nat (length xs)" by blast
qed

theorem fsck_exact_witness:
  "\<exists>m. add_links True [97] (7 :: nat) no_table = Some (Inr m) \<and> m_head m \<noteq> None \<and> fsck_links m = Some (Inr True)
     \<and> (\<exists>xs e. dseg (m_next m) (m_prev m) None (m_head m) xs e None \<and> m_num_items m = of_nat (length xs))"
proof -
  from one_linked obtain m h where m: "add_links True [97] (7 :: nat) no_table = Some (Inr m)" "linked m h" "uthash_ok h"
    "hash_items h = [([97], 7)]" by blast
  then have "m_head m \<noteq> None" using linked_head [OF m(2)] by (simp add: HASH_ITER_items)
  with m fsck_exact [of m h] show ?thesis by auto
qed


subsection \<open>Insertion in order refines\<close>

lemma dseg_insert:
  assumes d: "dseg nx pv None p (us @ y # vs) e None" and "distinct (us @ y # vs)" and x: "x \<notin> set (us @ y # vs)"
  shows "dseg (case pv y of None \<Rightarrow> nx(x := Some y) | Some z \<Rightarrow> nx(x := Some y, z := Some x)) (pv(x := pv y, y := Some x))
    None (case pv y of None \<Rightarrow> Some x | Some _ \<Rightarrow> p) (us @ x # y # vs) e None" (is "dseg ?nx ?pv _ ?p _ _ _")
proof -
  from d have u: "dseg nx pv None p us (pv y) (Some y)" and v: "dseg nx pv (Some y) (nx y) vs e None"
    by (auto simp: dseg_append)
  have pvy: "pv y = (if us = [] then None else Some (last us))" using dseg_last [OF u] .
  have last: "last us \<in> set us" if "us \<noteq> []" using that by simp
  have "dseg ?nx ?pv None ?p us (pv y) (Some x)"
  proof (cases "us = []")
    case False
    have "dseg (nx(last us := Some x)) pv None p us (pv y) (Some x)" using u assms(2) False by (intro dseg_set_next) auto
    moreover have "dseg ?nx ?pv None p us (pv y) (Some x) = dseg (nx(last us := Some x)) pv None p us (pv y) (Some x)"
      using assms(2) x pvy False by (intro dseg_frame) auto
    ultimately show ?thesis using False pvy by simp
  qed (use pvy in simp)
  moreover have "dseg ?nx ?pv (Some y) (nx y) vs e None = dseg nx pv (Some y) (nx y) vs e None"
  proof (rule dseg_frame)
    fix z
    assume z: "z \<in> set vs"
    then have "z \<noteq> last us" if "us \<noteq> []" using assms(2) last [OF that] by auto
    then show "?nx z = nx z \<and> ?pv z = pv z" using z assms(2) x pvy by auto
  qed
  moreover have "x \<noteq> last us \<and> y \<noteq> last us" if "us \<noteq> []" using last [OF that] assms(2) x by auto
  then have "?nx x = Some y" "?nx y = nx y" "?pv y = Some x" "?pv x = pv y"
    using x pvy by (cases "us = []", auto)
  ultimately show ?thesis using v by (simp only: dseg_append dseg.simps) blast
qed

lemma akbi_refines:
  assumes "npath (m_next m) (Some y) (map hh_elt l)"
  shows "\<exists>us vs. l = us @ vs \<and> inorder_place cmpfcn h l = us @ h # vs
    \<and> akbi_loop m cmpfcn (hh_elt h) y = Some (case vs of [] \<Rightarrow> None | v # _ \<Rightarrow> Some (hh_elt v))"
  using assms
proof (induction l arbitrary: y)
  case (Cons g l)
  then have y: "y = hh_elt g" by simp
  show ?case
  proof (cases "cmpfcn (hh_elt g) (hh_elt h) > 0")
    case True
    then show ?thesis by - (rule exI [of _ "[]"], rule exI [of _ "g # l"], subst akbi_loop.simps, simp add: y)
  next
    case False
    show ?thesis
    proof (cases "m_next m y")
      case None
      then have "l = []" using Cons.prems by (cases l) auto
      with False None show ?thesis by - (rule exI [of _ "[g]"], rule exI [of _ "[]"], subst akbi_loop.simps, simp add: y)
    next
      case (Some z)
      then have "npath (m_next m) (Some z) (map hh_elt l)" using Cons.prems by simp
      from Cons.IH [OF this] obtain us vs where "l = us @ vs" "inorder_place cmpfcn h l = us @ h # vs"
        "akbi_loop m cmpfcn (hh_elt h) z = Some (case vs of [] \<Rightarrow> None | v # _ \<Rightarrow> Some (hh_elt v))" by blast
      with False Some show ?thesis
        by - (rule exI [of _ "g # us"], rule exI [of _ vs], subst akbi_loop.simps, simp add: y)
    qed
  qed
qed simp

lemma insert_before_fields:
  assumes "x \<noteq> y"
  shows "m_next (insert_before_links x y m) = (case m_prev m y of None \<Rightarrow> (m_next m)(x := Some y) | Some z \<Rightarrow> (m_next m)(x := Some y, z := Some x))"
    "m_prev (insert_before_links x y m) = (m_prev m)(x := m_prev m y, y := Some x)"
    "m_head (insert_before_links x y m) = (case m_prev m y of None \<Rightarrow> Some x | Some _ \<Rightarrow> m_head m)"
    "m_tail (insert_before_links x y m) = m_tail m"
    "m_key (insert_before_links x y m) = m_key m" "m_hashv (insert_before_links x y m) = m_hashv m"
    "m_hh_next (insert_before_links x y m) = m_hh_next m" "m_hh_prev (insert_before_links x y m) = m_hh_prev m"
    "m_buckets (insert_before_links x y m) = m_buckets m" "m_num_buckets (insert_before_links x y m) = m_num_buckets m"
    "m_log2_num_buckets (insert_before_links x y m) = m_log2_num_buckets m" "m_num_items (insert_before_links x y m) = m_num_items m"
    "m_ideal_chain_maxlen (insert_before_links x y m) = m_ideal_chain_maxlen m"
    "m_nonideal_items (insert_before_links x y m) = m_nonideal_items m"
    "m_ineff_expands (insert_before_links x y m) = m_ineff_expands m" "m_noexpand (insert_before_links x y m) = m_noexpand m"
  using assms by (auto simp: insert_before_links_def Let_def split: option.splits)

lemma set_key_linked:
  assumes "linked_table m t" and "hh_elt h \<notin> hh_elt ` set (app_list t)"
  shows "linked_table (set_key_links (hh_key h) (hh_hashv h) (hh_elt h) m) t"
proof -
  have "hh_elt g \<noteq> hh_elt h" if "g \<in> set (app_list t)" for g using assms(2) that by (metis image_eqI)
  then show ?thesis using assms(1) by (simp add: linked_table_def set_key_links_def list_all_iff)
qed

lemma linked_table_insert:
  assumes l: "linked_table m t" and d: "distinct (map hh_elt (app_list t))" and h: "hh_elt h \<notin> hh_elt ` set (app_list t)"
    and uv: "app_list t = us @ v # vs"
  shows "linked_table (insert_before_links (hh_elt h) (hh_elt v) (set_key_links (hh_key h) (hh_hashv h) (hh_elt h) m))
    (t\<lparr>app_list := us @ h # v # vs\<rparr>)"
proof -
  let ?m = "set_key_links (hh_key h) (hh_hashv h) (hh_elt h) m"
  have lk: "linked_table ?m t" using set_key_linked [OF l h] .
  have ne: "hh_elt h \<noteq> hh_elt v" using h uv by auto
  have s: "dseg (m_next ?m) (m_prev ?m) None (m_head ?m) (map hh_elt us @ hh_elt v # map hh_elt vs) (m_tail ?m) None"
    using lk by (simp add: linked_table_def uv)
  have d': "distinct (map hh_elt us @ hh_elt v # map hh_elt vs)" "hh_elt h \<notin> set (map hh_elt us @ hh_elt v # map hh_elt vs)"
    using d h uv by auto
  have "m_key ?m (hh_elt h) = hh_key h" "m_hashv ?m (hh_elt h) = hh_hashv h" by (simp_all add: set_key_links_def)
  with dseg_insert [OF s d'] lk show ?thesis
    by (simp add: linked_table_def insert_before_fields [OF ne] uv)
qed

text \<open>The loop and the links it leads to put the element where the model on lists puts it.\<close>

lemma inorder_step_refines:
  assumes l: "linked_table m t" and ok: "uthash_ok (Some t)" and h: "hh_elt h \<notin> hh_elt ` set (app_list t)"
  defines "mk \<equiv> set_key_links (hh_key h) (hh_hashv h) (hh_elt h) m"
  shows "\<exists>y pos m'. m_head mk = Some y \<and> akbi_loop mk cmpfcn (hh_elt h) y = Some pos
    \<and> (case pos of Some z \<Rightarrow> Inr (insert_before_links (hh_elt h) z mk) | None \<Rightarrow> append_list_links (hh_elt h) mk) = Inr m'
    \<and> linked_table m' (t\<lparr>app_list := inorder_place cmpfcn h (app_list t)\<rparr>)"
proof -
  have d: "distinct (map hh_elt (app_list t))" and ne: "app_list t \<noteq> []" using ok by (simp_all add: uthash_ok_def)
  have s: "dseg (m_next mk) (m_prev mk) None (m_head mk) (map hh_elt (app_list t)) (m_tail mk) None"
    using set_key_linked [OF l h] by (simp add: mk_def linked_table_def)
  then obtain y where y: "m_head mk = Some y" using dseg_first [OF s] ne by (cases "app_list t") auto
  from akbi_refines [OF dseg_npath [OF s, unfolded y], of cmpfcn h] obtain us vs where
    uv: "app_list t = us @ vs" "inorder_place cmpfcn h (app_list t) = us @ h # vs"
    "akbi_loop mk cmpfcn (hh_elt h) y = Some (case vs of [] \<Rightarrow> None | v # _ \<Rightarrow> Some (hh_elt v))" by blast
  show ?thesis
  proof (cases vs)
    case Nil
    from linked_table_append [OF l ok h] uv y Nil show ?thesis by (auto simp: mk_def)
  next
    case (Cons v ws)
    from linked_table_insert [OF l d h, of us v ws] uv y Cons show ?thesis by (auto simp: mk_def)
  qed
qed


text \<open>
  Insertion in order on the links returns, fails exactly when the insertion in order into the lists fails, and
  otherwise leaves a memory that holds its result: the loop finds the place, the four links around it are set,
  and \<open>head\<close> moves when the element is put first.
\<close>

theorem links_refine_inorder:
  assumes l: "linked m head" and ok: "uthash_ok head" and e: "e \<notin> snd ` set (hash_items head)"
  shows "\<exists>r. add_inorder_links malloc_ok cmpfcn key e m = Some r
    \<and> rel_sum (=) linked r (HASH_ADD_INORDER malloc_ok cmpfcn key e head)"
proof (cases head)
  case None
  have "add_inorder_links malloc_ok cmpfcn key e m = add_links malloc_ok key e m"
    using l by (simp add: None linked_def add_inorder_links_def add_links_def set_key_links_def)
  moreover have "HASH_ADD_INORDER malloc_ok cmpfcn key e head = HASH_ADD malloc_ok key e head"
    by (simp add: None HASH_ADD_INORDER_def HASH_ADD_KEYPTR_BYHASHVALUE_INORDER_def HASH_ADD_def HASH_ADD_KEYPTR_BYHASHVALUE_def)
  ultimately show ?thesis using add_refines [OF assms] by simp
next
  case (Some t)
  let ?h = "\<lparr>hh_elt = e, hh_key = key, hh_hashv = HASH_JEN key\<rparr>"
  let ?t = "t\<lparr>app_list := inorder_place cmpfcn ?h (app_list t)\<rparr>"
  have lt: "linked_table m t" and okt: "uthash_ok (Some t)" using l ok by (simp_all add: linked_def Some)
  have e': "e \<notin> hh_elt ` set (app_list t)" using e by (simp add: Some hash_items_def image_image)
  have "\<exists>y pos m'. m_head (set_key_links key (HASH_JEN key) e m) = Some y
    \<and> akbi_loop (set_key_links key (HASH_JEN key) e m) cmpfcn e y = Some pos
    \<and> (case pos of Some z \<Rightarrow> Inr (insert_before_links e z (set_key_links key (HASH_JEN key) e m))
       | None \<Rightarrow> append_list_links e (set_key_links key (HASH_JEN key) e m)) = Inr m' \<and> linked_table m' ?t"
    using inorder_step_refines [OF lt okt, of ?h cmpfcn, unfolded UT_hash_handle.select_convs, OF e'] .
  then obtain y pos m' where
    s: "m_head (set_key_links key (HASH_JEN key) e m) = Some y" "akbi_loop (set_key_links key (HASH_JEN key) e m) cmpfcn e y = Some pos"
    "(case pos of Some z \<Rightarrow> Inr (insert_before_links e z (set_key_links key (HASH_JEN key) e m))
       | None \<Rightarrow> append_list_links e (set_key_links key (HASH_JEN key) e m)) = Inr m'" "linked_table m' ?t" by blast
  note c = uthash_ok_chains [OF okt]
  have "set (inorder_place cmpfcn ?h (app_list t)) = insert ?h (set (app_list t))"
    using inorder_place_mset [of cmpfcn ?h "app_list t"] by (metis set_mset_mset set_mset_add_mset_insert)
  moreover have "distinct (e # map hh_elt (concat (map bkt_chain (buckets t))))"
    using c(2,3) e' by (metis distinct.simps(2) list.set_map)
  ultimately obtain r where r: "add_to_table_links malloc_ok (HASH_JEN key) e m' = Some r"
    "rel_sum (=) linked_table r (HASH_ADD_TO_TABLE malloc_ok ?h ?t)"
    using add_to_table_refines [OF s(4), of ?h malloc_ok] c(1,2) by auto
  from r(2) have "rel_sum (=) linked r (rbind (HASH_ADD_TO_TABLE malloc_ok ?h ?t) (\<lambda>t. Inr (Some t)))"
    by cases (simp_all add: linked_def)
  with r(1) s show ?thesis
    by (simp add: add_inorder_links_def Some HASH_ADD_INORDER_def HASH_ADD_KEYPTR_BYHASHVALUE_INORDER_def Let_def)
qed

theorem links_refine_inorder_witness:
  "\<exists>m h h' m'. add_links True [97] (7 :: nat) no_table = Some (Inr m) \<and> HASH_ADD True [97] (7 :: nat) None = Inr h
     \<and> HASH_ADD_INORDER True (\<lambda>a b. int a - int b) [98] 3 h = Inr h'
     \<and> add_inorder_links True (\<lambda>a b. int a - int b) [98] 3 m = Some (Inr m') \<and> linked m' h' \<and> m_head m' = Some 3"
proof -
  from one_linked obtain m h where m: "add_links True [97] (7 :: nat) no_table = Some (Inr m)" "HASH_ADD True [97] (7 :: nat) None = Inr h"
    "linked m h" "uthash_ok h" "hash_room h" "hash_items h = [([97], 7)]" by blast
  have "compares (\<lambda>a b. int a - int b) (\<lambda>n. n)" by (simp add: compares_def)
  from hash_add_inorder_sorted_aux [OF m(4,5) _ this, of 3 "[98]"] m(6) obtain h' where
    h': "HASH_ADD_INORDER True (\<lambda>a b. int a - int b) [98] 3 h = Inr h'" "HASH_ITER h' = [3, 7]"
    by (auto simp: HASH_ITER_items)
  with links_refine_inorder [OF m(3,4), of 3 True "\<lambda>a b. int a - int b" "[98]"] m(6) obtain m' where
    m': "add_inorder_links True (\<lambda>a b. int a - int b) [98] 3 m = Some (Inr m')" "linked m' h'"
    by (auto elim: rel_sum.cases)
  have "m_head m' = Some 3" using linked_head [OF m'(2)] h'(2) by simp
  with m(1,2) h'(1) m' show ?thesis by blast
qed

subsection \<open>Selection\<close>

text \<open>
  \<open>HASH_SELECT\<close> for one source handle \<open>h\<close> that satisfies the condition: \<open>m\<close> holds the destination table with its own
  handles, \<open>last_elt\<close> is the element selected before.
\<close>

definition select_step :: "bool \<Rightarrow> 'e UT_hash_handle \<Rightarrow> 'e option \<Rightarrow> 'e mem \<Rightarrow> 'e mem result option" where
  "select_step malloc_ok h last_elt m =
    (let elt = hh_elt h;
         m = set_key_links (hh_key h) (hh_hashv h) elt m;
         m = m\<lparr>m_prev := (m_prev m)(elt := last_elt), m_next := (m_next m)(elt := None)\<rparr>;
         m = (case last_elt of None \<Rightarrow> m | Some z \<Rightarrow> m\<lparr>m_next := (m_next m)(z := Some elt)\<rparr>)
     in obind (Some (case m_head m of
                       None \<Rightarrow> rbind (make_table_links malloc_ok elt m) (\<lambda>m. Inr (m\<lparr>m_head := Some elt\<rparr>))
                     | Some _ \<Rightarrow> Inr m)) (\<lambda>m.
        obind (add_to_bkt_links malloc_ok (unat (HASH_TO_BKT (hh_hashv h) (m_num_buckets m))) elt m) (\<lambda>m.
        Some (Inr (m\<lparr>m_num_items := m_num_items m + 1\<rparr>)))))"

fun select_loop :: "bool \<Rightarrow> ('e \<Rightarrow> bool) \<Rightarrow> 'e UT_hash_handle list \<Rightarrow> 'e option \<Rightarrow> 'e mem \<Rightarrow> 'e mem result option" where
  "select_loop malloc_ok cond [] last_elt m = Some (Inr m)"
| "select_loop malloc_ok cond (h # hs) last_elt m =
     (if cond (hh_elt h)
      then obind (select_step malloc_ok h last_elt m) (select_loop malloc_ok cond hs (Some (hh_elt h)))
      else select_loop malloc_ok cond hs last_elt m)"

definition HASH_SELECT_links :: "bool \<Rightarrow> ('e \<Rightarrow> bool) \<Rightarrow> 'e hash_head \<Rightarrow> 'e mem \<Rightarrow> 'e mem result option" where
  "HASH_SELECT_links malloc_ok cond src m =
    (case src of
       None \<Rightarrow> Some (Inr m)
     | Some t \<Rightarrow> select_loop malloc_ok cond (concat (map bkt_chain (buckets t))) None m)"

text \<open>The bucket operations do not touch the list of all items.\<close>

definition same_app :: "'e mem \<Rightarrow> 'e mem \<Rightarrow> bool" where
  "same_app m m' \<longleftrightarrow> m_next m' = m_next m \<and> m_prev m' = m_prev m \<and> m_head m' = m_head m \<and> m_tail m' = m_tail m"

lemma same_app_trans: "same_app a b \<Longrightarrow> same_app b c \<Longrightarrow> same_app a c"
  by (simp add: same_app_def)

lemma obind_Inr: "obind x f = Some (Inr y) \<longleftrightarrow> (\<exists>a. x = Some (Inr a) \<and> f a = Some (Inr y))"
  by (cases x; cases "the x") auto

lemma expand_chain_app:
  assumes "expand_chain num2 ideal p st = Some (Inr st')"
  shows "same_app (fst st) (fst st')"
proof -
  let ?P = "\<lambda>(num2 :: u32) (ideal :: u32) (p :: 'a option) st (r :: ('a mem \<times> 'a bucket_links list \<times> u32) result). \<forall>st'. r = Inr st' \<longrightarrow> same_app (fst st) (fst st')"
  have "?P num2 ideal p st (Inr st')"
  proof (rule expand_chain.raw_induct [of ?P, OF _ assms])
    fix loop :: "u32 \<Rightarrow> u32 \<Rightarrow> 'a option \<Rightarrow> 'a mem \<times> 'a bucket_links list \<times> u32 \<Rightarrow> ('a mem \<times> 'a bucket_links list \<times> u32) result option"
    fix num2 ideal p st r
    assume ih: "\<And>num2 ideal p st r. loop num2 ideal p st = Some r \<Longrightarrow> ?P num2 ideal p st r"
      and r: "(case p of None \<Rightarrow> Some (Inr st) | Some x \<Rightarrow> let hh_nxt = m_hh_next (fst st) x
        in case expand_handle num2 ideal x st of Inl e \<Rightarrow> Some (Inl e) | Inr st' \<Rightarrow> loop num2 ideal hh_nxt st') = Some r"
    show "?P num2 ideal p st r"
    proof (cases p)
      case None
      with r show ?thesis by (auto simp: same_app_def)
    next
      case (Some x)
      show ?thesis
      proof (intro allI impI)
        fix st'
        assume st': "r = Inr st'"
        with r Some obtain s where s: "expand_handle num2 ideal x st = Inr s" "loop num2 ideal (m_hh_next (fst st) x) s = Some (Inr st')"
          by (auto simp: Let_def split: sum.splits)
        have "same_app (fst st) (fst s)"
          using s(1) by (auto simp: expand_handle_def link_in_bkt_def same_app_def Let_def split: if_splits)
        with ih [OF s(2)] show "same_app (fst st) (fst st')" by (auto simp: same_app_def)
      qed
    qed
  qed
  then show ?thesis by blast
qed

lemma expand_all_app: "expand_all num2 ideal bs st = Some (Inr st') \<Longrightarrow> same_app (fst st) (fst st')"
proof (induction bs arbitrary: st)
  case (Cons b bs)
  then obtain s where "expand_chain num2 ideal (bl_head b) st = Some (Inr s)" "expand_all num2 ideal bs s = Some (Inr st')"
    by (auto simp: obind_Inr)
  from same_app_trans [OF expand_chain_app [OF this(1)] Cons.IH [OF this(2)]] show ?case .
qed (simp add: same_app_def)

lemma expand_buckets_app:
  assumes "expand_buckets_links malloc_ok m = Some (Inr m')"
  shows "same_app m m'"
proof -
  let ?r = "expand_all (m_num_buckets m * 2) (drop_bit (unat (m_log2_num_buckets m + 1)) (m_num_items m)
        + (if m_num_items m AND (m_num_buckets m * 2 - 1) \<noteq> 0 then 1 else 0)) (take (unat (m_num_buckets m)) (m_buckets m))
      (m, replicate (2 * unat (m_num_buckets m)) \<lparr>bl_head = None, bl_count = 0, bl_expand_mult = 0\<rparr>, 0)"
  have g: "malloc_ok" "\<not> 32 \<le> m_log2_num_buckets m + 1" "\<not> length (m_buckets m) < unat (m_num_buckets m)"
    using assms unfolding expand_buckets_links_def by (meson option.inject sum.distinct(1))+
  note d = assms [unfolded expand_buckets_links_def Let_def obind_Inr]
  from d g obtain st where st: "?r = Some (Inr st)" by (auto simp only: if_False if_True not_True_eq_False obind_Inr)
  have "same_app (fst st) m'"
    using assms g st unfolding expand_buckets_links_def Let_def
    by (simp only: if_False if_True not_True_eq_False obind.simps option.inject sum.inject) (auto simp: same_app_def)
  with expand_all_app [OF st] show ?thesis by (simp add: same_app_def)
qed

lemma add_to_bkt_app:
  assumes "add_to_bkt_links malloc_ok i x m = Some (Inr m')"
  shows "same_app m m'"
proof -
  let ?b = "m_buckets m ! i"
  let ?m = "(link_in_bkt x (bl_head ?b) m)\<lparr>m_buckets := (m_buckets m)[i := ?b\<lparr>bl_count := bl_count ?b + 1, bl_head := Some x\<rparr>]\<rparr>"
  have "same_app m ?m" by (simp add: same_app_def link_in_bkt_def)
  moreover have "m' = ?m \<or> expand_buckets_links malloc_ok ?m = Some (Inr m')"
    using assms by (auto simp: add_to_bkt_links_def Let_def split: if_splits)
  ultimately show ?thesis using expand_buckets_app same_app_trans by blast
qed


lemma select_step_app:
  assumes "select_step malloc_ok h last_elt m = Some (Inr m')"
  shows "m_next m' = (case last_elt of None \<Rightarrow> (m_next m)(hh_elt h := None)
      | Some z \<Rightarrow> (m_next m)(hh_elt h := None, z := Some (hh_elt h)))"
    and "m_head m' = (case m_head m of None \<Rightarrow> Some (hh_elt h) | Some y \<Rightarrow> Some y)"
    and "m_tail m' = (if m_head m = None then Some (hh_elt h) else m_tail m)"
  using assms
  by (auto simp: select_step_def Let_def obind_Inr set_key_links_def make_table_links_def result_simps same_app_def
      dest!: add_to_bkt_app split: option.splits if_splits)

lemma npath_snoc:
  assumes "npath nx p (ds @ [z])" and "distinct (ds @ [z])" and "x \<notin> set (ds @ [z])"
  shows "npath (nx(x := None, z := Some x)) p (ds @ [z, x])"
  using assms by (induction ds arbitrary: p) auto

lemma select_loop_app:
  assumes "select_loop malloc_ok cond hs (Some z) m = Some (Inr m')" and "m_head m = Some y"
    and "npath (m_next m) p (ds @ [z])" and "distinct (ds @ z # map hh_elt (filter (\<lambda>h. cond (hh_elt h)) hs))"
  shows "npath (m_next m') p (ds @ z # map hh_elt (filter (\<lambda>h. cond (hh_elt h)) hs))
    \<and> m_head m' = Some y \<and> m_tail m' = m_tail m"
  using assms
proof (induction hs arbitrary: m z ds)
  case (Cons h hs)
  show ?case
  proof (cases "cond (hh_elt h)")
    case False
    with Cons show ?thesis by simp
  next
    case True
    with Cons.prems(1) obtain m1 where m1: "select_step malloc_ok h (Some z) m = Some (Inr m1)"
      "select_loop malloc_ok cond hs (Some (hh_elt h)) m1 = Some (Inr m')" by (auto simp: obind_Inr)
    note f = select_step_app [OF m1(1)]
    have "npath (m_next m1) p ((ds @ [z]) @ [hh_elt h])"
      using npath_snoc [OF Cons.prems(3), of "hh_elt h"] Cons.prems(4) True f(1) by auto
    from Cons.IH [OF m1(2) _ this] f(2,3) Cons.prems(2,4) True show ?thesis by simp
  qed
qed simp

text \<open>
  Selecting into an empty table links the selected items into a list in the order of the source's buckets, but
  leaves the table's \<open>tail\<close> at the first of them: the step that makes the table sets it and no later step moves it.
  The next insertion appends after \<open>tail\<close>, so that from then on the list of items is the first selected item and
  the new one, and every other selected item is lost for iteration.
\<close>

theorem select_leaves_stale_tail:
  assumes sel: "HASH_SELECT_links malloc_ok cond (Some t) m = Some (Inr m')" and "m_head m = None"
    and xs: "map hh_elt (filter (\<lambda>h. cond (hh_elt h)) (concat (map bkt_chain (buckets t)))) = x # xs"
    and "distinct (x # xs)" and "e \<notin> set (x # xs)"
  shows "npath (m_next m') (m_head m') (x # xs) \<and> m_tail m' = Some x
    \<and> (\<exists>m''. append_list_links e m' = Inr m'' \<and> npath (m_next m'') (m_head m'') [x, e])"
proof -
  have "npath (m_next m') (Some x) (x # xs) \<and> m_head m' = Some x \<and> m_tail m' = Some x"
    if "select_loop malloc_ok cond hs None m = Some (Inr m')" "map hh_elt (filter (\<lambda>h. cond (hh_elt h)) hs) = x # xs" for hs
    using that
  proof (induction hs)
    case (Cons h hs)
    show ?case
    proof (cases "cond (hh_elt h)")
      case False
      with Cons show ?thesis by simp
    next
      case True
      then have x: "hh_elt h = x" "map hh_elt (filter (\<lambda>h. cond (hh_elt h)) hs) = xs" using Cons.prems(2) by simp_all
      from True Cons.prems(1) obtain m1 where m1: "select_step malloc_ok h None m = Some (Inr m1)"
        "select_loop malloc_ok cond hs (Some x) m1 = Some (Inr m')" by (auto simp: obind_Inr x)
      note f = select_step_app [OF m1(1)]
      show ?thesis
        using select_loop_app [OF m1(2), of x "Some x" "[]"] f assms(2,4) x by simp
    qed
  qed simp
  with sel xs have r: "npath (m_next m') (Some x) (x # xs)" "m_head m' = Some x" "m_tail m' = Some x"
    by (simp_all add: HASH_SELECT_links_def)
  then show ?thesis using assms(5) by (simp add: append_list_links_def)
qed

theorem select_leaves_stale_tail_witness:
  "\<exists>m' m''. HASH_SELECT_links True (\<lambda>x :: nat. x < 3) (Some \<lparr>buckets = [\<lparr>bkt_chain = [\<lparr>hh_elt = 1, hh_key = [97], hh_hashv = 0\<rparr>,
       \<lparr>hh_elt = 2, hh_key = [98], hh_hashv = 1\<rparr>], bkt_count = 2, expand_mult = 0\<rparr>], num_buckets = 1, log2_num_buckets = 0,
       num_items = 2, app_list = [], ideal_chain_maxlen = 0, nonideal_items = 0, ineff_expands = 0, noexpand = 0\<rparr>) no_table
       = Some (Inr m') \<and> m_tail m' = Some 1 \<and> append_list_links 3 m' = Inr m'' \<and> npath (m_next m'') (m_head m'') [1, 3]"
proof -
  let ?t = "\<lparr>buckets = [\<lparr>bkt_chain = [\<lparr>hh_elt = 1, hh_key = [97], hh_hashv = 0\<rparr>,
       \<lparr>hh_elt = 2, hh_key = [98], hh_hashv = 1\<rparr>], bkt_count = 2, expand_mult = 0\<rparr>], num_buckets = 1, log2_num_buckets = 0,
       num_items = 2, app_list = [], ideal_chain_maxlen = 0, nonideal_items = 0, ineff_expands = 0, noexpand = 0\<rparr> :: nat UT_hash_table"
  have "\<exists>m'. HASH_SELECT_links True (\<lambda>x. x < 3) (Some ?t) no_table = Some (Inr m')"
    by (simp add: HASH_SELECT_links_def select_step_def Let_def set_key_links_def no_table_def make_table_links_def
        add_to_bkt_links_def HASH_TO_BKT_def HASH_INITIAL_NUM_BUCKETS_def link_in_bkt_def HASH_BKT_CAPACITY_THRESH_def
        word_le_nat_alt)
  then obtain m' where m': "HASH_SELECT_links True (\<lambda>x. x < 3) (Some ?t) no_table = Some (Inr m')" by blast
  from select_leaves_stale_tail [OF m', of 1 "[2]" 3] show ?thesis using m' by (auto simp: no_table_def)
qed

end
