(* ===== verification/Uthash_Links_Sort.thy ===== *)
theory Uthash_Links_Sort
  imports Uthash_Links
begin

text \<open>
  The merge sort \<open>HASH_SRT\<close> of \<open>uthash.h\<close> and the replacement on the links.  The sort relinks the list of all items
  in place: the elements merged so far form a doubly linked segment, while the two runs are still reached along
  the old forward links.  Its loops are partial functions; they refine the loops of \<open>Uthash_Order\<close>.
\<close>

subsection \<open>Definitions\<close>

text \<open>Appending the element \<open>e\<close> to the merged list: the links, and the first element \<open>_hs_list\<close>.\<close>

definition emit_links :: "'e option \<Rightarrow> 'e option \<Rightarrow> 'e mem \<Rightarrow> 'e mem" where
  "emit_links e tail m =
    (let m = (case tail of Some t \<Rightarrow> m\<lparr>m_next := (m_next m)(t := e)\<rparr> | None \<Rightarrow> m)
     in case e of Some x \<Rightarrow> m\<lparr>m_prev := (m_prev m)(x := tail)\<rparr> | None \<Rightarrow> m)"

definition emit_first :: "'e option \<Rightarrow> 'e option \<Rightarrow> 'e option \<Rightarrow> 'e option" where
  "emit_first e tail first = (case tail of Some _ \<Rightarrow> first | None \<Rightarrow> e)"

text \<open>Counting off a run of at most \<open>insize\<close> elements: where the next run starts, and the length of this one.\<close>

partial_function (option) srt_run :: "'e mem \<Rightarrow> u32 \<Rightarrow> u32 \<Rightarrow> 'e option \<Rightarrow> u32 \<Rightarrow> ('e option \<times> u32) result option" where
  "srt_run m insize i q psize =
    (if i < insize
     then (case q of
             None \<Rightarrow> Some (Inl NullDeref)
           | Some x \<Rightarrow> if m_next m x = None then Some (Inr (None, psize + 1))
                       else srt_run m insize (i + 1) (m_next m x) (psize + 1))
     else Some (Inr (q, psize)))"

text \<open>The merge loop; the result is the memory, \<open>_hs_q\<close>, \<open>_hs_tail\<close> and \<open>_hs_list\<close>.\<close>

partial_function (option) srt_merge_links ::
    "('e \<Rightarrow> 'e \<Rightarrow> int) \<Rightarrow> 'e option \<Rightarrow> u32 \<Rightarrow> 'e option \<Rightarrow> u32 \<Rightarrow> 'e option \<Rightarrow> 'e option \<Rightarrow> 'e mem
      \<Rightarrow> ('e mem \<times> 'e option \<times> 'e option \<times> 'e option) result option" where
  "srt_merge_links cmpfcn p psize q qsize tail first m =
    (if psize \<noteq> 0 \<or> qsize \<noteq> 0 \<and> q \<noteq> None
     then if psize = 0
          then (case q of
                  None \<Rightarrow> Some (Inl NullDeref)
                | Some y \<Rightarrow> srt_merge_links cmpfcn p psize (m_next m y) (qsize - 1) q (emit_first q tail first) (emit_links q tail m))
          else if qsize = 0 \<or> q = None
          then srt_merge_links cmpfcn (case p of None \<Rightarrow> None | Some x \<Rightarrow> m_next m x) (psize - 1) q qsize p
                 (emit_first p tail first) (emit_links p tail m)
          else (case p of
                  None \<Rightarrow> Some (Inl NullDeref)
                | Some x \<Rightarrow>
                   (case q of
                      None \<Rightarrow> Some (Inl NullDeref)
                    | Some y \<Rightarrow>
                        if cmpfcn x y \<le> 0
                        then srt_merge_links cmpfcn (m_next m x) (psize - 1) q qsize p (emit_first p tail first) (emit_links p tail m)
                        else srt_merge_links cmpfcn p psize (m_next m y) (qsize - 1) q (emit_first q tail first) (emit_links q tail m)))
     else Some (Inr (m, q, tail, first)))"

text \<open>A pass over the list from \<open>p\<close> on: the memory, \<open>_hs_tail\<close>, \<open>_hs_list\<close> and the number of merges.\<close>

partial_function (option) srt_pass_links ::
    "('e \<Rightarrow> 'e \<Rightarrow> int) \<Rightarrow> u32 \<Rightarrow> 'e option \<Rightarrow> 'e option \<Rightarrow> 'e option \<Rightarrow> u32 \<Rightarrow> 'e mem
      \<Rightarrow> ('e mem \<times> 'e option \<times> 'e option \<times> u32) result option" where
  "srt_pass_links cmpfcn insize p tail first nmerges m =
    (if p = None then Some (Inr (m, tail, first, nmerges))
     else Option.bind (srt_run m insize 0 p 0) (\<lambda>r. case r of
            Inl e \<Rightarrow> Some (Inl e)
          | Inr run \<Rightarrow>
              Option.bind (srt_merge_links cmpfcn p (snd run) (fst run) insize tail first m) (\<lambda>r. case r of
                Inl e \<Rightarrow> Some (Inl e)
              | Inr s \<Rightarrow> srt_pass_links cmpfcn insize (fst (snd s)) (fst (snd (snd s))) (snd (snd (snd s))) (nmerges + 1) (fst s))))"

definition end_list :: "'e option \<Rightarrow> 'e mem \<Rightarrow> 'e mem" where
  "end_list tail m = (case tail of Some t \<Rightarrow> m\<lparr>m_next := (m_next m)(t := None)\<rparr> | None \<Rightarrow> m)"

partial_function (option) srt_rounds_links :: "('e \<Rightarrow> 'e \<Rightarrow> int) \<Rightarrow> u32 \<Rightarrow> 'e option \<Rightarrow> 'e mem \<Rightarrow> 'e mem result option" where
  "srt_rounds_links cmpfcn insize first m =
    Option.bind (srt_pass_links cmpfcn insize first None None 0 m) (\<lambda>r. case r of
      Inl e \<Rightarrow> Some (Inl e)
    | Inr s \<Rightarrow>
        if snd (snd (snd s)) \<le> 1
        then Some (Inr ((end_list (fst (snd s)) (fst s))\<lparr>m_tail := fst (snd s), m_head := fst (snd (snd s))\<rparr>))
        else srt_rounds_links cmpfcn (insize * 2) (fst (snd (snd s))) (end_list (fst (snd s)) (fst s)))"

definition HASH_SRT_links :: "('e \<Rightarrow> 'e \<Rightarrow> int) \<Rightarrow> 'e mem \<Rightarrow> 'e mem result option" where
  "HASH_SRT_links cmpfcn m =
    (case m_head m of None \<Rightarrow> Some (Inr m) | Some x \<Rightarrow> srt_rounds_links cmpfcn 1 (Some x) m)"

definition replace_links :: "bool \<Rightarrow> byte list \<Rightarrow> 'e \<Rightarrow> 'e mem \<Rightarrow> ('e option \<times> 'e mem) result option" where
  "replace_links malloc_ok key add m =
     obind (find_links key m) (\<lambda>replaced.
     obind (Some (case replaced of None \<Rightarrow> Inr m | Some e \<Rightarrow> delete_links e m)) (\<lambda>m.
     obind (add_links malloc_ok key add m) (\<lambda>m. Some (Inr (replaced, m)))))"

subsection \<open>Merging\<close>

fun nseg :: "('e \<Rightarrow> 'e option) \<Rightarrow> 'e option \<Rightarrow> 'e list \<Rightarrow> 'e option \<Rightarrow> bool" where
  "nseg nx p [] r = (p = r)"
| "nseg nx p (x # xs) r = (p = Some x \<and> nseg nx (nx x) xs r)"

lemma nseg_append: "nseg nx p (xs @ ys) r \<longleftrightarrow> (\<exists>q. nseg nx p xs q \<and> nseg nx q ys r)"
  by (induction xs arbitrary: p) auto

lemma nseg_frame: "(\<And>x. x \<in> set xs \<Longrightarrow> nx' x = nx x) \<Longrightarrow> nseg nx' p xs r = nseg nx p xs r"
  by (induction xs arbitrary: p) auto

lemma nseg_None [simp]: "nseg nx None xs None \<longleftrightarrow> xs = []"
  by (cases xs) auto

lemma dseg_nseg: "dseg nx pv b p xs e q \<Longrightarrow> nseg nx p xs q"
  by (induction xs arbitrary: b p) auto

text \<open>The state of a merge: \<open>out\<close> is merged, \<open>ps\<close> and \<open>qs\<close> are to be merged.\<close>

definition merging :: "'e mem \<Rightarrow> 'e option \<Rightarrow> 'e list \<Rightarrow> 'e option \<Rightarrow> 'e option \<Rightarrow> 'e list \<Rightarrow> 'e option \<Rightarrow> 'e list \<Rightarrow> bool" where
  "merging m first out tail p ps q qs \<longleftrightarrow>
     (\<exists>r. dseg (m_next m) (m_prev m) None first out tail r) \<and> (\<exists>r. nseg (m_next m) p ps r)
     \<and> nseg (m_next m) q qs None \<and> distinct (out @ ps @ qs)"

definition resorted :: "'e mem \<Rightarrow> 'e mem \<Rightarrow> bool" where
  "resorted m m' \<longleftrightarrow> m' = m\<lparr>m_next := m_next m', m_prev := m_prev m'\<rparr>"

lemma resorted_trans: "resorted a b \<Longrightarrow> resorted b c \<Longrightarrow> resorted a c"
  unfolding resorted_def by (cases a; cases b; cases c) simp

lemma resorted_emit: "resorted m (emit_links e tail m)"
  by (auto simp: resorted_def emit_links_def split: option.splits)

lemma emit_next: "m_next (emit_links (Some x) tail m) = (case tail of None \<Rightarrow> m_next m | Some t \<Rightarrow> (m_next m)(t := Some x))"
  and emit_prev: "m_prev (emit_links (Some x) tail m) = (m_prev m)(x := tail)"
  by (auto simp: emit_links_def split: option.splits)

lemma emit_out:
  assumes "dseg (m_next m) (m_prev m) None first out tail r" and "distinct out" and "x \<notin> set out"
  shows "\<exists>r. dseg (m_next (emit_links (Some x) tail m)) (m_prev (emit_links (Some x) tail m)) None
    (emit_first (Some x) tail first) (out @ [x]) (Some x) r"
proof (cases "out = []")
  case True
  with assms(1) show ?thesis by (simp add: emit_next emit_prev emit_first_def)
next
  case False
  have t: "tail = Some (last out)" using dseg_last [OF assms(1)] False by simp
  have "dseg ((m_next m)(last out := Some x)) (m_prev m) None first out tail (Some x)"
    using assms False by (intro dseg_set_next) auto
  moreover have "dseg ((m_next m)(last out := Some x)) ((m_prev m)(x := tail)) None first out tail (Some x)
      = dseg ((m_next m)(last out := Some x)) (m_prev m) None first out tail (Some x)"
    using assms(3) by (intro dseg_frame) auto
  ultimately show ?thesis by (auto simp: dseg_append emit_next emit_prev emit_first_def t)
qed

lemma emit_rest:
  assumes "dseg (m_next m) (m_prev m) None first out tail r" and "set xs \<inter> set out = {}"
  shows "nseg (m_next (emit_links (Some x) tail m)) p xs s = nseg (m_next m) p xs s"
proof (rule nseg_frame)
  fix z
  assume z: "z \<in> set xs"
  have "tail = (if out = [] then None else Some (last out))" using dseg_last [OF assms(1)] .
  with z assms(2) last_in_set [of out] show "m_next (emit_links (Some x) tail m) z = m_next m z"
    by (auto simp: emit_next)
qed

lemma merging_p:
  assumes "merging m first out tail p (x # ps) q qs"
  shows "p = Some x" "merging (emit_links p tail m) (emit_first p tail first) (out @ [x]) p (m_next m x) ps q qs"
proof -
  from assms obtain r where o: "dseg (m_next m) (m_prev m) None first out tail r" and p: "p = Some x"
    by (auto simp: merging_def)
  show "p = Some x" by (rule p)
  have d: "distinct out" "x \<notin> set out" "set ps \<inter> set out = {}" "set qs \<inter> set out = {}"
    using assms by (auto simp: merging_def)
  from emit_out [OF o d(1,2)] assms show "merging (emit_links p tail m) (emit_first p tail first) (out @ [x]) p (m_next m x) ps q qs"
    by (auto simp: merging_def p emit_rest [OF o d(3)] emit_rest [OF o d(4)])
qed

lemma merging_q:
  assumes "merging m first out tail p ps q (y # qs)"
  shows "q = Some y" "merging (emit_links q tail m) (emit_first q tail first) (out @ [y]) q p ps (m_next m y) qs"
proof -
  from assms obtain r where o: "dseg (m_next m) (m_prev m) None first out tail r" and q: "q = Some y"
    by (auto simp: merging_def)
  show "q = Some y" by (rule q)
  have d: "distinct out" "y \<notin> set out" "set ps \<inter> set out = {}" "set qs \<inter> set out = {}"
    using assms by (auto simp: merging_def)
  from emit_out [OF o d(1,2)] assms show "merging (emit_links q tail m) (emit_first q tail first) (out @ [y]) q p ps (m_next m y) qs"
    by (auto simp: merging_def q emit_rest [OF o d(3)] emit_rest [OF o d(4)])
qed


lemma unat_pred_u32: "unat (w :: u32) = Suc n \<Longrightarrow> unat (w - 1) = n \<and> w \<noteq> 0"
  by (metis diff_Suc_1 unat_0 unat_minus_one nat.distinct(1))

text \<open>What the merge loop returns: the two runs are merged behind \<open>out\<close>, and \<open>q\<close> points to what is left.\<close>

definition merged ::
    "'e mem \<Rightarrow> 'e list \<Rightarrow> 'e list \<times> 'e list \<Rightarrow> ('e mem \<times> 'e option \<times> 'e option \<times> 'e option) result option \<Rightarrow> bool" where
  "merged m out r res \<longleftrightarrow> (\<exists>m' q' tail' first'. res = Some (Inr (m', q', tail', first'))
     \<and> merging m' first' (out @ fst r) tail' None [] q' (snd r) \<and> resorted m m')"

lemma merged_step:
  "resorted m m1 \<Longrightarrow> merged m1 (out @ [x]) r res \<Longrightarrow> merged m out (x # fst r, snd r) res"
  by (auto simp: merged_def dest: resorted_trans)

lemma srt_merge_links_refines:
  assumes "merging m first out tail p ps q qs" and "unat psize = length ps" and "unat qsize = n"
  shows "merged m out (srt_merge cmpfcn ps qs n) (srt_merge_links cmpfcn p psize q qsize tail first m)"
  using assms
proof (induction cmpfcn ps qs n arbitrary: m first out tail p q psize qsize rule: srt_merge.induct [case_names none right left both])
  case (none c n)
  then have "psize = 0" "q = None" by (simp_all add: unat_eq_0 merging_def)
  with none.prems(1) show ?case
    by (subst srt_merge_links.simps) (auto simp: merged_def merging_def resorted_def)
next
  case (right c y qs n)
  have ps: "psize = 0" using right.prems(2) by (simp add: unat_eq_0)
  show ?case
  proof (cases "n = 0")
    case True
    then have "qsize = 0" using right.prems(3) by (simp add: unat_eq_0)
    with ps True right.prems(1) show ?thesis
      by (subst srt_merge_links.simps) (auto simp: merged_def merging_def resorted_def)
  next
    case False
    then obtain k where k: "n = Suc k" by (cases n) auto
    note q = merging_q [OF right.prems(1)]
    have qs: "qsize \<noteq> 0" "unat (qsize - 1) = n - 1" using unat_pred_u32 [of qsize k] right.prems(3) k by auto
    have "merged (emit_links q tail m) (out @ [y]) (srt_merge c [] qs (n - 1))
        (srt_merge_links c p psize (m_next m y) (qsize - 1) q (emit_first q tail first) (emit_links q tail m))"
      using right.IH [OF False q(2) right.prems(2) qs(2)] .
    from merged_step [OF resorted_emit this] show ?thesis
      using ps qs(1) False q(1) by (subst srt_merge_links.simps) (simp add: Let_def)
  qed
next
  case (left c x ps n)
  note p = merging_p [OF left.prems(1)]
  have ps: "psize \<noteq> 0" "unat (psize - 1) = length ps" using unat_pred_u32 [of psize "length ps"] left.prems(2) by auto
  have q: "q = None" using left.prems(1) by (simp add: merging_def)
  have "merged (emit_links p tail m) (out @ [x]) (srt_merge c ps [] n)
      (srt_merge_links c (m_next m x) (psize - 1) q qsize p (emit_first p tail first) (emit_links p tail m))"
    using left.IH [OF p(2) ps(2) left.prems(3)] .
  from merged_step [OF resorted_emit this] show ?case
    using ps(1) q p(1) by (subst srt_merge_links.simps) (simp add: Let_def)
next
  case (both c x ps y qs n)
  note p = merging_p [OF both.prems(1)] and q = merging_q [OF both.prems(1)]
  have ps: "psize \<noteq> 0" "unat (psize - 1) = length ps" using unat_pred_u32 [of psize "length ps"] both.prems(2) by auto
  show ?case
  proof (cases "n = 0 \<or> c x y \<le> 0")
    case True
    have "merged (emit_links p tail m) (out @ [x]) (srt_merge c ps (y # qs) n)
        (srt_merge_links c (m_next m x) (psize - 1) q qsize p (emit_first p tail first) (emit_links p tail m))"
      using True both.IH(1) [OF _ p(2) ps(2) both.prems(3)] both.IH(2) [OF _ _ p(2) ps(2) both.prems(3)] by blast
    from merged_step [OF resorted_emit this] show ?thesis
      using ps(1) p(1) q(1) True both.prems(3) by (subst srt_merge_links.simps) (auto simp: Let_def unat_eq_0)
  next
    case False
    then obtain k where k: "n = Suc k" by (cases n) auto
    have qs: "qsize \<noteq> 0" "unat (qsize - 1) = n - 1" using unat_pred_u32 [of qsize k] both.prems(3) k by auto
    have "merged (emit_links q tail m) (out @ [y]) (srt_merge c (x # ps) qs (n - 1))
        (srt_merge_links c p psize (m_next m y) (qsize - 1) q (emit_first q tail first) (emit_links q tail m))"
      using False both.IH(3) [OF _ _ q(2) both.prems(2) qs(2)] by simp
    from merged_step [OF resorted_emit this] show ?thesis
      using ps(1) p(1) q(1) qs(1) False by (subst srt_merge_links.simps) (simp add: Let_def)
  qed
qed

text \<open>Counting off a run.\<close>

lemma unat_succ_u32: "i < (j :: u32) \<Longrightarrow> unat (i + 1) = Suc (unat i) \<and> i + 1 \<le> j"
proof -
  assume "i < j"
  then have "unat i < unat j" "unat j < 4294967296" using unsigned_less [of j] by (simp_all add: word_less_nat_alt)
  then have "unat (i + 1) = Suc (unat i)" by (simp add: unat_word_ariths)
  with \<open>unat i < unat j\<close> show ?thesis by (simp add: word_le_nat_alt)
qed

lemma srt_run_refines:
  assumes "nseg (m_next m) q xs None" and "i \<le> insize" and "xs = [] \<Longrightarrow> i = insize"
  shows "\<exists>q' j. srt_run m insize i q i = Some (Inr (q', j))
    \<and> unat j = unat i + min (length xs) (unat insize - unat i)
    \<and> nseg (m_next m) q (take (unat insize - unat i) xs) q' \<and> nseg (m_next m) q' (drop (unat insize - unat i) xs) None"
  using assms
proof (induction xs arbitrary: q i)
  case Nil
  then show ?case by (subst srt_run.simps) simp
next
  case (Cons x xs)
  have q: "q = Some x" and nx: "nseg (m_next m) (m_next m x) xs None" using Cons.prems(1) by simp_all
  show ?case
  proof (cases "i = insize")
    case True
    with Cons.prems(1) show ?thesis by (subst srt_run.simps) simp
  next
    case False
    then have i: "i < insize" using Cons.prems(2) by simp
    note su = unat_succ_u32 [OF i]
    have d: "unat insize - unat i = Suc (unat insize - unat (i + 1))" using i su by (simp add: word_less_nat_alt)
    show ?thesis
    proof (cases "m_next m x")
      case None
      then have "xs = []" using nx by simp
      with None q i su d show ?thesis by (subst srt_run.simps) simp
    next
      case (Some y)
      then have "xs \<noteq> []" using nx by auto
      with Cons.IH [OF nx] su obtain q' j where r: "srt_run m insize (i + 1) (m_next m x) (i + 1) = Some (Inr (q', j))"
        "unat j = unat (i + 1) + min (length xs) (unat insize - unat (i + 1))"
        "nseg (m_next m) (m_next m x) (take (unat insize - unat (i + 1)) xs) q'"
        "nseg (m_next m) q' (drop (unat insize - unat (i + 1)) xs) None" by blast
      have "srt_run m insize i q i = Some (Inr (q', j))"
        using i Some q r(1) by (subst srt_run.simps) simp
      with r(2-4) d su q show ?thesis by simp
    qed
  qed
qed

subsection \<open>Passes\<close>

lemma srt_pass_links_refines:
  assumes n: "insize \<noteq> 0"
    and "dseg (m_next m) (m_prev m) None first out tail r0" and "nseg (m_next m) p xs None" and "distinct (out @ xs)"
    and "srt_pass cmpfcn insize xs = Some (ys, k)"
  shows "\<exists>m' tail' first'. srt_pass_links cmpfcn insize p tail first nmerges m = Some (Inr (m', tail', first', nmerges + k))
    \<and> (\<exists>r. dseg (m_next m') (m_prev m') None first' (out @ ys) tail' r) \<and> distinct (out @ ys) \<and> resorted m m'"
  using assms(2-)
proof (induction "length xs" arbitrary: m first out tail r0 p xs ys k nmerges rule: less_induct)
  case less
  show ?case
  proof (cases "xs = []")
    case True
    then have "p = None" "ys = []" "k = 0" using less.prems(2,4) by (simp_all add: srt_pass.simps [of cmpfcn insize "[]"])
    with less.prems(1,3) True show ?thesis by (subst srt_pass_links.simps) (auto simp: resorted_def)
  next
    case False
    let ?n = "unat insize"
    have n0: "0 < ?n" using n by (simp add: unat_gt_0)
    have i0: "unat (0 :: u32) = 0" by simp
    from srt_run_refines [OF less.prems(2), of 0 insize] False obtain q j where
      run: "srt_run m insize 0 p 0 = Some (Inr (q, j))" "unat j = min (length xs) ?n"
      "nseg (m_next m) p (take ?n xs) q" "nseg (m_next m) q (drop ?n xs) None" by auto
    have "merging m first out tail p (take ?n xs) q (drop ?n xs)"
      using less.prems(1,3) run(3,4) by (auto simp: merging_def)
    from srt_merge_links_refines [OF this, of j insize ?n cmpfcn] run(2)
    obtain m1 q1 tail1 first1 where mg: "srt_merge_links cmpfcn p j q insize tail first m = Some (Inr (m1, q1, tail1, first1))"
      "merging m1 first1 (out @ fst (srt_merge cmpfcn (take ?n xs) (drop ?n xs) ?n)) tail1 None []
         q1 (snd (srt_merge cmpfcn (take ?n xs) (drop ?n xs) ?n))" "resorted m m1"
      by (auto simp: merged_def)
    let ?r = "srt_merge cmpfcn (take ?n xs) (drop ?n xs) ?n"
    have rest: "snd ?r = drop (2 * ?n) xs" by (subst srt_merge_parts) (simp add: mult_2)
    from less.prems(4) False obtain zs l where z: "srt_pass cmpfcn insize (snd ?r) = Some (zs, l)" "ys = fst ?r @ zs" "k = l + 1"
      by (subst (asm) srt_pass.simps) (auto simp: Let_def bind_eq_Some_conv)
    have len: "length (snd ?r) < length xs" using False n0 unfolding rest by (cases xs) simp_all
    from mg(2) obtain r1 where d1: "dseg (m_next m1) (m_prev m1) None first1 (out @ fst ?r) tail1 r1"
      and p1: "nseg (m_next m1) q1 (snd ?r) None" "distinct ((out @ fst ?r) @ snd ?r)" by (auto simp: merging_def)
    from less.hyps [OF len d1 p1 z(1), of "nmerges + 1"] obtain m2 tail2 first2 where
      f: "srt_pass_links cmpfcn insize q1 tail1 first1 (nmerges + 1) m1 = Some (Inr (m2, tail2, first2, nmerges + 1 + l))"
      "\<exists>r. dseg (m_next m2) (m_prev m2) None first2 ((out @ fst ?r) @ zs) tail2 r" "distinct ((out @ fst ?r) @ zs)" "resorted m1 m2"
      by blast
    obtain y where "p = Some y" using less.prems(2) False by (cases xs) auto
    then have "srt_pass_links cmpfcn insize p tail first nmerges m = Some (Inr (m2, tail2, first2, nmerges + k))"
      using run(1) mg(1) f(1) z(3) by (subst srt_pass_links.simps) (simp add: ac_simps)
    with f(2-4) z(2) resorted_trans [OF mg(3) f(4)] show ?thesis by auto
  qed
qed


subsection \<open>Rounds\<close>

lemma end_list_dseg:
  assumes "dseg (m_next m) (m_prev m) None first xs tail r" and "distinct xs" and "xs \<noteq> []"
  shows "dseg (m_next (end_list tail m)) (m_prev (end_list tail m)) None first xs tail None"
proof -
  have "tail = Some (last xs)" using dseg_last [OF assms(1)] assms(3) by simp
  with dseg_set_next [OF assms] show ?thesis by (simp add: end_list_def)
qed

text \<open>The memory after a sort: only the list of items and its two ends changed.\<close>

definition relisted :: "'e mem \<Rightarrow> 'e mem \<Rightarrow> bool" where
  "relisted m m' \<longleftrightarrow> m' = m\<lparr>m_next := m_next m', m_prev := m_prev m', m_head := m_head m', m_tail := m_tail m'\<rparr>"

lemma relisted_resorted: "resorted m a \<Longrightarrow> relisted (end_list t a) b \<Longrightarrow> relisted m b"
  unfolding resorted_def relisted_def end_list_def by (cases m; cases a; cases b; cases t) simp_all

lemma relisted_end: "resorted m a \<Longrightarrow> relisted m ((end_list t a)\<lparr>m_tail := x, m_head := y\<rparr>)"
  unfolding resorted_def relisted_def end_list_def by (cases m; cases a; cases t) simp_all

lemma srt_rounds_links_refines:
  assumes c: "compares c k" and l: "length xs \<le> 4294967296" "xs \<noteq> []" and "j < 32"
    and "nseg (m_next m) first (chunk_sort k (2 ^ j) xs) None" and "distinct (chunk_sort k (2 ^ j) xs)"
  shows "\<exists>m'. srt_rounds_links c (2 ^ j) first m = Some (Inr m')
    \<and> dseg (m_next m') (m_prev m') None (m_head m') (sort_key k xs) (m_tail m') None \<and> relisted m m'"
  using assms(4-)
proof (induction "31 - j" arbitrary: j m first rule: less_induct)
  case less
  let ?xs = "chunk_sort k (2 ^ j) xs" and ?ys = "chunk_sort k (2 * 2 ^ j) xs"
  let ?n = "of_nat ((length xs + 2 * 2 ^ j - 1) div (2 * 2 ^ j)) :: u32"
  have u: "unat (2 ^ j :: u32) = 2 ^ j" using unat_pow2_u32 [OF less.prems(1)] .
  then have n0: "(2 ^ j :: u32) \<noteq> 0" by (metis power_not_zero unat_0 zero_neq_numeral)
  have pass: "srt_pass c (2 ^ j) ?xs = Some (?ys, ?n)" using srt_pass_chunks [OF c n0, unfolded u, of xs] .
  have ne: "?ys \<noteq> []" using l(2) length_chunk_sort [of k "2 * 2 ^ j" xs] by (metis length_0_conv)
  have "dseg (m_next m) (m_prev m) None None [] None None" by simp
  from srt_pass_links_refines [OF n0 this less.prems(2) _ pass, of 0] less.prems(3) obtain m1 t f r where
    p: "srt_pass_links c (2 ^ j) first None None 0 m = Some (Inr (m1, t, f, ?n))"
    "dseg (m_next m1) (m_prev m1) None f ?ys t r" "distinct ?ys" "resorted m m1" by auto
  note d = end_list_dseg [OF p(2,3) ne]
  show ?case
  proof (cases "length xs \<le> 2 * 2 ^ j")
    case True
    then have "?ys = sort_key k xs" by (rule chunk_sort_whole)
    moreover have "?n \<le> 1" using few_merges [OF l(1), of "2 ^ j"] True by simp
    ultimately show ?thesis
      using p(1) d relisted_end [OF p(4)] by (subst srt_rounds_links.simps) simp
  next
    case False
    have "j < 31"
    proof (rule ccontr)
      assume "\<not> j < 31"
      then have "j = 31" using less.prems(1) by simp
      with False l(1) show False by simp
    qed
    then have j: "31 - Suc j < 31 - j" "Suc j < 32" by simp_all
    have e: "(2 * 2 ^ j :: nat) = 2 ^ Suc j" "(2 ^ j * 2 :: u32) = 2 ^ Suc j" by simp_all
    from less.hyps [OF j, of "end_list t m1" f] dseg_nseg [OF d] p(3) obtain m' where
      r: "srt_rounds_links c (2 ^ Suc j) f (end_list t m1) = Some (Inr m')"
      "dseg (m_next m') (m_prev m') None (m_head m') (sort_key k xs) (m_tail m') None" "relisted (end_list t m1) m'"
      unfolding e by blast
    have "\<not> ?n \<le> 1" using few_merges [OF l(1), of "2 ^ j"] False by simp
    then have "srt_rounds_links c (2 ^ j) first m = Some (Inr m')"
      using p(1) r(1) by (subst srt_rounds_links.simps) (simp add: e(2) del: power_Suc)
    with r(2) relisted_resorted [OF p(4) r(3)] show ?thesis by blast
  qed
qed

text \<open>
  C12: The merge sort on the pointers returns and refines the sort on lists: it relinks the items in place, following
  the old links of the two runs while the merged list grows behind them, and leaves a memory that holds the
  table with its items in the order of the stable sort; \<open>head\<close> and \<open>tail\<close> are its ends, every backward link
  mirrors the forward link, and the buckets are untouched.
\<close>

theorem links_refine_sort:
  fixes k :: "'e \<Rightarrow> 'k :: linorder"
  assumes l: "linked m head" and ok: "uthash_ok head" and c: "compares cmpfcn k"
    and n: "length (HASH_ITER head) \<le> 4294967296"
  shows "\<exists>m' head'. HASH_SRT_links cmpfcn m = Some (Inr m') \<and> HASH_SRT cmpfcn head = Some head' \<and> linked m' head'
    \<and> HASH_ITER head' = sort_key k (HASH_ITER head)"
proof (cases head)
  case None
  then show ?thesis using l by (simp add: HASH_SRT_links_def HASH_SRT_def linked_def HASH_ITER_def)
next
  case (Some t)
  let ?xs = "map hh_elt (app_list t)" and ?l = "sort_key (\<lambda>h. k (hh_elt h)) (app_list t)"
  have lt: "linked_table m t" and okt: "uthash_ok (Some t)" using l ok by (simp_all add: linked_def Some)
  have d: "distinct ?xs" and ne: "?xs \<noteq> []" using okt by (simp_all add: uthash_ok_def)
  have s: "dseg (m_next m) (m_prev m) None (m_head m) ?xs (m_tail m) None" using lt by (simp add: linked_table_def)
  have n': "length ?xs \<le> 4294967296" using n by (simp add: Some HASH_ITER_def)
  have one: "chunk_sort k (2 ^ 0) ?xs = ?xs" using chunk_sort_one [of k ?xs] by simp
  have path: "nseg (m_next m) (m_head m) (chunk_sort k (2 ^ 0) ?xs) None" unfolding one by (rule dseg_nseg [OF s])
  have dist: "distinct (chunk_sort k (2 ^ 0) ?xs)" unfolding one by (rule d)
  from srt_rounds_links_refines [OF c n' ne _ path dist] obtain m' where
    r: "srt_rounds_links cmpfcn 1 (m_head m) m = Some (Inr m')"
    "dseg (m_next m') (m_prev m') None (m_head m') (sort_key k ?xs) (m_tail m') None" "relisted m m'" by auto
  have "m_head m \<noteq> None" using dseg_first [OF s] ne by (auto split: list.splits)
  then have srt: "HASH_SRT_links cmpfcn m = Some (Inr m')" using r(1) by (auto simp: HASH_SRT_links_def)
  have "HASH_SRT cmpfcn head = Some (Some (t\<lparr>app_list := ?l\<rparr>))"
    using HASH_SRT_sorts [OF c] n' by (simp add: Some)
  moreover have "linked m' (Some (t\<lparr>app_list := ?l\<rparr>))"
  proof -
    have "dseg (m_next m') (m_prev m') None (m_head m') (map hh_elt ?l) (m_tail m') None"
      using r(2) by (simp only: map_sort_key)
    moreover have "list_all (\<lambda>h. m_key m' (hh_elt h) = hh_key h \<and> m_hashv m' (hh_elt h) = hh_hashv h) ?l"
      using lt r(3) by (cases m; cases m') (simp add: linked_table_def relisted_def list_all_iff)
    ultimately show ?thesis
      using lt r(3) unfolding linked_def linked_table_def relisted_def by (cases m; cases m') simp
  qed
  moreover have "HASH_ITER (Some (t\<lparr>app_list := ?l\<rparr>)) = sort_key k (HASH_ITER head)"
    by (simp add: Some HASH_ITER_def map_sort_key)
  ultimately show ?thesis using srt by blast
qed


theorem links_refine_sort_witness:
  "\<exists>m1 m2 m'. add_links True [97] (7 :: nat) no_table = Some (Inr m1) \<and> add_links True [98] 3 m1 = Some (Inr m2)
     \<and> m_head m2 = Some 7 \<and> HASH_SRT_links (\<lambda>a b. int a - int b) m2 = Some (Inr m') \<and> m_head m' = Some 3
     \<and> m_next m' 3 = Some 7"
proof -
  from one_linked obtain m h where m: "add_links True [97] (7 :: nat) no_table = Some (Inr m)" "linked m h" "uthash_ok h"
    "hash_room h" "hash_items h = [([97], 7)]" by blast
  have e: "3 \<notin> snd ` set (hash_items h)" using m(5) by simp
  from ut.add_total [OF m(3,4)] obtain h2 where h2: "HASH_ADD True [98] 3 h = Inr h2" by blast
  from ut.add_Inr [OF m(3) e h2] m(5) have ok: "uthash_ok h2" "HASH_ITER h2 = [7, 3]" by (simp_all add: HASH_ITER_items)
  from add_refines [OF m(2,3) e, of True "[98]"] h2 obtain m2 where m2: "add_links True [98] 3 m = Some (Inr m2)" "linked m2 h2"
    by (auto elim: rel_sum.cases)
  have "compares (\<lambda>a b. int a - int b) (\<lambda>n. n)" by (simp add: compares_def)
  from links_refine_sort [OF m2(2) ok(1) this] ok(2) obtain m' h' where
    r: "HASH_SRT_links (\<lambda>a b. int a - int b) m2 = Some (Inr m')" "linked m' h'" "HASH_ITER h' = [3, 7]" by auto
  have "m_head m' = Some 3" "m_next m' 3 = Some 7" "m_head m2 = Some 7"
    using linked_head [OF r(2)] linked_next [OF r(2), of "[]" 3 "[7]"] linked_head [OF m2(2)] r(3) ok(2) by simp_all
  with m(1) m2(1) r(1) show ?thesis by blast
qed

subsection \<open>Replacement\<close>

text \<open>The replacement on the links returns and does what the replacement on lists does.\<close>

lemma links_refine_replace:
  assumes l: "linked m head" and ok: "uthash_ok head" and e: "e \<notin> snd ` set (hash_items head)"
  shows "\<exists>r. replace_links malloc_ok key e m = Some r
    \<and> rel_sum (=) (rel_prod (=) linked) r (HASH_REPLACE malloc_ok key e head)"
proof -
  from ut.look_correct [OF ok, of key] obtain x where x: "HASH_FIND key head = Inr x"
    "case x of None \<Rightarrow> key \<notin> fst ` set (hash_items head) | Some y \<Rightarrow> (key, y) \<in> set (hash_items head)" by blast
  have "\<exists>m1 h1. (case x of None \<Rightarrow> Inr m | Some y \<Rightarrow> delete_links y m) = Inr m1
    \<and> (case x of None \<Rightarrow> Inr head | Some y \<Rightarrow> HASH_DEL y head) = Inr h1 \<and> linked m1 h1 \<and> uthash_ok h1
    \<and> e \<notin> snd ` set (hash_items h1)"
  proof (cases x)
    case None
    with l ok e show ?thesis by simp
  next
    case (Some y)
    with x(2) have y: "(key, y) \<in> set (hash_items head)" by simp
    from ut.del_correct [OF ok y] obtain h1 where h1: "HASH_DEL y head = Inr h1" "uthash_ok h1"
      "hash_items h1 = filter (\<lambda>p. snd p \<noteq> y) (hash_items head)" by blast
    have "y \<in> set (HASH_ITER head)" using y by (force simp: HASH_ITER_items)
    from delete_refines [OF l ok this] h1(1) obtain m1 where "delete_links y m = Inr m1" "linked m1 h1"
      by (auto elim: rel_sum.cases)
    with Some h1 e show ?thesis by auto
  qed
  then obtain m1 h1 where s: "(case x of None \<Rightarrow> Inr m | Some y \<Rightarrow> delete_links y m) = Inr m1"
    "(case x of None \<Rightarrow> Inr head | Some y \<Rightarrow> HASH_DEL y head) = Inr h1" "linked m1 h1" "uthash_ok h1"
    "e \<notin> snd ` set (hash_items h1)" by blast
  from add_refines [OF s(3-5), of malloc_ok key] obtain r where
    r: "add_links malloc_ok key e m1 = Some r" "rel_sum (=) linked r (HASH_ADD malloc_ok key e h1)" by blast
  have "replace_links malloc_ok key e m = obind (Some r) (\<lambda>m. Some (Inr (x, m)))"
    using find_refines [OF l ok, of key] x(1) s(1) r(1) by (simp add: replace_links_def)
  moreover have "HASH_REPLACE malloc_ok key e head = rbind (HASH_ADD malloc_ok key e h1) (\<lambda>h. Inr (x, h))"
    using x(1) s(2) by (simp add: HASH_REPLACE_def HASH_REPLACE_BYHASHVALUE_def HASH_FIND_def HASH_ADD_def)
  ultimately show ?thesis using r(2) by (auto elim: rel_sum.cases)
qed

end
