(* ===== verification/Uthash_Options.thy ===== *)
theory Uthash_Options
  imports Uthash_Order
begin

text \<open>
  The parts of \<open>uthash.h\<close> a build can switch on: the alternative hash functions (\<open>HASH_FUNCTION\<close>), the Bloom filter
  (\<open>HASH_BLOOM\<close>) and recoverable allocation failures (\<open>HASH_NONFATAL_OOM\<close>).  The daemon's build uses none of them;
  the properties say that a build that did would keep the behaviour of the table.  Keys are shorter than \<open>2 ^ 32\<close> bytes,
  so that their length is the 32-bit \<open>keylen\<close>.

  The functions that mix one symbol of the key at a time are instances of the locale \<open>mixing_hash\<close>: keys that differ in
  one symbol only do not collide.
\<close>

subsection \<open>Hash functions\<close>

definition ber_step :: "byte \<Rightarrow> u32 \<Rightarrow> u32" where
  "ber_step b hashv = (push_bit 5 hashv + hashv) + ucast b"

definition HASH_BER :: "byte list \<Rightarrow> u32" where
  "HASH_BER key = fold ber_step key 0"

definition sax_step :: "byte \<Rightarrow> u32 \<Rightarrow> u32" where
  "sax_step b hashv = hashv XOR (push_bit 5 hashv + drop_bit 2 hashv + ucast b)"

definition HASH_SAX :: "byte list \<Rightarrow> u32" where
  "HASH_SAX key = fold sax_step key 0"

definition fnv_step :: "byte \<Rightarrow> u32 \<Rightarrow> u32" where
  "fnv_step b hashv = (hashv XOR ucast b) * 16777619"

definition HASH_FNV :: "byte list \<Rightarrow> u32" where
  "HASH_FNV key = fold fnv_step key 2166136261"

definition oat_step :: "byte \<Rightarrow> u32 \<Rightarrow> u32" where
  "oat_step b hashv =
    (let hashv = hashv + ucast b;
         hashv = hashv + push_bit 10 hashv
     in hashv XOR drop_bit 6 hashv)"

definition oat_final :: "u32 \<Rightarrow> u32" where
  "oat_final hashv =
    (let hashv = hashv + push_bit 3 hashv;
         hashv = hashv XOR drop_bit 11 hashv
     in hashv + push_bit 15 hashv)"

definition HASH_OAT :: "byte list \<Rightarrow> u32" where
  "HASH_OAT key = oat_final (fold oat_step key 0)"

definition get16bits :: "byte list \<Rightarrow> u32" where
  "get16bits d = push_bit 8 (ucast (d ! 1)) + ucast (d ! 0)"

text \<open>The main loop takes four bytes at a time; the result is the hash and the up to three bytes left.\<close>

fun sfh_blocks :: "byte list \<Rightarrow> u32 \<Rightarrow> u32 \<times> byte list" where
  "sfh_blocks (a # b # c # d # key) hashv =
    (let hashv = hashv + get16bits [a, b];
         tmp = push_bit 11 (get16bits [c, d]) XOR hashv;
         hashv = push_bit 16 hashv XOR tmp
     in sfh_blocks key (hashv + drop_bit 11 hashv))"
| "sfh_blocks key hashv = (hashv, key)"

definition sfh_rest :: "byte list \<Rightarrow> u32 \<Rightarrow> u32" where
  "sfh_rest key hashv =
    (if length key = 3 then
       (let hashv = hashv + get16bits key;
            hashv = hashv XOR push_bit 16 hashv;
            hashv = hashv XOR push_bit 18 (ucast (key ! 2))
        in hashv + drop_bit 11 hashv)
     else if length key = 2 then
       (let hashv = hashv + get16bits key;
            hashv = hashv XOR push_bit 11 hashv
        in hashv + drop_bit 17 hashv)
     else if length key = 1 then
       (let hashv = hashv + ucast (key ! 0);
            hashv = hashv XOR push_bit 10 hashv
        in hashv + drop_bit 1 hashv)
     else hashv)"

definition HASH_SFH :: "byte list \<Rightarrow> u32" where
  "HASH_SFH key =
    (let r = sfh_blocks key 0xcafebabe;
         hashv = sfh_rest (snd r) (fst r);
         hashv = hashv XOR push_bit 3 hashv;
         hashv = hashv + drop_bit 5 hashv;
         hashv = hashv XOR push_bit 4 hashv;
         hashv = hashv + drop_bit 17 hashv;
         hashv = hashv XOR push_bit 25 hashv
     in hashv + drop_bit 6 hashv)"

definition MUR_ROTL32 :: "u32 \<Rightarrow> nat \<Rightarrow> u32" where
  "MUR_ROTL32 x r = push_bit r x OR drop_bit (32 - r) x"

definition MUR_FMIX :: "u32 \<Rightarrow> u32" where
  "MUR_FMIX h =
    (let h = h XOR drop_bit 16 h;
         h = h * 0x85ebca6b;
         h = h XOR drop_bit 13 h;
         h = h * 0xc2b2ae35
     in h XOR drop_bit 16 h)"

definition mur_k1 :: "u32 \<Rightarrow> u32" where
  "mur_k1 k1 = MUR_ROTL32 (k1 * 0xcc9e2d51) 15 * 0x1b873593"

definition mur_step :: "u32 \<Rightarrow> u32 \<Rightarrow> u32" where
  "mur_step k1 h1 = MUR_ROTL32 (h1 XOR mur_k1 k1) 13 * 5 + 0xe6546b64"

text \<open>The 32-bit blocks of the key as the little-endian machine reads them, and the bytes left.\<close>

fun mur_split :: "byte list \<Rightarrow> u32 list \<times> byte list" where
  "mur_split (a # b # c # d # key) = (let r = mur_split key in (le32 a b c d # fst r, snd r))"
| "mur_split key = ([], key)"

definition mur_tail :: "byte list \<Rightarrow> u32 \<Rightarrow> u32" where
  "mur_tail rest h1 =
    (if rest = [] then h1
     else
       let k1 = 0;
           k1 = (if length rest = 3 then k1 XOR push_bit 16 (ucast (rest ! 2)) else k1);
           k1 = (if 2 \<le> length rest then k1 XOR push_bit 8 (ucast (rest ! 1)) else k1);
           k1 = k1 XOR ucast (rest ! 0)
       in h1 XOR mur_k1 k1)"

definition HASH_MUR :: "byte list \<Rightarrow> u32" where
  "HASH_MUR key =
    (let r = mur_split key;
         h1 = fold mur_step (fst r) 0xf88D5353;
         h1 = mur_tail (snd r) h1;
         h1 = h1 XOR of_nat (length key)
     in MUR_FMIX h1)"

subsection \<open>Mixing steps that lose nothing\<close>

lemma inj_mult_u32:
  assumes "p * q = (1 :: u32)"
  shows "inj (\<lambda>x. x * p)"
proof (rule injI)
  fix x y :: u32
  assume "x * p = y * p"
  then have "x * p * q = y * p * q" by (rule arg_cong)
  then show "x = y" by (simp only: mult.assoc assms mult_1_right)
qed

lemma inj_add_u32: "inj (\<lambda>x :: u32. x + c)"
  by (simp add: inj_def)

lemma inj_xor_u32: "inj (\<lambda>x :: u32. x XOR c)"
proof (rule injI)
  fix x y :: u32
  assume "x XOR c = y XOR c"
  then have "(x XOR c) XOR c = (y XOR c) XOR c" by (rule arg_cong)
  then show "x = y" by (simp only: xor.assoc xor_self_eq xor.right_neutral)
qed

text \<open>A word can be recovered from its exclusive or with a right shift of itself, from the top bit down.\<close>

lemma inj_xorshift_u32:
  assumes "0 < n"
  shows "inj (\<lambda>x :: u32. x XOR drop_bit n x)"
proof (rule injI)
  fix x y :: u32
  assume e: "x XOR drop_bit n x = y XOR drop_bit n y"
  show "x = y"
  proof (rule bit_word_eqI)
    fix i :: nat
    assume "i < LENGTH(32)"
    show "bit x i = bit y i"
    proof (induction "32 - i" arbitrary: i rule: less_induct)
      case less
      have "bit (x XOR drop_bit n x) i = bit (y XOR drop_bit n y) i" by (simp add: e)
      then have b: "(bit x i \<noteq> bit x (n + i)) = (bit y i \<noteq> bit y (n + i))" by (simp add: bit_simps)
      show ?case
      proof (cases "i < 32")
        case True
        have "bit x (n + i) = bit y (n + i)" using True assms by (intro less) simp
        with b show ?thesis by blast
      next
        case False
        then show ?thesis using bit_imp_le_length [of x i] bit_imp_le_length [of y i] by auto
      qed
    qed
  qed
qed

lemma bit_rotl:
  assumes "0 < r" and "r < 32" and "i < 32"
  shows "bit (MUR_ROTL32 x r) ((i + r) mod 32) = bit x i"
proof -
  have up: "bit (push_bit r x) j \<longleftrightarrow> r \<le> j \<and> j < 32 \<and> bit x (j - r)" for j
    by (auto simp: bit_push_bit_iff)
  have down: "bit (drop_bit (32 - r) x) j \<longleftrightarrow> bit x (32 - r + j)" for j by (simp add: bit_drop_bit_eq)
  have out: "\<not> bit x j" if "32 \<le> j" for j using bit_imp_le_length [of x j] that by auto
  show ?thesis
  proof (cases "i + r < 32")
    case True
    have "\<not> bit x (32 - r + (i + r))" using assms by (intro out) simp
    with True assms show ?thesis by (simp add: MUR_ROTL32_def bit_or_iff up down)
  next
    case False
    then have "(i + r) mod 32 = i + r - 32" using assms by (simp add: mod_if)
    moreover have "32 - r + (i + r - 32) = i" "\<not> r \<le> i + r - 32" using False assms by simp_all
    ultimately show ?thesis by (simp add: MUR_ROTL32_def bit_or_iff up down)
  qed
qed

lemma inj_rotl:
  assumes "0 < r" and "r < 32"
  shows "inj (\<lambda>x. MUR_ROTL32 x r)"
proof (rule injI)
  fix x y
  assume e: "MUR_ROTL32 x r = MUR_ROTL32 y r"
  show "x = y"
  proof (rule bit_word_eqI)
    fix i :: nat
    assume "i < LENGTH(32)"
    then have i: "i < 32" by simp
    from bit_rotl [OF assms i, of x] bit_rotl [OF assms i, of y] e show "bit x i = bit y i" by simp
  qed
qed

lemma add_push_bit: "x + push_bit n x = x * (2 ^ n + 1)" for x :: u32
  by (simp add: push_bit_eq_mult algebra_simps)

lemma inj_ucast_byte: "(ucast b :: u32) = ucast c \<longleftrightarrow> b = (c :: byte)"
proof
  assume "(ucast b :: u32) = ucast c"
  then have "unat (ucast b :: u32) = unat (ucast c :: u32)" by simp
  then have "unat b = unat c"
    using byte_less_256 [of b] byte_less_256 [of c] by (simp add: unsigned_ucast_eq take_bit_eq_mod)
  then show "b = c" by (simp only: word_unat_eq_iff)
qed simp

subsection \<open>Hashes that separate keys with one different symbol\<close>

locale mixing_hash =
  fixes step :: "'c \<Rightarrow> u32 \<Rightarrow> u32" and fin :: "u32 \<Rightarrow> u32"
  assumes step_state: "inj (step c)"
    and step_symbol: "step c s = step d s \<Longrightarrow> c = d"
    and fin_inj: "inj fin"
begin

lemma fold_inj: "inj (fold step cs)"
proof (induction cs)
  case (Cons c cs)
  then show ?case using inj_compose [OF Cons.IH step_state [of c]] by (simp add: comp_def)
qed (simp add: inj_on_def)

lemma one_symbol: "fin (fold step (us @ c # vs) s) = fin (fold step (us @ d # vs) s) \<longleftrightarrow> c = d"
proof
  assume "fin (fold step (us @ c # vs) s) = fin (fold step (us @ d # vs) s)"
  then have "fold step vs (step c (fold step us s)) = fold step vs (step d (fold step us s))"
    using fin_inj by (simp add: inj_eq)
  then have "step c (fold step us s) = step d (fold step us s)" using fold_inj [of vs] by (simp add: inj_eq)
  then show "c = d" by (rule step_symbol)
qed simp

end

interpretation ber: mixing_hash ber_step id
proof unfold_locales
  fix c d :: byte and s :: u32
  have "ber_step c = (\<lambda>x. x + ucast c) \<circ> (\<lambda>x. x * 33)"
    by (auto simp: ber_step_def push_bit_eq_mult fun_eq_iff)
  then show "inj (ber_step c)"
    using inj_compose [OF inj_add_u32 inj_mult_u32 [of 33 1041204193]] by simp
  show "ber_step c s = ber_step d s \<Longrightarrow> c = d" by (simp add: ber_step_def inj_ucast_byte)
qed simp

interpretation fnv: mixing_hash fnv_step id
proof unfold_locales
  fix c d :: byte and s :: u32
  have m: "inj (\<lambda>x :: u32. x * 16777619)" by (rule inj_mult_u32 [of _ 899433627]) simp
  have "fnv_step c = (\<lambda>x. x * 16777619) \<circ> (\<lambda>x. x XOR ucast c)" by (auto simp: fnv_step_def)
  then show "inj (fnv_step c)" using inj_compose [OF m inj_xor_u32] by simp
  assume "fnv_step c s = fnv_step d s"
  then have "s XOR ucast c = s XOR ucast d"
    using injD [OF m, of "s XOR ucast c" "s XOR ucast d"] by (simp add: fnv_step_def)
  then show "c = d"
    using injD [OF inj_xor_u32 [of s], of "ucast c" "ucast d"] by (simp add: xor.commute inj_ucast_byte)
qed simp

lemma oat_mix: "inj (\<lambda>x :: u32. let x = x + push_bit 10 x in x XOR drop_bit 6 x)"
proof -
  have "inj (\<lambda>x :: u32. x * 1025)" by (rule inj_mult_u32 [of _ 3222273025]) simp
  from inj_compose [OF inj_xorshift_u32 [of 6] this] show ?thesis by (simp add: add_push_bit comp_def Let_def)
qed

interpretation oat: mixing_hash oat_step oat_final
proof unfold_locales
  fix c d :: byte and s :: u32
  show "inj (oat_step c)" using inj_compose [OF oat_mix inj_add_u32 [of "ucast c"]] by (simp add: oat_step_def [abs_def] comp_def Let_def)
  show "oat_step c s = oat_step d s \<Longrightarrow> c = d"
    using injD [OF oat_mix, of "s + ucast c" "s + ucast d"] by (simp add: oat_step_def Let_def inj_ucast_byte)
next
  have "inj (\<lambda>x :: u32. x * 9)" by (rule inj_mult_u32 [of _ 954437177]) simp
  moreover have "inj (\<lambda>x :: u32. x * 32769)" by (rule inj_mult_u32 [of _ 1073709057]) simp
  ultimately show "inj oat_final"
    using inj_compose [OF _ inj_compose [OF inj_xorshift_u32 [of 11]]]
    by (simp add: oat_final_def [abs_def] add_push_bit comp_def Let_def)
qed


lemma inj_mur_k1: "inj mur_k1"
proof -
  have "inj (\<lambda>x :: u32. x * 0xcc9e2d51)" by (rule inj_mult_u32 [of _ 3739302833]) simp
  moreover have "inj (\<lambda>x :: u32. x * 0x1b873593)" by (rule inj_mult_u32 [of _ 1458385051]) simp
  ultimately show ?thesis
    using inj_compose [OF _ inj_compose [OF inj_rotl [of 15]]] by (simp add: mur_k1_def [abs_def] comp_def)
qed

lemma inj_MUR_FMIX: "inj MUR_FMIX"
proof -
  have a: "inj (\<lambda>x :: u32. x * 0x85ebca6b)" by (rule inj_mult_u32 [of _ 2781581891]) simp
  have b: "inj (\<lambda>x :: u32. x * 0xc2b2ae35)" by (rule inj_mult_u32 [of _ 2127672349]) simp
  have x: "inj (\<lambda>x :: u32. x XOR drop_bit 16 x)" "inj (\<lambda>x :: u32. x XOR drop_bit 13 x)"
    by (simp_all add: inj_xorshift_u32)
  from inj_compose [OF x(1) inj_compose [OF b inj_compose [OF x(2) inj_compose [OF a x(1)]]]]
  show ?thesis by (simp add: MUR_FMIX_def [abs_def] comp_def Let_def)
qed

interpretation mur: mixing_hash mur_step "\<lambda>h. MUR_FMIX (mur_tail rest h XOR n)" for rest n
proof unfold_locales
  fix c d s :: u32
  have m: "inj (\<lambda>x :: u32. x * 5)" by (rule inj_mult_u32 [of _ 3435973837]) simp
  have r: "inj (\<lambda>x. MUR_ROTL32 x 13 * 5 + 0xe6546b64)"
    using inj_compose [OF inj_add_u32 inj_compose [OF m inj_rotl [of 13]]] by (simp add: comp_def)
  show "inj (mur_step c)" using inj_compose [OF r inj_xor_u32] by (simp add: mur_step_def [abs_def] comp_def)
  assume "mur_step c s = mur_step d s"
  then have "s XOR mur_k1 c = s XOR mur_k1 d"
    using injD [OF r, of "s XOR mur_k1 c" "s XOR mur_k1 d"] by (simp add: mur_step_def)
  then have "mur_k1 c = mur_k1 d" using injD [OF inj_xor_u32 [of s], of "mur_k1 c" "mur_k1 d"] by (simp add: xor.commute)
  then show "c = d" by (rule injD [OF inj_mur_k1])
next
  have "inj (mur_tail rest)" by (cases "rest = []") (simp_all add: mur_tail_def [abs_def] Let_def inj_xor_u32)
  from inj_compose [OF inj_MUR_FMIX inj_compose [OF inj_xor_u32 this]]
  show "inj (\<lambda>h. MUR_FMIX (mur_tail rest h XOR n))" by (simp add: comp_def)
qed

lemma le32_eq: "le32 b1 b2 b3 b4 = le32 c1 c2 c3 c4 \<longleftrightarrow> b1 = c1 \<and> b2 = c2 \<and> b3 = c3 \<and> b4 = c4"
proof
  assume "le32 b1 b2 b3 b4 = le32 c1 c2 c3 c4"
  then have "unat (le32 b1 b2 b3 b4) = unat (le32 c1 c2 c3 c4)" by (rule arg_cong)
  then have e: "unat b1 + 256 * (unat b2 + 256 * (unat b3 + 256 * unat b4)) = unat c1 + 256 * (unat c2 + 256 * (unat c3 + 256 * unat c4))"
    by (simp only: unat_le32)
  have digit: "x = y \<and> m = n" if "x + 256 * m = y + 256 * n" "x < 256" "y < 256" for x y m n :: nat
    using that(2,3) arg_cong [OF that(1), of "\<lambda>z. z mod 256"] arg_cong [OF that(1), of "\<lambda>z. z div 256"] by simp
  from digit [OF e] have "unat b1 = unat c1" "unat b2 + 256 * (unat b3 + 256 * unat b4) = unat c2 + 256 * (unat c3 + 256 * unat c4)"
    by (simp_all add: byte_less_256)
  moreover from digit [OF this(2)] have "unat b2 = unat c2" "unat b3 + 256 * unat b4 = unat c3 + 256 * unat c4"
    by (simp_all add: byte_less_256)
  moreover from digit [OF this(2)] have "unat b3 = unat c3" "unat b4 = unat c4" by (simp_all add: byte_less_256)
  ultimately show "b1 = c1 \<and> b2 = c2 \<and> b3 = c3 \<and> b4 = c4" by (simp only: word_unat_eq_iff)
qed simp

lemma mur_split_append:
  "4 dvd length us \<Longrightarrow> mur_split (us @ ks) = (fst (mur_split us) @ fst (mur_split ks), snd (mur_split ks))"
proof (induction us rule: mur_split.induct [case_names block n0 n1 n2 n3])
  case (block a b c d key)
  then have "4 dvd length key" by simp presburger
  with block show ?case by (simp add: Let_def)
qed (simp_all, presburger+)

text \<open>
  Keys of which one byte differs have different hashes under Bernstein's function, FNV-1a and the one-at-a-time
  function, and keys of which one aligned 32-bit block differs have different hashes under MurmurHash: every
  step of these functions, with its wrap-around multiplications, shifts and rotations, loses nothing of the
  state and nothing of the symbol it mixes in.
\<close>

theorem hashes_separate_neighbours:
  "(HASH_BER (us @ b # vs) = HASH_BER (us @ c # vs) \<longleftrightarrow> b = c)
   \<and> (HASH_FNV (us @ b # vs) = HASH_FNV (us @ c # vs) \<longleftrightarrow> b = c)
   \<and> (HASH_OAT (us @ b # vs) = HASH_OAT (us @ c # vs) \<longleftrightarrow> b = c)
   \<and> (4 dvd length us \<longrightarrow>
        (HASH_MUR (us @ [b1, b2, b3, b4] @ vs) = HASH_MUR (us @ [c1, c2, c3, c4] @ vs)
          \<longleftrightarrow> [b1, b2, b3, b4] = [c1, c2, c3, c4]))"
proof (intro conjI impI)
  show "HASH_BER (us @ b # vs) = HASH_BER (us @ c # vs) \<longleftrightarrow> b = c"
    using ber.one_symbol [of us b vs 0 c] by (simp add: HASH_BER_def)
  show "HASH_FNV (us @ b # vs) = HASH_FNV (us @ c # vs) \<longleftrightarrow> b = c"
    using fnv.one_symbol [of us b vs 2166136261 c] by (simp add: HASH_FNV_def)
  show "HASH_OAT (us @ b # vs) = HASH_OAT (us @ c # vs) \<longleftrightarrow> b = c"
    using oat.one_symbol [of us b vs 0 c] by (simp add: HASH_OAT_def)
  assume u: "4 dvd length us"
  let ?k = "fst (mur_split us)" and ?v = "mur_split vs"
  have s: "mur_split (us @ [d1, d2, d3, d4] @ vs) = (?k @ le32 d1 d2 d3 d4 # fst ?v, snd ?v)" for d1 d2 d3 d4
    using mur_split_append [OF u, of "[d1, d2, d3, d4] @ vs"] by (simp add: Let_def)
  show "HASH_MUR (us @ [b1, b2, b3, b4] @ vs) = HASH_MUR (us @ [c1, c2, c3, c4] @ vs)
      \<longleftrightarrow> [b1, b2, b3, b4] = [c1, c2, c3, c4]"
    using mur.one_symbol [where rest = "snd ?v" and n = "4 + (of_nat (length us) + of_nat (length vs))" and us = ?k and vs = "fst ?v"
        and s = "0xf88D5353" and c = "le32 b1 b2 b3 b4" and d = "le32 c1 c2 c3 c4"]
    unfolding HASH_MUR_def Let_def s by (simp add: le32_eq)
qed

theorem hashes_separate_neighbours_witness:
  "HASH_MUR [97, 98, 99, 100] \<noteq> HASH_MUR [97, 98, 99, 101] \<and> HASH_FNV [97] \<noteq> HASH_FNV [98]"
  using hashes_separate_neighbours [of "[]" 97 "[]" 98 97 98 99 100 97 98 99 101] by simp


subsection \<open>The Bloom filter\<close>

text \<open>\<open>n\<close> is \<open>HASH_BLOOM\<close>, the logarithm of the number of bits.\<close>

definition HASH_BLOOM_BYTELEN :: "nat \<Rightarrow> nat" where
  "HASH_BLOOM_BYTELEN n = 2 ^ n div 8 + (if 2 ^ n mod 8 \<noteq> (0 :: nat) then 1 else 0)"

definition HASH_BLOOM_MAKE :: "bool \<Rightarrow> nat \<Rightarrow> byte list result" where
  "HASH_BLOOM_MAKE malloc_ok n = (if malloc_ok then Inr (replicate (HASH_BLOOM_BYTELEN n) 0) else Inl Exit)"

definition HASH_BLOOM_BITSET :: "byte list \<Rightarrow> u32 \<Rightarrow> byte list result" where
  "HASH_BLOOM_BITSET bv idx =
    (let i = unat (idx div 8)
     in if i < length bv then Inr (bv[i := bv ! i OR push_bit (unat (idx mod 8)) 1]) else Inl OobWrite)"

definition HASH_BLOOM_BITTEST :: "byte list \<Rightarrow> u32 \<Rightarrow> bool result" where
  "HASH_BLOOM_BITTEST bv idx =
    (let i = unat (idx div 8)
     in if i < length bv then Inr (bv ! i AND push_bit (unat (idx mod 8)) 1 \<noteq> 0) else Inl OobRead)"

definition HASH_BLOOM_ADD :: "nat \<Rightarrow> byte list \<Rightarrow> u32 \<Rightarrow> byte list result" where
  "HASH_BLOOM_ADD n bv hashv = HASH_BLOOM_BITSET bv (hashv AND (2 ^ n - 1))"

definition HASH_BLOOM_TEST :: "nat \<Rightarrow> byte list \<Rightarrow> u32 \<Rightarrow> bool result" where
  "HASH_BLOOM_TEST n bv hashv = HASH_BLOOM_BITTEST bv (hashv AND (2 ^ n - 1))"

text \<open>The lookup of a build with the filter: the bucket is searched only when the test succeeds.\<close>

definition HASH_FIND_BLOOM :: "nat \<Rightarrow> byte list \<Rightarrow> byte list \<Rightarrow> 'e hash_head \<Rightarrow> 'e option result" where
  "HASH_FIND_BLOOM n bv key head =
    (case head of
       None \<Rightarrow> Inr None
     | Some tbl \<Rightarrow>
         rbind (HASH_BLOOM_TEST n bv (HASH_JEN key)) (\<lambda>hit.
           if hit then HASH_FIND_BYHASHVALUE head key (HASH_JEN key) else Inr None))"

text \<open>The filter covers a table when it has its size and every item's hash value passes the test.\<close>

definition bloom_covers :: "nat \<Rightarrow> byte list \<Rightarrow> u32 set \<Rightarrow> bool" where
  "bloom_covers n bv hs \<longleftrightarrow> length bv = HASH_BLOOM_BYTELEN n \<and> (\<forall>h \<in> hs. HASH_BLOOM_TEST n bv h = Inr True)"

lemma bloom_index:
  fixes hashv :: u32
  assumes "n \<le> 32"
  shows "unat ((hashv AND (2 ^ n - 1)) div 8) < HASH_BLOOM_BYTELEN n"
proof -
  have "hashv AND (2 ^ n - 1) = take_bit n hashv" by (simp add: take_bit_eq_mask mask_eq_exp_minus_1)
  then have "unat (hashv AND (2 ^ n - 1)) < 2 ^ n" by (simp add: unsigned_take_bit_eq)
  then have "unat (hashv AND (2 ^ n - 1)) div 8 \<le> (2 ^ n - 1) div 8" by (intro div_le_mono) simp
  also have "(m - 1) div 8 < m div 8 + (if m mod 8 \<noteq> 0 then 1 else 0)" if "0 < m" for m :: nat
    using that by presburger
  then have "(2 ^ n - 1) div 8 < HASH_BLOOM_BYTELEN n" by (simp add: HASH_BLOOM_BYTELEN_def)
  finally show ?thesis by (simp add: unat_div)
qed


lemma bloom_test_bit:
  assumes "length bv = HASH_BLOOM_BYTELEN n" and "n \<le> 32"
  shows "HASH_BLOOM_TEST n bv h = Inr (bit (bv ! unat ((h AND (2 ^ n - 1)) div 8)) (unat ((h AND (2 ^ n - 1)) mod 8)))"
proof -
  have "b AND push_bit k 1 \<noteq> 0 \<longleftrightarrow> bit b k" if "k < 8" for b :: byte and k
  proof -
    have "b AND push_bit k 1 = push_bit k (of_bool (bit b k))"
      using that by (intro bit_word_eqI) (auto simp: bit_simps)
    with that show ?thesis by (auto simp: push_bit_eq_mult)
  qed
  moreover have "unat ((h AND (2 ^ n - 1)) mod 8) < 8" by (simp add: unat_mod)
  ultimately show ?thesis
    using bloom_index [OF assms(2), of h] assms(1) by (simp add: HASH_BLOOM_TEST_def HASH_BLOOM_BITTEST_def Let_def)
qed

text \<open>Adding a hash value makes its test succeed and no other test fail.\<close>

lemma bloom_add_covers:
  assumes "bloom_covers n bv hs" and n: "n \<le> 32"
  shows "\<exists>bv'. HASH_BLOOM_ADD n bv h = Inr bv' \<and> bloom_covers n bv' (insert h hs)"
proof -
  let ?i = "unat ((h AND (2 ^ n - 1)) div 8)" and ?k = "unat ((h AND (2 ^ n - 1)) mod 8)"
  let ?bv = "bv[?i := bv ! ?i OR push_bit ?k 1]"
  have l: "length bv = HASH_BLOOM_BYTELEN n" and t: "HASH_BLOOM_TEST n bv g = Inr True" if "g \<in> hs" for g
    using assms(1) that by (simp_all add: bloom_covers_def)
  have len: "length bv = HASH_BLOOM_BYTELEN n" using assms(1) by (simp add: bloom_covers_def)
  have i: "?i < length bv" using bloom_index [OF n, of h] len by simp
  have k: "?k < 8" by (simp add: unat_mod)
  have add: "HASH_BLOOM_ADD n bv h = Inr ?bv" using i by (simp add: HASH_BLOOM_ADD_def HASH_BLOOM_BITSET_def Let_def)
  have mono: "bit (bv ! j) m \<Longrightarrow> j < length bv \<Longrightarrow> bit (?bv ! j) m" for j m
    by (cases "j = ?i") (simp_all add: bit_or_iff)
  have "HASH_BLOOM_TEST n ?bv g = Inr True" if "g \<in> insert h hs" for g
  proof (cases "g = h")
    case True
    then show ?thesis using bloom_test_bit [of ?bv n h] len n i k by (simp add: bit_or_iff bit_exp_iff)
  next
    case False
    with that t have "HASH_BLOOM_TEST n bv g = Inr True" by simp
    then show ?thesis
      using bloom_test_bit [of bv n g] bloom_test_bit [of ?bv n g] len n mono bloom_index [OF n, of g] by simp
  qed
  with add len show ?thesis by (simp add: bloom_covers_def)
qed

lemma bloom_make_covers: "n \<le> 32 \<Longrightarrow> \<exists>bv. HASH_BLOOM_MAKE True n = Inr bv \<and> bloom_covers n bv {}"
  by (simp add: HASH_BLOOM_MAKE_def bloom_covers_def)

text \<open>
  C27: The Bloom filter is transparent.  A filter that received the hash value of every item, in any order, is accessed
  within its bounds and has no false negatives: the lookup that consults it first returns what the lookup
  without it returns, for keys in the table and for keys that are not.
\<close>

theorem bloom_transparent:
  assumes ok: "uthash_ok head" and n: "n \<le> 32" and hs: "set hs = HASH_JEN ` fst ` set (hash_items head)"
  shows "\<exists>bv0 bv. HASH_BLOOM_MAKE True n = Inr bv0 \<and> rfold (\<lambda>h bv. HASH_BLOOM_ADD n bv h) hs bv0 = Inr bv
    \<and> length bv = HASH_BLOOM_BYTELEN n \<and> (\<forall>key. HASH_FIND_BLOOM n bv key head = HASH_FIND key head)"
proof -
  from bloom_make_covers [OF n] obtain bv0 where b0: "HASH_BLOOM_MAKE True n = Inr bv0" "bloom_covers n bv0 {}" by blast
  have "\<exists>bv. rfold (\<lambda>h bv. HASH_BLOOM_ADD n bv h) l b = Inr bv \<and> bloom_covers n bv (A \<union> set l)"
    if "bloom_covers n b A" for l b A
    using that
  proof (induction l arbitrary: b A)
    case (Cons h l)
    from bloom_add_covers [OF Cons.prems n, of h] obtain b1 where
      b1: "HASH_BLOOM_ADD n b h = Inr b1" "bloom_covers n b1 (insert h A)" by blast
    from Cons.IH [OF b1(2)] b1(1) show ?case by simp
  qed simp
  from this [OF b0(2), of hs] obtain bv where
    bv: "rfold (\<lambda>h bv. HASH_BLOOM_ADD n bv h) hs bv0 = Inr bv" "bloom_covers n bv (set hs)" by auto
  have len: "length bv = HASH_BLOOM_BYTELEN n" using bv(2) by (simp add: bloom_covers_def)
  have "HASH_FIND_BLOOM n bv key head = HASH_FIND key head" for key
  proof (cases head)
    case None
    then show ?thesis by (simp add: HASH_FIND_BLOOM_def HASH_FIND_def HASH_FIND_BYHASHVALUE_def)
  next
    case (Some t)
    show ?thesis
    proof (cases "key \<in> fst ` set (hash_items head)")
      case True
      then have "HASH_BLOOM_TEST n bv (HASH_JEN key) = Inr True" using bv(2) hs by (auto simp: bloom_covers_def)
      then show ?thesis by (simp add: Some HASH_FIND_BLOOM_def HASH_FIND_def)
    next
      case False
      then have "HASH_FIND key head = Inr None" using ut.look_None_iff [OF ok] by simp
      then show ?thesis
        using bloom_test_bit [OF len n, of "HASH_JEN key"] by (simp add: Some HASH_FIND_BLOOM_def HASH_FIND_def)
    qed
  qed
  with b0(1) bv(1) len show ?thesis by blast
qed

theorem bloom_transparent_witness:
  "\<exists>h bv0 bv. HASH_ADD True [97] (7 :: nat) None = Inr h \<and> HASH_BLOOM_MAKE True 10 = Inr bv0
     \<and> HASH_BLOOM_ADD 10 bv0 (HASH_JEN [97]) = Inr bv \<and> HASH_FIND_BLOOM 10 bv [97] h = HASH_FIND [97] h"
proof -
  from one_item [of "[97]" "7 :: nat"] obtain h where h: "HASH_ADD True [97] (7 :: nat) None = Inr h" "uthash_ok h"
    "hash_items h = [([97], 7)]" by blast
  from bloom_transparent [OF h(2), of 10 "[HASH_JEN [97]]"] h(3) obtain bv0 bv where
    "HASH_BLOOM_MAKE True 10 = Inr bv0" "rfold (\<lambda>h bv. HASH_BLOOM_ADD 10 bv h) [HASH_JEN [97]] bv0 = Inr bv"
    "HASH_FIND_BLOOM 10 bv [97] h = HASH_FIND [97] h" by auto
  with h(1) show ?thesis by (auto simp: result_simps)
qed


subsection \<open>Recoverable allocation failures\<close>

text \<open>
  The insertion of a build with \<open>HASH_NONFATAL_OOM\<close>.  The flags say which allocations succeed: the table, its buckets
  and the buckets of an expansion; the result carries \<open>oomed\<close>.
\<close>

definition HASH_MAKE_TABLE_NF :: "bool \<Rightarrow> bool \<Rightarrow> 'e UT_hash_handle \<Rightarrow> 'e UT_hash_table option" where
  "HASH_MAKE_TABLE_NF tbl_ok bkts_ok add =
    (if \<not> tbl_ok then None
     else if \<not> bkts_ok then None
     else Some \<lparr>buckets = replicate (unat HASH_INITIAL_NUM_BUCKETS) empty_bucket,
                num_buckets = HASH_INITIAL_NUM_BUCKETS,
                log2_num_buckets = HASH_INITIAL_NUM_BUCKETS_LOG2,
                num_items = 0, app_list = [add], ideal_chain_maxlen = 0,
                nonideal_items = 0, ineff_expands = 0, noexpand = 0\<rparr>)"

definition HASH_EXPAND_BUCKETS_NF :: "bool \<Rightarrow> 'e UT_hash_table \<Rightarrow> ('e UT_hash_table \<times> bool) result" where
  "HASH_EXPAND_BUCKETS_NF exp_ok tbl =
    (if \<not> exp_ok then Inr (tbl, True) else rbind (HASH_EXPAND_BUCKETS True tbl) (\<lambda>t. Inr (t, False)))"

definition HASH_ADD_TO_BKT_NF ::
    "bool \<Rightarrow> nat \<Rightarrow> 'e UT_hash_handle \<Rightarrow> 'e UT_hash_table \<Rightarrow> ('e UT_hash_table \<times> bool) result" where
  "HASH_ADD_TO_BKT_NF exp_ok bkt addhh tbl =
    (if bkt < length (buckets tbl)
     then let head = buckets tbl ! bkt;
              head' = head\<lparr>bkt_count := bkt_count head + 1, bkt_chain := addhh # bkt_chain head\<rparr>;
              tbl' = tbl\<lparr>buckets := (buckets tbl)[bkt := head']\<rparr>
          in if (expand_mult head' + 1) * HASH_BKT_CAPACITY_THRESH \<le> bkt_count head' \<and> noexpand tbl' = 0
             then rbind (HASH_EXPAND_BUCKETS_NF exp_ok tbl') (\<lambda>r.
                    if snd r then rbind (HASH_DEL_IN_BKT bkt addhh (fst r)) (\<lambda>t. Inr (t, True)) else Inr r)
             else Inr (tbl', False)
     else Inl OobWrite)"

text \<open>
  The rollback restores the count that the failed insertion took back, so that the deletion after it can take
  it back again.  The link fields it sets to \<open>NULL\<close> (\<open>hh_next\<close>, \<open>hh_prev\<close>) do not exist on lists: the item is in no
  chain, which is what those assignments express.
\<close>

definition HASH_ROLLBACK_BKT :: "'e UT_hash_handle \<Rightarrow> 'e UT_hash_table \<Rightarrow> 'e UT_hash_table result" where
  "HASH_ROLLBACK_BKT item tbl =
    (let bkt = unat (HASH_TO_BKT (hh_hashv item) (num_buckets tbl))
     in if bkt < length (buckets tbl)
        then let head = buckets tbl ! bkt
             in Inr (tbl\<lparr>buckets := (buckets tbl)[bkt := head\<lparr>bkt_count := bkt_count head + 1\<rparr>]\<rparr>)
        else Inl OobWrite)"

definition HASH_ADD_TO_TABLE_NF ::
    "bool \<Rightarrow> 'e UT_hash_handle \<Rightarrow> 'e UT_hash_table \<Rightarrow> ('e hash_head \<times> bool) result" where
  "HASH_ADD_TO_TABLE_NF exp_ok add tbl =
    (let tbl' = tbl\<lparr>num_items := num_items tbl + 1\<rparr>
     in rbind (HASH_ADD_TO_BKT_NF exp_ok (unat (HASH_TO_BKT (hh_hashv add) (num_buckets tbl'))) add tbl') (\<lambda>r.
          if snd r
          then rbind (HASH_ROLLBACK_BKT add (fst r)) (\<lambda>t.
               rbind (HASH_DEL (hh_elt add) (Some t)) (\<lambda>head. Inr (head, True)))
          else Inr (Some (fst r), False)))"

definition HASH_ADD_NF ::
    "bool \<Rightarrow> bool \<Rightarrow> bool \<Rightarrow> byte list \<Rightarrow> 'e \<Rightarrow> 'e hash_head \<Rightarrow> ('e hash_head \<times> bool) result" where
  "HASH_ADD_NF tbl_ok bkts_ok exp_ok key add head =
    (let hh = \<lparr>hh_elt = add, hh_key = key, hh_hashv = HASH_JEN key\<rparr>
     in case head of
          None \<Rightarrow> (case HASH_MAKE_TABLE_NF tbl_ok bkts_ok hh of
                     None \<Rightarrow> Inr (None, True)
                   | Some tbl \<Rightarrow> HASH_ADD_TO_TABLE_NF exp_ok hh tbl)
        | Some tbl \<Rightarrow> HASH_ADD_TO_TABLE_NF exp_ok hh (tbl\<lparr>app_list := app_list tbl @ [hh]\<rparr>))"

lemma add_to_bkt_nf:
  assumes i: "i < length (buckets t)" and e: "hh_elt h \<notin> hh_elt ` set (bkt_chain (buckets t ! i))"
  shows "HASH_ADD_TO_BKT_NF exp_ok i h t = Inr (t, True) \<and> \<not> exp_ok
    \<or> HASH_ADD_TO_BKT_NF exp_ok i h t = rbind (HASH_ADD_TO_BKT True i h t) (\<lambda>t. Inr (t, False))"
proof -
  let ?b = "buckets t ! i"
  have f: "filter (\<lambda>g. hh_elt g \<noteq> hh_elt h) (bkt_chain ?b) = bkt_chain ?b"
    using e by (auto simp: filter_id_conv) (metis image_eqI)
  let ?t = "t\<lparr>buckets := (buckets t)[i := ?b\<lparr>bkt_count := bkt_count ?b + 1, bkt_chain := h # bkt_chain ?b\<rparr>]\<rparr>"
  have "HASH_DEL_IN_BKT i h ?t = Inr t"
    using i f by (simp add: HASH_DEL_IN_BKT_def Let_def)
  then show ?thesis
    using i by (cases exp_ok; cases "HASH_EXPAND_BUCKETS True ?t") (simp_all add: HASH_ADD_TO_BKT_NF_def HASH_ADD_TO_BKT_def HASH_EXPAND_BUCKETS_NF_def Let_def)
qed


lemma rollback_restores:
  assumes ok: "uthash_ok (Some t)" and e: "hh_elt h \<notin> hh_elt ` set (app_list t)"
  shows "rbind (HASH_ROLLBACK_BKT h (t\<lparr>app_list := app_list t @ [h], num_items := num_items t + 1\<rparr>))
    (\<lambda>u. HASH_DEL (hh_elt h) (Some u)) = Inr (Some t)"
proof -
  let ?i = "unat (HASH_TO_BKT (hh_hashv h) (num_buckets t))"
  have i: "?i < length (buckets t)" using ok by (intro table_ok_bkt) (simp add: uthash_ok_def)
  have ne: "hh_elt g \<noteq> hh_elt h" if "g \<in> set (app_list t)" for g using e that by (metis image_eqI)
  have sub: "set (bkt_chain (buckets t ! ?i)) \<subseteq> set (app_list t)"
    using i mset_eq_setD [of "concat (map bkt_chain (buckets t))" "app_list t"] ok by (auto simp: uthash_ok_def)
  have c: "filter (\<lambda>g. hh_elt g \<noteq> hh_elt h) (bkt_chain (buckets t ! ?i)) = bkt_chain (buckets t ! ?i)"
    using sub ne by (auto simp: filter_id_conv)
  have a: "filter (\<lambda>g. hh_elt g \<noteq> hh_elt h) (app_list t @ [h]) = app_list t" using ne by (simp add: filter_id_conv)
  have "find (\<lambda>g. hh_elt g = hh_elt h) (l @ [h]) = Some h" if "\<And>g. g \<in> set l \<Longrightarrow> hh_elt g \<noteq> hh_elt h" for l
    using that by (induction l) auto
  from this [OF ne] have f: "find (\<lambda>g. hh_elt g = hh_elt h) (app_list t @ [h]) = Some h" .
  have l: "app_list t \<noteq> []" using ok by (simp add: uthash_ok_def)
  show ?thesis
    using i a c f l by (simp add: HASH_ROLLBACK_BKT_def HASH_DEL_def HASH_DEL_IN_BKT_def Let_def)
qed

lemma first_add_nf:
  "HASH_ADD_NF tbl_ok bkts_ok exp_ok key e None = Inr (None, True) \<and> \<not> (tbl_ok \<and> bkts_ok \<and> exp_ok)
    \<or> HASH_ADD_NF tbl_ok bkts_ok exp_ok key e None = rbind (HASH_ADD True key e None) (\<lambda>h. Inr (h, False))"
proof (cases "tbl_ok \<and> bkts_ok")
  case False
  then have "HASH_MAKE_TABLE_NF tbl_ok bkts_ok h = None" for h :: "'a UT_hash_handle"
    by (auto simp: HASH_MAKE_TABLE_NF_def)
  with False show ?thesis by (auto simp: HASH_ADD_NF_def Let_def)
next
  case True
  let ?h = "\<lparr>hh_elt = e, hh_key = key, hh_hashv = HASH_JEN key\<rparr>"
  from HASH_MAKE_TABLE_def [of True ?h] True show ?thesis
    by (simp add: HASH_ADD_NF_def HASH_MAKE_TABLE_NF_def HASH_ADD_TO_TABLE_NF_def HASH_ADD_TO_BKT_NF_def HASH_ADD_def
        HASH_ADD_KEYPTR_BYHASHVALUE_def HASH_ADD_TO_TABLE_def HASH_ADD_TO_BKT_def Let_def
        HASH_INITIAL_NUM_BUCKETS_def HASH_BKT_CAPACITY_THRESH_def empty_bucket_def word_le_nat_alt)
qed

text \<open>
  C26: In a build with recoverable allocation failures an insertion either does what the insertion with enough memory
  does, or reports the failure and leaves the table exactly as it was: the half-done insertion (counters, the
  bucket's chain and the list of items) is taken back completely.
\<close>

theorem nonfatal_oom_rolls_back:
  assumes ok: "uthash_ok head" and e: "e \<notin> snd ` set (hash_items head)"
  shows "HASH_ADD_NF tbl_ok bkts_ok exp_ok key e head = Inr (head, True) \<and> \<not> (tbl_ok \<and> bkts_ok \<and> exp_ok)
    \<or> HASH_ADD_NF tbl_ok bkts_ok exp_ok key e head = rbind (HASH_ADD True key e head) (\<lambda>h. Inr (h, False))"
proof (cases head)
  case None
  then show ?thesis using first_add_nf by simp
next
  case (Some t)
  let ?h = "\<lparr>hh_elt = e, hh_key = key, hh_hashv = HASH_JEN key\<rparr>"
  let ?u = "t\<lparr>app_list := app_list t @ [?h], num_items := num_items t + 1\<rparr>"
  let ?i = "unat (HASH_TO_BKT (HASH_JEN key) (num_buckets t))"
  have okt: "uthash_ok (Some t)" using ok by (simp add: Some)
  have e': "e \<notin> hh_elt ` set (app_list t)" using e by (simp add: Some hash_items_def image_image)
  have i: "?i < length (buckets t)" using okt by (intro table_ok_bkt) (simp add: uthash_ok_def)
  have "set (bkt_chain (buckets t ! ?i)) \<subseteq> set (app_list t)"
    using i mset_eq_setD [of "concat (map bkt_chain (buckets t))" "app_list t"] okt by (auto simp: uthash_ok_def)
  then have "HASH_ADD_TO_BKT_NF exp_ok ?i ?h ?u = Inr (?u, True) \<and> \<not> exp_ok
      \<or> HASH_ADD_TO_BKT_NF exp_ok ?i ?h ?u = rbind (HASH_ADD_TO_BKT True ?i ?h ?u) (\<lambda>t. Inr (t, False))"
    using i e' by (intro add_to_bkt_nf) auto
  then show ?thesis
  proof
    assume o: "HASH_ADD_TO_BKT_NF exp_ok ?i ?h ?u = Inr (?u, True) \<and> \<not> exp_ok"
    from rollback_restores [OF okt, of ?h] e' obtain v where
      v: "HASH_ROLLBACK_BKT ?h ?u = Inr v" "HASH_DEL e (Some v) = Inr (Some t)" by (auto simp: result_simps)
    from conjunct1 [OF o] v have "HASH_ADD_NF tbl_ok bkts_ok exp_ok key e head = Inr (head, True)"
      by (simp add: Some HASH_ADD_NF_def HASH_ADD_TO_TABLE_NF_def Let_def)
    with o show ?thesis by simp
  next
    assume "HASH_ADD_TO_BKT_NF exp_ok ?i ?h ?u = rbind (HASH_ADD_TO_BKT True ?i ?h ?u) (\<lambda>t. Inr (t, False))"
    then show ?thesis
      by (cases "HASH_ADD_TO_BKT True ?i ?h ?u")
        (simp_all add: Some HASH_ADD_NF_def HASH_ADD_TO_TABLE_NF_def HASH_ADD_def HASH_ADD_KEYPTR_BYHASHVALUE_def
          HASH_ADD_TO_TABLE_def Let_def)
  qed
qed

theorem nonfatal_oom_rolls_back_witness:
  "HASH_ADD_NF False True True [97] (7 :: nat) None = Inr (None, True)
   \<and> (HASH_ADD_NF True True True [97] (7 :: nat) None = rbind (HASH_ADD True [97] 7 None) (\<lambda>h. Inr (h, False)))"
  using nonfatal_oom_rolls_back [of "None :: nat hash_head" 7 True True True "[97]"]
  by (simp add: uthash_ok_def hash_items_def HASH_ADD_NF_def HASH_MAKE_TABLE_NF_def)

end
