(* ===== verification/Spec2Isabelle.thy ===== *)
theory Spec2Isabelle
  imports Uwebfilter_Main Uthash_Links_Order Uthash_Links_Sort Uthash_Options
begin

text \<open>
  \<^bold>\<open>A verification of the packet filter daemon of uwebfilter\<close>

  The program (\<open>src/uwebfilter.d/source/src\<close>) is a daemon that receives packets from a netfilter queue and
  gives a verdict on each.  It reads the name a packet asks for (a DNS question, the \<open>Host\<close> header of an
  HTTP request, the server name of a TLS ClientHello, which may take several packets), looks up category and
  application of the name, decides by the configured rules, logs the access, and answers a blocked request
  with a forged DNS answer or TCP reset.

  \<^bold>\<open>Theories.\<close>  In the order of dependence; each opens with what it holds.

  \<^item> \<open>C_Prelude\<close>: faults and results, bounded memory, C strings, byte order.
  \<^item> \<open>Uthash\<close> (\<open>uthash.h\<close>): hash function, table, insertion, lookup, deletion, growth, on lists.  The locales
    \<open>keyed_store\<close> and \<open>keyed_table\<close> are its interface, interpreted as \<open>ut\<close>.
  \<^item> \<open>Uthash_Order\<close>: the sort, insertion in order, replacement; the loops of the sort are partial functions.
  \<^item> \<open>Double_Links\<close>, \<open>Uthash_Links\<close>: doubly linked lists in a memory; the table with the pointers of the header, the
    relation \<open>linked\<close> to the table on lists, and the refinement of every operation.  The interface \<open>keyed_store\<close> is
    interpreted on the pointers too, as \<open>lk\<close>.
  \<^item> \<open>Uthash_Links_Order\<close>: insertion in order, the integrity check and the selection of items, on the pointers.
  \<^item> \<open>Uthash_Links_Sort\<close>: the sort, which relinks the list in place, and the replacement, on the pointers.
  \<^item> \<open>Uthash_Options\<close>: what a build may switch on: other hash functions (the locale \<open>mixing_hash\<close>, interpreted on
    four of them), the Bloom filter, recoverable allocation failures.
  \<^item> \<open>Domain_Suffix\<close>: the search of a name and its parent domains in a table, shared by the configuration and
    the cache, as a locale interpreted on both.
  \<^item> \<open>Json_Api\<close>, \<open>Json_Instance\<close>: json-c as a record of operations, and one instance for the witnesses.
  \<^item> \<open>Config\<close> (\<open>config.c\<close>), \<open>Access_Rules\<close>: loading, printing, questions; the locale \<open>config_rules\<close> is
    what the decision relies on.
  \<^item> \<open>Logger\<close> (\<open>logger.c\<close>), \<open>Utils\<close> (\<open>utils.c\<close>).
  \<^item> \<open>Domain_Lookup\<close> (\<open>domain_lookup.c\<close>): arena, cache, collector, query.
  \<^item> \<open>Netfilter\<close> (\<open>nfqueue.h\<close>), \<open>Block\<close> (\<open>block.c\<close>): what goes out on the network; checksums and forged packets.
  \<^item> \<open>Tcpflow\<close> (\<open>tcpflow.c\<close>): flows on an explicit heap, with verdicts as events.
  \<^item> \<open>Uwebfilterlog\<close> (\<open>uwebfilterlog.c\<close>, \<open>uwebfilterlog_db.c\<close>, \<open>uwebfilterlog_cloud.c\<close>): rows, posts, token.
  \<^item> \<open>Check\<close> (\<open>check.c\<close>): the state \<open>daemon\<close> of the whole process and the decision on a request.
  \<^item> \<open>Packet_Handler\<close>: the invariant \<open>daemon_ok\<close>, the packets a state accounts for, and the contract of a
    handler as the locales \<open>packet_handler\<close> and \<open>prompt_handler\<close>.
  \<^item> \<open>Udp53\<close>, \<open>Tcp80\<close>, \<open>Tcp443\<close> (the files of these names): the handlers, each interpreting the contract.
  \<^item> \<open>Nfqueue\<close> (\<open>nfqueue.c\<close>): dispatch, callback, start and receive loop; the loop is an inductive relation.
  \<^item> \<open>Uwebfilter_Main\<close> (\<open>main.c\<close>): the start of the process, and packets that ask for a name.

  \<^bold>\<open>Conventions.\<close>  An operation returns \<open>Inr\<close> its result and new state, or \<open>Inl\<close> the fault or exit the C code
  runs into: an access outside an object, a null pointer, a freed object, a failed assertion, \<open>exit\<close>.  A pointer
  is the list of bytes from it to the end of its object; the payload of a packet reaches to the end of the
  receive buffer.  Integers that wrap around are words; \<open>int\<close> and \<open>time_t\<close> values are integers, with the
  conversions of the code written out.  The static variables of a file are the record of its component; flows
  live on a heap, from address to object, because the code keeps pointers to them; the record \<open>heap\<close> of
  \<open>Uthash_Links\<close> adds the set of freed elements to the memory, and an access to one is a fault.

  \<^bold>\<open>Parameters.\<close>  json-c, libcurl, SQLite, libmnl and libnetfilter_queue, the clock, \<open>rand\<close>, the allocator and
  the sockets are arguments: \<open>json_c\<close>, \<open>lookup_env\<close>, \<open>log_env\<close>, \<open>packet_env\<close>, \<open>load_env\<close>, \<open>raw_env\<close>,
  \<open>start_env\<close>.  What is assumed of them is stated as hypotheses: \<open>json_strings_ok\<close> (strings of json-c are C strings),
  \<open>tokens_ok\<close> (a token is present), \<open>load_succeeds\<close> (allocation), \<open>calls_back\<close> (\<open>mnl_cb_run\<close> calls the callback on
  the messages of a buffer in order).  Each theorem with such a hypothesis has a witness with concrete ones.

  \<^bold>\<open>What is shown.\<close>

  \<^item> The daemon as a whole: the domain lists of the document it was started with decide, in every reachable
    state, on every DNS query, HTTP request and single-packet ClientHello within the bounds of the parsers
    whose handler completes (below); packets are conserved by the receive loop, and none is judged twice
    (\<open>Nfqueue\<close>); unexamined traffic passes.
  \<^item> Decisions: the decision table on a loaded document, the log record of each decision, and that the first access
    to a name is decided without its category; the row of a decision fits the tables of the database (\<open>Check\<close>).
  \<^item> Parsers: DNS names, HTTP requests and ClientHello messages are extracted as they were built, and long
    names do what the code does to them (\<open>Udp53\<close>, \<open>Tcp80\<close>, \<open>Tcp443\<close>); a ClientHello split over up to eight packets
    is judged like one that is not.
  \<^item> Containers: the hash table implements an association list in insertion order and keeps its internal
    invariant (\<open>Uthash\<close>); its pointers implement the lists, a loop that deletes and frees the current element reads no
    freed element and visits each once, and the integrity check is exact (\<open>Uthash_Links\<close>,
    \<open>Uthash_Links_Order\<close>); its sort ends and is the stable sort
    (\<open>Uthash_Order\<close>, and in place on the links \<open>Uthash_Links_Sort\<close>); the Bloom filter changes no lookup and
    a failed insertion is taken back completely (\<open>Uthash_Options\<close>); the arena of the cache never
    leaks or shares a slot, and no assertion about it fails (\<open>Domain_Lookup\<close>); flows are freed
    once and their packets judged once (\<open>Tcpflow\<close>).
  \<^item> Output: checksums agree with RFC 1071, forged packets are given byte by byte (\<open>Block\<close>), addresses are
    printed in a form that can be read back (\<open>Utils\<close>), every log record is offered to the database once and is either
    waiting in the buffer or in the payload of exactly one post, which is not repeated when it fails
    (\<open>Uwebfilterlog\<close>).
  \<^item> Faults: where the code reads or writes out of bounds, forgets a packet or drops flows, a theorem gives
    the exact condition.

  \<^bold>\<open>Bounds.\<close>  The loops of the daemon are functions that terminate, by the structure of their data or by a
  measure; the server name loop has the 50 iterations the code allows it.  The loops of \<open>uthash.h\<close> that follow pointers,
  and its sort, whose 32-bit run length may wrap to zero, are partial functions with the value \<open>None\<close> for a run
  that does not end; the theorems show that they return on every memory that holds a table, and the sort for up to
  \<open>2 ^ 32\<close> items.  The receive loop does not end; it is described by its finite runs.

  \<^bold>\<open>Not modelled.\<close>  Of \<open>uthash.h\<close>, the output of keys for tuning (\<open>HASH_EMIT_KEYS\<close>) and the workarounds for
  compilers without \<open>typeof\<close>; the texts of error messages on the standard error stream; the order in which the
  messages of different components reach the log.  The services around the daemon (\<open>uwebfilter.server\<close>,
  \<open>uwebfilter.scraper\<close>, \<open>uwebfilter.logcollect\<close>, in Go), the Python scripts (\<open>uwebfilter.categorify\<close>,
  \<open>uwebfilter.database\<close>), tests and packaging are other programs, which the daemon meets only through the
  replies that are parameters here.
\<close>

subsection \<open>The filter as a whole\<close>


lemma sample_query_request: "request_for E sample_dns_query st (bytes ''a.com'')"
proof -
  have d: "dotted [bytes ''a'', bytes ''com''] = bytes ''a.com''" by (simp add: bytes_def)
  have "request_for E sample_dns_query st (dotted [bytes ''a'', bytes ''com''])"
    by (rule request_for.dns [OF _ _ sample_dns_query_ok])
       (simp_all add: sample_dns_query_def ip_protocol_def l4_dport_def rd8_def rd16be_def be16_def IPPROTO_UDP_def wire_name_def bytes_def)
  then show ?thesis unfolding d .
qed

lemma sample_query_handled:
  assumes st: "st = daemon_init cfg" "config_ok cfg" "terminated (serveraddr cfg)"
  shows "\<exists>st'. packet_handle (json_instance None) (sample_packet_env 1000 True) sample_dns_query st = Inr st'"
proof -
  let ?J = "json_instance None" and ?E = "sample_packet_env 1000 True" and ?p = "pk_payload sample_dns_query"
  let ?ls = "[bytes ''a'', bytes ''com'']" and ?u = "uwebfilterlog_zero\<lparr>ul_proto := Some (cmem (bytes ''udp'')), ul_srcport := 12345, ul_dstport := 53\<rparr>"
  let ?d = "dotted ?ls @ replicate (256 - length (dotted ?ls)) 0"
  have l: "length (wire_name ?ls) \<le> 227" "20 + length (wire_name ?ls) + 5 * 4 \<le> unat (pk_length sample_dns_query)"
    by (simp_all add: sample_dns_query_def wire_name_def bytes_def)
  note x = dns_query_extract [OF sample_dns_query_ok _ l, simplified]
  have d: "?d = ul_domain sample_request" by (simp add: sample_request_def bytes_def)
  have r: "request_ok (?u\<lparr>ul_domain := ?d\<rparr>)"
    unfolding d using sample_request_ok(1) by (simp add: request_ok_def record_ok_def sample_request_def)
  have "query_result ?J (pe_lookup ?E) cfg n = None" for n
    by (simp add: query_result_def sample_packet_env_def sample_env_def curl_write_cb_def json_instance_def)
  then have "\<exists>lk. domain_lookup ?J (pe_lookup ?E) (dm_config st) (ul_domain (?u\<lparr>ul_domain := ?d\<rparr>)) \<lparr>rs_category = 0, rs_application = 0\<rparr>
      (dm_lookup st) = Inr (\<lparr>rs_category = 0, rs_application = 0\<rparr>, lk)"
    using first_lookup_total [OF lookup_ok_init sample_request_ok(3,4) st(3), of "pe_lookup ?E" ?J] st(1) d
    by (simp add: daemon_init_def domain_info_arena_init_def hash_items_def sample_packet_env_def sample_env_def)
  then obtain lk where "domain_lookup ?J (pe_lookup ?E) (dm_config st) (ul_domain (?u\<lparr>ul_domain := ?d\<rparr>)) \<lparr>rs_category = 0, rs_application = 0\<rparr>
      (dm_lookup st) = Inr (\<lparr>rs_category = 0, rs_application = 0\<rparr>, lk)" by blast
  from check_access_total [OF this _ r _ sample_cloud_ready, of ?p] st obtain v u' s1 where
    c: "check_access ?J ?E (?u\<lparr>ul_domain := ?d\<rparr>) ?p st = Inr (v, u', s1)"
    by (auto simp: daemon_init_def sample_dns_query_def)
  obtain out where f: "dns_answer_send (pe_raw ?E) ?p (dm_net s1) = Inr out"
    using dns_query_forged [OF sample_dns_query_ok l(1)] by blast
  have h: "ip_protocol ?p = Inr 17" "ip_ihl ?p = Inr 5" "l4_sport ?p 20 = Inr 12345" "l4_dport ?p 20 = Inr 53"
    by (simp_all add: sample_dns_query_def ip_protocol_def ip_ihl_def l4_sport_def l4_dport_def rd8_def rd16be_def be16_def)
  have "\<exists>st'. packet_handle_udp53 ?J ?E ?u sample_dns_query st = Inr st'"
    using x c f h by (cases v)
      (simp_all add: packet_handle_udp53_def Let_def dm_verdict_def nfq_send_verdict_def sample_env_simps zero_record)
  then show ?thesis by (simp add: packet_handle_def h IPPROTO_TCP_def IPPROTO_UDP_def Let_def)
qed


end
